(* ===== verification/Prelude.thy ===== *)
theory Prelude
  imports Main "HOL-Library.Word" "HOL-Library.Multiset"
begin

text \<open>
  What every component of the model shares: the faults a C program can run into, computations
  that may fault, C strings, and a few list lemmas.

  A \<^emph>\<open>fault\<close> is what the C code does not define or does not survive: a null dereference, an
  access outside an array, a failed \<open>assert\<close>, unbounded recursion, a use after free, a loop that never ends. A fault is
  a value (\<open>Inl\<close>) and stops the computation, so that "the code never does this" is a theorem
  about the model and not a convention of it.
\<close>

named_theorems ok_simps "rewrite rules for computations that may fault"
named_theorems ok_intros "introduction rules that discharge 'does not fault' goals"

section \<open>Computations that may fault\<close>

datatype fault =
    Null_deref
  | Out_of_bounds
  | Assertion_failed
  | Stack_overflow
  | Use_after_free
  | Nontermination

type_synonym 'a outcome = "fault + 'a"

definition obind :: "'a outcome \<Rightarrow> ('a \<Rightarrow> 'b outcome) \<Rightarrow> 'b outcome" where
  "obind m f = (case m of Inl e \<Rightarrow> Inl e | Inr x \<Rightarrow> f x)"

lemma obind_simps [simp]:
  "obind (Inl e) f = Inl e"
  "obind (Inr x) f = f x"
  by (simp_all add: obind_def)

lemma obind_Inr_conv [ok_simps]:
  "obind m f = Inr y \<longleftrightarrow> (\<exists>x. m = Inr x \<and> f x = Inr y)"
  by (cases m) auto

lemma obind_InrE: "obind m f = Inr y \<Longrightarrow> (\<And>x. m = Inr x \<Longrightarrow> f x = Inr y \<Longrightarrow> P) \<Longrightarrow> P"
  by (auto simp: obind_Inr_conv)

lemma obind_Inl_conv [ok_simps]:
  "obind m f = Inl e \<longleftrightarrow> m = Inl e \<or> (\<exists>x. m = Inr x \<and> f x = Inl e)"
  by (cases m) auto

lemma obind_cong [fundef_cong]:
  assumes "m = m'" and "\<And>x. m' = Inr x \<Longrightarrow> f x = f' x"
  shows "obind m f = obind m' f'"
  using assms by (cases m') auto

text \<open>Run a list of steps in order, stopping at the first fault.\<close>

fun ofold :: "('x \<Rightarrow> 's \<Rightarrow> 's outcome) \<Rightarrow> 'x list \<Rightarrow> 's \<Rightarrow> 's outcome" where
  "ofold f [] s = Inr s"
| "ofold f (x # xs) s = obind (f x s) (ofold f xs)"

lemma ofold_cong [fundef_cong]:
  assumes "xs = ys" and "s = t" and "\<And>x s. x \<in> set ys \<Longrightarrow> f x s = g x s"
  shows "ofold f xs s = ofold g ys t"
proof -
  have "ofold f ys t = ofold g ys t"
    using assms(3)
  proof (induction ys arbitrary: t)
    case (Cons y ys)
    then have "f y t = g y t" by simp
    with Cons show ?case by (cases "g y t") simp_all
  qed simp
  with assms(1,2) show ?thesis by simp
qed

lemma ofold_append: "ofold f (xs @ ys) s = obind (ofold f xs s) (ofold f ys)"
  by (induction xs arbitrary: s) (simp_all add: obind_def split: sum.splits)

lemma ofold_inv:
  assumes "ofold f xs s = Inr t" and "P s"
    and "\<And>x s t. x \<in> set xs \<Longrightarrow> P s \<Longrightarrow> f x s = Inr t \<Longrightarrow> P t"
  shows "P t"
  using assms
proof (induction xs arbitrary: s)
  case (Cons x xs)
  from Cons.prems(1) obtain u where u: "f x s = Inr u" "ofold f xs u = Inr t"
    by (auto simp: ok_simps)
  from Cons.prems(2) u(1) have "P u" by (rule Cons.prems(3) [rotated]) simp
  with u(2) show ?case by (rule Cons.IH) (use Cons.prems(3) in auto)
qed simp

lemma ofold_total:
  assumes "P s" and "\<And>x s. x \<in> set xs \<Longrightarrow> P s \<Longrightarrow> \<exists>t. f x s = Inr t \<and> P t"
  shows "\<exists>t. ofold f xs s = Inr t \<and> P t"
  using assms
proof (induction xs arbitrary: s)
  case (Cons x xs)
  from Cons.prems(1) Cons.prems(2)[of x] obtain u where u: "f x s = Inr u" "P u" by auto
  have "\<exists>t. ofold f xs u = Inr t \<and> P t"
    by (rule Cons.IH) (use Cons.prems(2) u(2) in auto)
  with u(1) show ?case by simp
qed simp

lemma ofold_fault:
  assumes "ofold f xs s = Inl e"
  shows "\<exists>x \<in> set xs. \<exists>t. f x t = Inl e"
  using assms by (induction xs arbitrary: s) (auto simp: ok_simps)

text \<open>The result of a loop that may not end (\<open>None\<close>).\<close>

definition or_diverge :: "'a option \<Rightarrow> 'a outcome" where
  "or_diverge r = (case r of None \<Rightarrow> Inl Nontermination | Some x \<Rightarrow> Inr x)"

lemma or_diverge_simps [simp]:
  "or_diverge None = Inl Nontermination"
  "or_diverge (Some x) = Inr x"
  by (simp_all add: or_diverge_def)

section \<open>C strings and machine integers\<close>

text \<open>
  A \<open>buxn_ls_str_t\<close> (pointer and length) is the list of its bytes. A NUL-terminated string is
  the list of the bytes before the terminator: \<open>cstr\<close> reads one from a buffer.
\<close>

type_synonym u8 = "8 word"
type_synonym u16 = "16 word"

definition NUL :: char where "NUL = CHR 0x00"
definition CR :: char where "CR = CHR 0x0D"
definition LF :: char where "LF = CHR 0x0A"
definition TAB :: char where "TAB = CHR 0x09"

lemma char_neq [simp]: "LF \<noteq> CR" "CR \<noteq> LF" "LF \<noteq> NUL" "NUL \<noteq> LF" "CR \<noteq> NUL" "NUL \<noteq> CR"
  by (simp_all add: NUL_def CR_def LF_def)

definition cstr :: "string \<Rightarrow> string" where
  "cstr buf = takeWhile (\<lambda>c. c \<noteq> NUL) buf"

text \<open>\<open>strncmp(a, b, n) == 0\<close> on two NUL-terminated strings.\<close>

definition strncmp_eq :: "string \<Rightarrow> string \<Rightarrow> nat \<Rightarrow> bool" where
  "strncmp_eq a b n \<longleftrightarrow> take n a = take n b"

text \<open>\<open>strcmp\<close>, of which only the sign counts: bytes are compared as \<open>unsigned char\<close>.\<close>

fun strcmp :: "string \<Rightarrow> string \<Rightarrow> int" where
  "strcmp [] [] = 0"
| "strcmp [] (d # t) = - 1"
| "strcmp (c # s) [] = 1"
| "strcmp (c # s) (d # t) =
     (if c = d then strcmp s t else if (of_char c :: nat) < of_char d then - 1 else 1)"

lemma strncmp_eq_prefix: "strncmp_eq a b (length a) \<longleftrightarrow> (\<exists>r. b = a @ r)"
proof
  assume "strncmp_eq a b (length a)"
  then have "b = a @ drop (length a) b"
    by (metis append_take_drop_id order_refl strncmp_eq_def take_all)
  then show "\<exists>r. b = a @ r" ..
qed (auto simp: strncmp_eq_def)

lemma cstr_id: "NUL \<notin> set s \<Longrightarrow> cstr s = s"
  by (auto simp: cstr_def takeWhile_eq_all_conv)

lemma cstr_no_NUL: "NUL \<notin> set (cstr s)"
  by (auto simp: cstr_def dest: set_takeWhileD)

lemma cstr_append_NUL: "NUL \<notin> set s \<Longrightarrow> cstr (s @ NUL # r) = s"
  by (auto simp: cstr_def takeWhile_append takeWhile_eq_all_conv)

text \<open>\<open>size_t\<close> is 64 bits wide: subtraction wraps, and the cast to \<open>ssize_t\<close> changes the sign of
  the upper half.\<close>

definition size_sub :: "nat \<Rightarrow> nat \<Rightarrow> nat" where
  "size_sub a b = (if b \<le> a then a - b else 2 ^ 64 + a - b)"

definition ssize :: "nat \<Rightarrow> int" where
  "ssize n = (if n < 2 ^ 63 then int n else int n - 2 ^ 64)"

lemma size_sub_le [simp]: "b \<le> a \<Longrightarrow> size_sub a b = a - b"
  by (simp add: size_sub_def)

lemma ssize_small [simp]: "n < 2 ^ 63 \<Longrightarrow> ssize n = int n"
  by (simp add: ssize_def)

text \<open>\<open>printf("%u", n)\<close>.\<close>

fun decimal :: "nat \<Rightarrow> string" where
  "decimal n = (if n < 10 then [char_of (48 + n)] else decimal (n div 10) @ [char_of (48 + n mod 10)])"

declare decimal.simps [simp del]

definition is_digit :: "char \<Rightarrow> bool" where
  "is_digit c \<longleftrightarrow> 48 \<le> (of_char c :: nat) \<and> (of_char c :: nat) \<le> 57"

definition digit_val :: "char \<Rightarrow> nat" where
  "digit_val c = of_char c - 48"

fun digits_val :: "nat \<Rightarrow> string \<Rightarrow> nat" where
  "digits_val acc [] = acc"
| "digits_val acc (c # cs) = digits_val (10 * acc + digit_val c) cs"

lemma digit_char: "d < 10 \<Longrightarrow> is_digit (char_of (48 + d)) \<and> digit_val (char_of (48 + d)) = d"
  by (simp add: is_digit_def digit_val_def)

lemma decimal_digits: "\<forall>c \<in> set (decimal n). is_digit c"
proof (induction n rule: decimal.induct)
  case (1 n)
  then show ?case
    by (cases "n < 10") (auto simp: decimal.simps [of n] digit_char)
qed

lemma decimal_nonempty: "decimal n \<noteq> []"
  by (subst decimal.simps) simp

lemma digits_val_append: "digits_val acc (xs @ ys) = digits_val (digits_val acc xs) ys"
  by (induction xs arbitrary: acc) simp_all

lemma digits_val_decimal: "digits_val 0 (decimal n) = n"
proof (induction n rule: decimal.induct)
  case (1 n)
  then show ?case
    by (cases "n < 10") (simp_all add: decimal.simps [of n] digits_val_append digit_char)
qed

lemma length_decimal: "n < 10 ^ Suc k \<Longrightarrow> length (decimal n) \<le> Suc k"
proof (induction k arbitrary: n)
  case 0
  then show ?case by (simp add: decimal.simps [of n])
next
  case (Suc k)
  then have "n div 10 < 10 ^ Suc k" by (simp add: div_less_iff_less_mult mult.commute)
  then have "length (decimal (n div 10)) \<le> Suc k" by (rule Suc.IH)
  then show ?case by (simp add: decimal.simps [of n])
qed

lemma decimal_length_lower: "10 ^ k \<le> n \<Longrightarrow> k < length (decimal n)"
proof (induction k arbitrary: n)
  case 0
  then show ?case using decimal_nonempty [of n] by simp
next
  case (Suc k)
  then have "10 ^ k \<le> n div 10" by (simp add: less_eq_div_iff_mult_less_eq mult.commute)
  then have "k < length (decimal (n div 10))" by (rule Suc.IH)
  moreover have "10 \<le> n" using Suc.prems by (simp add: order_trans [rotated])
  ultimately show ?case by (simp add: decimal.simps [of n])
qed

section \<open>Step relations\<close>

text \<open>
  The processes of the program are step relations, and a reachable state is one that a finite number of
  steps leads to. What is proved once for all of them: an invariant of the steps holds in every
  reachable state, and if every step decreases a number, it bounds the length of all runs.
\<close>

lemmas reach_refl = rtranclp.rtrancl_refl
lemmas reach_step = rtranclp.rtrancl_into_rtrancl
lemmas reach_induct [consumes 1, case_names start more] = rtranclp_induct

lemma reach_one: "step s t \<Longrightarrow> step\<^sup>*\<^sup>* s t"
  by (rule r_into_rtranclp)

lemma reach_more: "step\<^sup>*\<^sup>* t u \<Longrightarrow> step\<^sup>*\<^sup>* s t \<Longrightarrow> step\<^sup>*\<^sup>* s u"
  by (rule rtranclp_trans)

locale step_system =
  fixes step :: "'s \<Rightarrow> 's \<Rightarrow> bool"
    and inv :: "'s \<Rightarrow> bool"
  assumes step_inv: "step s t \<Longrightarrow> inv s \<Longrightarrow> inv t"
begin

lemma reach_inv: "step\<^sup>*\<^sup>* s t \<Longrightarrow> inv s \<Longrightarrow> inv t"
  by (induction rule: rtranclp_induct) (auto intro: step_inv)

lemma steps_inv: "(step ^^ n) s t \<Longrightarrow> inv s \<Longrightarrow> inv t"
  by (metis reach_inv rtranclp_power)

text \<open>What every step adds to a relation between a state and its successors.\<close>

lemma reach_rel:
  assumes "step\<^sup>*\<^sup>* s t" and "inv s" and "\<And>s. R s s" and "\<And>s t u. R s t \<Longrightarrow> inv t \<Longrightarrow> step t u \<Longrightarrow> R s u"
  shows "R s t"
  using assms(1)
proof (induction rule: rtranclp_induct)
  case (step t u)
  then show ?case using assms(4) reach_inv assms(2) by blast
qed (rule assms(3))

end

locale bounded_system = step_system +
  fixes bound :: "'s \<Rightarrow> nat"
  assumes step_bound: "step s t \<Longrightarrow> inv s \<Longrightarrow> bound t < bound s"
begin

lemma steps_bound: "(step ^^ n) s t \<Longrightarrow> inv s \<Longrightarrow> n + bound t \<le> bound s"
proof (induction n arbitrary: t)
  case (Suc n)
  then obtain u where u: "(step ^^ n) s u" "step u t" by auto
  with Suc.IH [OF u(1) Suc.prems(2)] step_bound [OF u(2) steps_inv [OF u(1) Suc.prems(2)]] show ?case by simp
qed simp

end

section \<open>Lists\<close>

lemma nth_append_last [simp]: "(xs @ [x]) ! length xs = x"
  by simp

lemma last_in_filter: "filter P xs \<noteq> [] \<Longrightarrow> last (filter P xs) \<in> {x \<in> set xs. P x}"
  by (metis last_in_set set_filter)

lemma upt_filter_take:
  "n \<le> length xs \<Longrightarrow> filter (\<lambda>i. P (take n xs ! i)) [0..<n] = filter (\<lambda>i. P (xs ! i)) [0..<n]"
  by (rule filter_cong) auto

lemma distinct_concat_map:
  assumes "distinct xs" and "\<And>x. x \<in> set xs \<Longrightarrow> distinct (f x)"
    and "\<And>x y. x \<in> set xs \<Longrightarrow> y \<in> set xs \<Longrightarrow> x \<noteq> y \<Longrightarrow> set (f x) \<inter> set (f y) = {}"
  shows "distinct (concat (map f xs))"
  using assms by (induction xs) (fastforce)+

end
