(* ===== verification/Json.thy ===== *)
theory Json
  imports Prelude
begin

text \<open>
  JSON values and the part of \<open>yyjson\<close> (\<open>deps/yyjson\<close>, a git submodule that is not part of the
  tree) that the code calls.

  A JSON document is a datatype. The accessors, the parser and the serialiser are library code:
  they are the fields of a record \<open>json_api\<close>, a parameter of every definition that uses them.
  \<open>None\<close> is the \<open>NULL\<close> value, which the accessors take and return. The laws that documents
  of \<open>yyjson\<close> promise and the code relies on are \<open>json_api_ok\<close>.
\<close>

datatype json =
    JNull
  | JBool bool
  | JInt int
  | JStr string
  | JArr "json list"
  | JObj "(string \<times> json) list"

record json_api =
  yy_obj_get :: "json option \<Rightarrow> string \<Rightarrow> json option"
  yy_get_str :: "json option \<Rightarrow> string option"
  yy_get_int :: "json option \<Rightarrow> int"
  yy_arr_first :: "json option \<Rightarrow> json option"
  yy_arr_last :: "json option \<Rightarrow> json option"
  yy_arr_size :: "json option \<Rightarrow> nat"
  yy_read :: "string \<Rightarrow> json option"
  yy_write :: "json \<Rightarrow> string option"

text \<open>A string read through a \<open>const char*\<close>: it ends at the first NUL.\<close>

definition yy_get_cstr :: "json_api \<Rightarrow> json option \<Rightarrow> string option" where
  "yy_get_cstr yy j = map_option cstr (yy_get_str yy j)"

text \<open>\<open>yyjson_mut_obj_add\<close>: nothing is added for a \<open>NULL\<close> value.\<close>

definition obj_add :: "(string \<times> json) list \<Rightarrow> string \<Rightarrow> json option \<Rightarrow> (string \<times> json) list" where
  "obj_add ms k v = (case v of None \<Rightarrow> ms | Some j \<Rightarrow> ms @ [(k, j)])"

text \<open>What the code relies on: the accessors read what the value holds, a written document reads
  back as itself, and a written document is not empty.\<close>

definition json_api_ok :: "json_api \<Rightarrow> bool" where
  "json_api_ok yy \<longleftrightarrow>
     (\<forall>k. yy_obj_get yy None k = None) \<and>
     (\<forall>ms k. yy_obj_get yy (Some (JObj ms)) k = map_of ms k) \<and>
     yy_get_str yy None = None \<and>
     (\<forall>s. yy_get_str yy (Some (JStr s)) = Some s) \<and>
     (\<forall>n. - (2 ^ 31) \<le> n \<and> n < 2 ^ 31 \<longrightarrow> yy_get_int yy (Some (JInt n)) = n) \<and>
     (\<forall>xs. xs \<noteq> [] \<longrightarrow> yy_arr_last yy (Some (JArr xs)) = Some (last xs)) \<and>
     (\<forall>xs. xs \<noteq> [] \<longrightarrow> yy_arr_first yy (Some (JArr xs)) = Some (hd xs)) \<and>
     (\<forall>xs. yy_arr_size yy (Some (JArr xs)) = length xs) \<and>
     (\<forall>j s. yy_write yy j = Some s \<longrightarrow> s \<noteq> [] \<and> yy_read yy s = Some j)"

section \<open>A library that satisfies the laws\<close>

text \<open>
  Used by witnesses only: the accessors on every value, and a parser and a serialiser that know
  the documents of a given corpus (a list of documents with their texts) and no other.
\<close>

fun ref_obj_get :: "json option \<Rightarrow> string \<Rightarrow> json option" where
  "ref_obj_get (Some (JObj ms)) k = map_of ms k"
| "ref_obj_get _ k = None"

fun ref_get_str :: "json option \<Rightarrow> string option" where
  "ref_get_str (Some (JStr s)) = Some s"
| "ref_get_str _ = None"

fun ref_get_int :: "json option \<Rightarrow> int" where
  "ref_get_int (Some (JInt n)) = n"
| "ref_get_int _ = 0"

fun ref_arr :: "json option \<Rightarrow> json list" where
  "ref_arr (Some (JArr xs)) = xs"
| "ref_arr _ = []"

definition ref_json :: "(json \<times> string) list \<Rightarrow> json_api" where
  "ref_json corpus = \<lparr>
     yy_obj_get = ref_obj_get,
     yy_get_str = ref_get_str,
     yy_get_int = ref_get_int,
     yy_arr_first = (\<lambda>j. case ref_arr j of [] \<Rightarrow> None | x # _ \<Rightarrow> Some x),
     yy_arr_last = (\<lambda>j. case ref_arr j of [] \<Rightarrow> None | x # xs \<Rightarrow> Some (last (x # xs))),
     yy_arr_size = (\<lambda>j. length (ref_arr j)),
     yy_read = map_of (map (\<lambda>(d, t). (t, d)) corpus),
     yy_write = map_of corpus\<rparr>"

lemma ref_json_simps [simp]:
  "yy_obj_get (ref_json c) = ref_obj_get"
  "yy_get_str (ref_json c) = ref_get_str"
  "yy_get_int (ref_json c) = ref_get_int"
  "yy_arr_first (ref_json c) j = (case ref_arr j of [] \<Rightarrow> None | x # _ \<Rightarrow> Some x)"
  "yy_arr_last (ref_json c) j = (case ref_arr j of [] \<Rightarrow> None | x # xs \<Rightarrow> Some (last (x # xs)))"
  "yy_arr_size (ref_json c) j = length (ref_arr j)"
  "yy_read (ref_json c) s = map_of (map (\<lambda>(d, t). (t, d)) c) s"
  "yy_write (ref_json c) d = map_of c d"
  by (simp_all add: ref_json_def)

lemma ref_json_ok:
  assumes "distinct (map snd c)" and "[] \<notin> set (map snd c)"
  shows "json_api_ok (ref_json c)"
proof -
  have "s \<noteq> [] \<and> map_of (map (\<lambda>(d, t). (t, d)) c) s = Some j" if "map_of c j = Some s" for j s
  proof -
    from that have "(j, s) \<in> set c" by (rule map_of_SomeD)
    then have "(s, j) \<in> set (map (\<lambda>(d, t). (t, d)) c)" "s \<in> set (map snd c)"
      by force+
    moreover have "map fst (map (\<lambda>(d, t). (t, d)) c) = map snd c"
      by (simp add: case_prod_unfold comp_def)
    ultimately show ?thesis
      using assms by (metis map_of_eq_Some_iff)
  qed
  then show ?thesis
    by (auto simp: json_api_ok_def neq_Nil_conv)
qed

end
