(* ===== verification/Common.thy ===== *)
theory Common
  imports Json
begin

text \<open>
  \<open>src/src/common.h\<close>, \<open>src/src/common.c\<close> and the position types of \<open>src/src/lsp.h\<close>: positions,
  ranges and locations with their JSON form, label scopes, the splitting of a file into lines.
\<close>

section \<open>Positions, ranges, locations (\<open>lsp.h\<close>)\<close>

record lsp_position =
  p_line :: int
  p_character :: int

record lsp_range =
  r_start :: lsp_position
  r_end :: lsp_position

record lsp_location =
  l_uri :: "string option"
  l_range :: lsp_range

definition bio_lsp_cmp_pos :: "lsp_position \<Rightarrow> lsp_position \<Rightarrow> int" where
  "bio_lsp_cmp_pos lhs rhs =
     (if p_line lhs = p_line rhs then p_character lhs - p_character rhs
      else p_line lhs - p_line rhs)"

definition buxn_ls_serialize_lsp_position :: "lsp_position \<Rightarrow> (string \<times> json) list" where
  "buxn_ls_serialize_lsp_position pos =
     [(''line'', JInt (p_line pos)), (''character'', JInt (p_character pos))]"

definition buxn_ls_serialize_lsp_range :: "lsp_range \<Rightarrow> (string \<times> json) list" where
  "buxn_ls_serialize_lsp_range rng =
     [(''start'', JObj (buxn_ls_serialize_lsp_position (r_start rng))),
      (''end'', JObj (buxn_ls_serialize_lsp_position (r_end rng)))]"

text \<open>Reading them back, as a client of the protocol does.\<close>

fun read_position :: "json option \<Rightarrow> lsp_position option" where
  "read_position (Some (JObj ms)) =
     (case (map_of ms ''line'', map_of ms ''character'') of
        (Some (JInt l), Some (JInt c)) \<Rightarrow> Some \<lparr>p_line = l, p_character = c\<rparr>
      | _ \<Rightarrow> None)"
| "read_position _ = None"

fun read_range :: "json option \<Rightarrow> lsp_range option" where
  "read_range (Some (JObj ms)) =
     (case (read_position (map_of ms ''start''), read_position (map_of ms ''end'')) of
        (Some s, Some e) \<Rightarrow> Some \<lparr>r_start = s, r_end = e\<rparr>
      | _ \<Rightarrow> None)"
| "read_range _ = None"

lemma read_serialized_position [simp]:
  "read_position (Some (JObj (buxn_ls_serialize_lsp_position p))) = Some p"
  by (simp add: buxn_ls_serialize_lsp_position_def)

lemma read_serialized_range [simp]:
  "read_range (Some (JObj (buxn_ls_serialize_lsp_range r))) = Some r"
  by (simp add: buxn_ls_serialize_lsp_range_def del: read_position.simps)

text \<open>Positions are ordered by line and character; the sign of \<open>bio_lsp_cmp_pos\<close> is that order. (The type
  of a record has a parameter for its extensions, which is compared last.)\<close>

instantiation lsp_position_ext :: (linorder) linorder
begin

definition less_lsp_position_ext :: "'a lsp_position_scheme \<Rightarrow> 'a lsp_position_scheme \<Rightarrow> bool" where
  "p < q \<longleftrightarrow> p_line p < p_line q \<or> p_line p = p_line q \<and>
     (p_character p < p_character q \<or> p_character p = p_character q \<and> lsp_position.more p < lsp_position.more q)"

definition less_eq_lsp_position_ext :: "'a lsp_position_scheme \<Rightarrow> 'a lsp_position_scheme \<Rightarrow> bool" where
  "(p :: 'a lsp_position_scheme) \<le> q \<longleftrightarrow> p < q \<or> p = q"

instance
proof
  fix p q r :: "'a lsp_position_scheme"
  show "(p < q) = (p \<le> q \<and> \<not> q \<le> p)" "p \<le> p"
    by (auto simp: less_lsp_position_ext_def less_eq_lsp_position_ext_def)
  show "p \<le> q \<Longrightarrow> q \<le> r \<Longrightarrow> p \<le> r" "p \<le> q \<Longrightarrow> q \<le> p \<Longrightarrow> p = q"
    by (auto simp: less_lsp_position_ext_def less_eq_lsp_position_ext_def)
  have "p = q" if "p_line p = p_line q" "p_character p = p_character q" "lsp_position.more p = lsp_position.more q"
    using that by (rule lsp_position.equality)
  then show "p \<le> q \<or> q \<le> p"
    by (auto simp: less_lsp_position_ext_def less_eq_lsp_position_ext_def not_less_iff_gr_or_eq)
qed

end

lemma cmp_pos_sign:
  "bio_lsp_cmp_pos p q < 0 \<longleftrightarrow> p < q"
  "bio_lsp_cmp_pos p q = 0 \<longleftrightarrow> p = q"
  "0 < bio_lsp_cmp_pos p q \<longleftrightarrow> q < p"
  by (auto simp: bio_lsp_cmp_pos_def less_lsp_position_ext_def)

section \<open>Labels\<close>

definition buxn_ls_label_scope :: "string \<Rightarrow> string" where
  "buxn_ls_label_scope name = takeWhile (\<lambda>c. c \<noteq> CHR ''/'') name"

definition buxn_ls_cstr_eq :: "string \<Rightarrow> string \<Rightarrow> bool" where
  "buxn_ls_cstr_eq lhs rhs \<longleftrightarrow> length lhs = length rhs \<and> take (length lhs) lhs = take (length lhs) rhs"

lemma cstr_eq_iff [simp]: "buxn_ls_cstr_eq lhs rhs \<longleftrightarrow> lhs = rhs"
  by (auto simp: buxn_ls_cstr_eq_def)

lemma label_scope_idem [simp]: "buxn_ls_label_scope (buxn_ls_label_scope n) = buxn_ls_label_scope n"
  by (auto simp: buxn_ls_label_scope_def takeWhile_eq_all_conv dest: set_takeWhileD)

lemma label_scope_split:
  "CHR ''/'' \<notin> set a \<Longrightarrow> buxn_ls_label_scope (a @ CHR ''/'' # b) = a"
  by (auto simp: buxn_ls_label_scope_def takeWhile_append takeWhile_eq_all_conv)

lemma label_scope_root: "CHR ''/'' \<notin> set a \<Longrightarrow> buxn_ls_label_scope a = a"
  by (auto simp: buxn_ls_label_scope_def takeWhile_eq_all_conv)

lemma label_scope_prefix: "\<exists>r. n = buxn_ls_label_scope n @ r"
  by (metis buxn_ls_label_scope_def takeWhile_dropWhile_id)

section \<open>Splitting a file into lines (\<open>buxn_ls_split_file\<close>)\<close>

text \<open>
  A line is a pointer into the file and a \<open>size_t\<close>: its offset and its length. The loop is
  written over the rest of the file, \<open>i\<close> being \<open>char_index\<close> and \<open>start\<close> \<open>start_index\<close> (and
  the offset of \<open>line.chars\<close>, which the code moves together).
\<close>

type_synonym line_ref = "nat \<times> nat"

fun split_loop :: "nat \<Rightarrow> nat \<Rightarrow> string \<Rightarrow> line_ref list" where
  "split_loop i start [] = (if start < i then [(start, size_sub i start)] else [])"
| "split_loop i start (ch # rest) =
     (if ch = LF then (start, size_sub i start) # split_loop (Suc i) (i + 1) rest
      else if ch = CR then
        (if rest \<noteq> [] \<and> hd rest = LF
         then (start, size_sub i start) # split_loop (Suc i) (i + 2) rest
         else (start, size_sub i start) # split_loop (Suc i) (i + 1) rest)
      else split_loop (Suc i) start rest)"

definition buxn_ls_split_file :: "string \<Rightarrow> line_ref list" where
  "buxn_ls_split_file content = split_loop 0 0 content"

text \<open>What the length of a line says its bytes are, where that is inside the file.\<close>

definition line_bytes :: "string \<Rightarrow> line_ref \<Rightarrow> string" where
  "line_bytes content l = take (snd l) (drop (fst l) content)"

text \<open>The specification: lines end at LF or CR, a last line without terminator counts if it is not
  empty.\<close>

fun lines_of :: "string \<Rightarrow> string \<Rightarrow> string list" where
  "lines_of cur [] = (if cur = [] then [] else [cur])"
| "lines_of cur (ch # rest) =
     (if ch = LF \<or> ch = CR then cur # lines_of [] rest else lines_of (cur @ [ch]) rest)"

fun no_crlf :: "string \<Rightarrow> bool" where
  "no_crlf (a # b # r) = (\<not> (a = CR \<and> b = LF) \<and> no_crlf (b # r))"
| "no_crlf _ = True"

fun count_breaks :: "string \<Rightarrow> nat" where
  "count_breaks [] = 0"
| "count_breaks (c # r) = (if c = LF \<or> c = CR then Suc (count_breaks r) else count_breaks r)"

lemma no_crlf_Cons: "no_crlf (a # r) \<Longrightarrow> no_crlf r \<and> (a = CR \<longrightarrow> \<not> (r \<noteq> [] \<and> hd r = LF))"
  by (cases r) auto

lemma split_loop_lines:
  assumes "no_crlf rest" and "start \<le> i"
    and "drop start content = cur @ rest" and "length cur = i - start" and "length content = i + length rest"
  shows "map (line_bytes content) (split_loop i start rest) = lines_of cur rest"
  using assms
proof (induction i start rest arbitrary: cur rule: split_loop.induct)
  case (1 i start)
  then show ?case by (auto simp: line_bytes_def)
next
  case (2 i start ch rest)
  note nc = no_crlf_Cons [OF 2(5)]
  from 2 have d: "drop (Suc i) content = rest"
    by (metis Suc_eq_plus1 add.commute append_eq_conv_conj drop_drop drop_Suc_Cons drop0 le_add_diff_inverse plus_1_eq_Suc)
  have lb: "line_bytes content (start, size_sub i start) = cur"
    using 2(6-8) by (simp add: line_bytes_def)
  show ?case
  proof (cases "ch = LF \<or> ch = CR")
    case True
    have "map (line_bytes content) (split_loop (Suc i) (i + 1) rest) = lines_of [] rest"
      using True nc d 2(9) 2(1) [of "[]"] 2(3) [of "[]"] by (auto simp: LF_def CR_def)
    with True nc lb show ?thesis by (auto simp: LF_def CR_def)
  next
    case False
    have "map (line_bytes content) (split_loop (Suc i) start rest) = lines_of (cur @ [ch]) rest"
      using False nc 2(4) [of "cur @ [ch]"] 2(6-9) by auto
    with False show ?thesis by auto
  qed
qed

text \<open>Every CR and every LF closes an entry, also the LF of a CRLF.\<close>

lemma split_loop_length:
  assumes "start \<le> i \<or> (start = Suc i \<and> rest \<noteq> [] \<and> hd rest = LF)"
  shows "length (split_loop i start rest) =
     count_breaks rest + (if (if rest = [] then start < i
        else last rest \<noteq> LF \<and> last rest \<noteq> CR) then 1 else 0)"
  using assms
proof (induction i start rest rule: split_loop.induct)
  case (2 i start ch rest)
  consider "ch = LF" | "ch = CR" "rest \<noteq> [] \<and> hd rest = LF"
    | "ch = CR" "\<not> (rest \<noteq> [] \<and> hd rest = LF)" | "ch \<noteq> LF" "ch \<noteq> CR" by blast
  then show ?case
  proof cases
    case 1
    then show ?thesis using 2(1) by simp
  next
    case 2
    then show ?thesis using "2.IH"(2) by simp
  next
    case 3
    then show ?thesis using "2.IH"(3) by (auto split: if_splits)
  next
    case 4
    then show ?thesis using "2.IH"(4) "2.prems" by auto
  qed
qed simp

text \<open>The entry that the LF of a CRLF closes: it is one byte shorter than empty.\<close>

lemma split_loop_crlf:
  assumes "start \<le> i" and "LF \<notin> set line" and "CR \<notin> set line"
  shows "split_loop i start (line @ CR # LF # rest) =
    (start, i + length line - start) # (i + length line + 2, 2 ^ 64 - 1) #
    split_loop (i + length line + 2) (i + length line + 2) rest"
  using assms by (induction line arbitrary: i) (auto simp: size_sub_def)

section \<open>Properties\<close>

text \<open>C22: On a file without CRLF the splitter returns exactly the lines of the specification, each
  as a slice of the file.\<close>

theorem split_file_lines:
  assumes "no_crlf content"
  shows "map (line_bytes content) (buxn_ls_split_file content) = lines_of [] content"
  unfolding buxn_ls_split_file_def
  by (rule split_loop_lines) (use assms in auto)

theorem split_file_lines_witness:
  "map (line_bytes ''|0100 @a\<newline>BRK\<newline>'') (buxn_ls_split_file ''|0100 @a\<newline>BRK\<newline>'') = [''|0100 @a'', ''BRK'']"
  by (subst split_file_lines) (simp_all add: LF_def CR_def)

text \<open>The splitter counts every CR and every LF as the end of a line, so a CRLF ends two lines: the
  number of entries is the number of CR and LF bytes, plus one for a last line without terminator.\<close>

theorem split_file_count:
  "length (buxn_ls_split_file content) =
     count_breaks content + (if content \<noteq> [] \<and> last content \<noteq> LF \<and> last content \<noteq> CR then 1 else 0)"
  by (simp add: buxn_ls_split_file_def split_loop_length)

text \<open>A first line that ends in CRLF is followed by an entry for its LF whose length is the
  largest \<open>size_t\<close> and whose pointer is that of the line after it: \<open>char_index - start_index\<close>
  wraps, because \<open>start_index\<close> was set past the LF and \<open>char_index\<close> was not.\<close>

theorem split_file_crlf:
  assumes "LF \<notin> set line" and "CR \<notin> set line"
  shows "buxn_ls_split_file (line @ CR # LF # rest) =
    (0, length line) # (length line + 2, 2 ^ 64 - 1) #
    split_loop (length line + 2) (length line + 2) rest"
  using split_loop_crlf [of 0 0 line rest] assms by (simp add: buxn_ls_split_file_def)

theorem split_file_crlf_witness:
  "buxn_ls_split_file (''BRK'' @ CR # LF # ''ADD'') =
     [(0, 3), (5, 18446744073709551615), (5, 3)]"
  by (subst split_file_crlf) (simp_all add: LF_def CR_def)

end
