(* ===== verification/Lsp.thy ===== *)
theory Lsp
  imports Common
begin

text \<open>
  The transport of the language server protocol (\<open>src/src/lsp.c\<close>): reading the header of a message,
  parsing its body, sending a message, and the conversions between byte offsets and UTF-16 offsets.

  The input is the list of the bytes that the peer has sent; where it ends, a read fails. The
  output is the list of the bytes written and a script of the failures of the writes to come.
  \<open>utf8proc_iterate\<close> (\<open>deps/utf8proc\<close>, not part of the tree) is a parameter.
\<close>

section \<open>Reading a header\<close>

datatype bio_lsp_error =
    BIO_LSP_BAD_HEADER
  | BIO_LSP_BAD_JSON
  | BIO_LSP_BAD_JSONRPC
  | BIO_LSP_CONNECTION_CLOSED
  | Bio_io_error  \<comment> \<open>set by \<open>bio\<close> when a read fails\<close>

definition bio_lsp_format_error :: "bio_lsp_error \<Rightarrow> string" where
  "bio_lsp_format_error e =
     (case e of
        BIO_LSP_BAD_HEADER \<Rightarrow> ''Bad header''
      | BIO_LSP_BAD_JSON \<Rightarrow> ''Bad JSON''
      | BIO_LSP_BAD_JSONRPC \<Rightarrow> ''Bad JSON-RPC message''
      | BIO_LSP_CONNECTION_CLOSED \<Rightarrow> ''Connection closed''
      | Bio_io_error \<Rightarrow> ''Unknown error'')"

definition bio_lsp_get_char :: "string \<Rightarrow> bio_lsp_error + char \<times> string" where
  "bio_lsp_get_char in_buf = (case in_buf of [] \<Rightarrow> Inl Bio_io_error | c # r \<Rightarrow> Inr (c, r))"

text \<open>\<open>buf\<close> is what lies before \<open>current\<close> in the line buffer of \<open>buf_size\<close> bytes.\<close>

fun recv_line_loop :: "nat \<Rightarrow> string \<Rightarrow> string \<Rightarrow> bio_lsp_error + string \<times> string" where
  "recv_line_loop buf_size buf [] =
     (if length buf \<ge> buf_size then Inl BIO_LSP_BAD_HEADER else Inl Bio_io_error)"
| "recv_line_loop buf_size buf (c # in_buf) =
     (if length buf \<ge> buf_size then Inl BIO_LSP_BAD_HEADER
      else if c = CR then
        (if Suc (length buf) \<ge> buf_size then Inl BIO_LSP_BAD_HEADER
         else case bio_lsp_get_char in_buf of
            Inl e \<Rightarrow> Inl e
          | Inr (d, in_buf') \<Rightarrow>
              if d \<noteq> LF then Inl BIO_LSP_BAD_HEADER else Inr (buf, in_buf'))
      else recv_line_loop buf_size (buf @ [c]) in_buf)"

text \<open>The line is read back as a C string, so it ends at its first NUL.\<close>

definition bio_lsp_recv_line :: "nat \<Rightarrow> string \<Rightarrow> bio_lsp_error + string \<times> string" where
  "bio_lsp_recv_line buf_size in_buf =
     (case recv_line_loop buf_size [] in_buf of
        Inl e \<Rightarrow> Inl e
      | Inr (buf, in_buf') \<Rightarrow> Inr (cstr (buf @ [NUL]), in_buf'))"

lemma recv_line_loop_shorter:
  "recv_line_loop n buf s = Inr (l, r) \<Longrightarrow> length r < length s"
  by (induction n buf s rule: recv_line_loop.induct)
    (auto simp: bio_lsp_get_char_def split: if_splits list.splits)

lemma recv_line_shorter:
  "bio_lsp_recv_line n s = Inr (l, r) \<Longrightarrow> length r < length s"
  by (auto simp: bio_lsp_recv_line_def split: sum.splits dest: recv_line_loop_shorter)

text \<open>\<open>strtoull(s, &endptr, 10)\<close>: the value, whether \<open>errno\<close> is \<open>ERANGE\<close>, and the text at
  \<open>endptr\<close>. A sign is accepted, and a minus negates in 64 bits.\<close>

definition is_space :: "char \<Rightarrow> bool" where
  "is_space c \<longleftrightarrow> c \<in> {CHR '' '', CHR 0x09, CHR 0x0A, CHR 0x0B, CHR 0x0C, CHR 0x0D}"

definition strtoull :: "string \<Rightarrow> nat \<times> bool \<times> string" where
  "strtoull s =
     (let t = dropWhile is_space s;
          neg = (t \<noteq> [] \<and> hd t = CHR ''-'');
          u = (if t \<noteq> [] \<and> (hd t = CHR ''-'' \<or> hd t = CHR ''+'') then tl t else t);
          ds = takeWhile is_digit u;
          v = digits_val 0 ds
      in if ds = [] then (0, False, s)
         else if v \<ge> 2 ^ 64 then (2 ^ 64 - 1, True, dropWhile is_digit u)
         else (if neg then size_sub 0 v mod 2 ^ 64 else v, False, dropWhile is_digit u))"

definition content_length_key :: string where
  "content_length_key = ''Content-Length: ''"

function recv_header_loop :: "nat \<Rightarrow> string \<Rightarrow> bio_lsp_error + nat \<times> string" where
  "recv_header_loop content_length in_buf =
     (case bio_lsp_recv_line 1024 in_buf of
        Inl e \<Rightarrow> Inl e
      | Inr (line, in_buf') \<Rightarrow>
          if line = [] then
            (if content_length = 0 then Inl BIO_LSP_BAD_HEADER else Inr (content_length, in_buf'))
          else if strncmp_eq line content_length_key (length content_length_key) then
            (case strtoull (drop (length content_length_key) line) of
               (val, erange, endptr) \<Rightarrow>
                 if erange \<or> val > 2 ^ 64 - 1 then Inl BIO_LSP_BAD_HEADER
                 else if endptr \<noteq> [] then Inl BIO_LSP_BAD_HEADER
                 else recv_header_loop val in_buf')
          else recv_header_loop content_length in_buf')"
  by pat_completeness auto
termination
  by (relation "measure (\<lambda>(c, s). length s)") (auto dest: recv_line_shorter)

declare recv_header_loop.simps [simp del]

definition bio_lsp_recv_msg_header :: "string \<Rightarrow> bio_lsp_error + nat \<times> string" where
  "bio_lsp_recv_msg_header in_buf = recv_header_loop 0 in_buf"

section \<open>Parsing a body\<close>

datatype bio_lsp_msg_type =
    BIO_LSP_MSG_REQUEST
  | BIO_LSP_MSG_RESULT
  | BIO_LSP_MSG_ERROR
  | BIO_LSP_MSG_NOTIFICATION

record bio_lsp_in_msg =
  in_type :: bio_lsp_msg_type
  in_id :: "json option"
  in_method :: "string option"
  in_value :: "json option"

text \<open>The message record is reused from one message to the next: fields that a branch does not
  write keep their old value.\<close>

definition bio_lsp_parse_msg ::
    "json_api \<Rightarrow> string \<Rightarrow> bio_lsp_in_msg \<Rightarrow> bio_lsp_error + bio_lsp_in_msg" where
  "bio_lsp_parse_msg yy buf msg =
     (case yy_read yy buf of
        None \<Rightarrow> Inl BIO_LSP_BAD_JSON
      | Some root \<Rightarrow>
          (case yy_get_cstr yy (yy_obj_get yy (Some root) ''method'') of
             None \<Rightarrow>
               (case yy_obj_get yy (Some root) ''result'' of
                  Some v \<Rightarrow>
                    Inr (msg\<lparr>in_method := None, in_type := BIO_LSP_MSG_RESULT, in_value := Some v\<rparr>)
                | None \<Rightarrow>
                    (case yy_obj_get yy (Some root) ''error'' of
                       None \<Rightarrow> Inl BIO_LSP_BAD_JSONRPC
                     | Some v \<Rightarrow>
                         Inr (msg\<lparr>in_method := None, in_type := BIO_LSP_MSG_ERROR, in_value := Some v\<rparr>)))
           | Some m \<Rightarrow>
               (let i = yy_obj_get yy (Some root) ''id''
                in Inr (msg\<lparr>in_method := Some m, in_id := i,
                            in_value := yy_obj_get yy (Some root) ''params'',
                            in_type := (if i = None then BIO_LSP_MSG_NOTIFICATION
                                        else BIO_LSP_MSG_REQUEST)\<rparr>))))"

section \<open>Sending a message\<close>

text \<open>A script entry \<open>None\<close> is a call that succeeds, \<open>Some n\<close> one that fails after \<open>n\<close> bytes.\<close>

record out_channel =
  o_sent :: string
  o_script :: "nat option list"

record bio_lsp_out_msg =
  out_type :: bio_lsp_msg_type
  out_id :: "json option"
  out_method :: "string option"
  out_value :: "json option"

definition write_exactly :: "out_channel \<Rightarrow> string \<Rightarrow> bool \<times> out_channel" where
  "write_exactly ch bs =
     (case o_script ch of
        [] \<Rightarrow> (True, ch\<lparr>o_sent := o_sent ch @ bs\<rparr>)
      | None # sc \<Rightarrow> (True, ch\<lparr>o_sent := o_sent ch @ bs, o_script := sc\<rparr>)
      | Some n # sc \<Rightarrow> (False, ch\<lparr>o_sent := o_sent ch @ take n bs, o_script := sc\<rparr>))"

definition flush_buffer :: "out_channel \<Rightarrow> bool \<times> out_channel" where
  "flush_buffer ch = write_exactly ch []"

definition out_root :: "bio_lsp_out_msg \<Rightarrow> json" where
  "out_root msg =
     (let root = [(''jsonrpc'', JStr ''2.0'')];
          meth = map_option JStr (out_method msg)
      in JObj (case out_type msg of
           BIO_LSP_MSG_REQUEST \<Rightarrow>
             obj_add (obj_add (obj_add root ''id'' (out_id msg)) ''method'' meth) ''params'' (out_value msg)
         | BIO_LSP_MSG_NOTIFICATION \<Rightarrow>
             obj_add (obj_add root ''method'' meth) ''params'' (out_value msg)
         | BIO_LSP_MSG_RESULT \<Rightarrow>
             obj_add (obj_add root ''id'' (out_id msg)) ''result'' (out_value msg)
         | BIO_LSP_MSG_ERROR \<Rightarrow>
             obj_add (obj_add root ''id'' (out_id msg)) ''error'' (out_value msg)))"

text \<open>
  The header is formatted into \<open>char header[32]\<close> and \<open>header_len\<close> bytes of that buffer are
  written: beyond 31 characters \<open>snprintf\<close> cuts the text and ends it with a NUL.
\<close>

definition header_text :: "nat \<Rightarrow> string" where
  "header_text content_length = content_length_key @ decimal content_length @ [CR, LF, CR, LF]"

definition header_bytes :: "nat \<Rightarrow> string outcome" where
  "header_bytes content_length =
     (let text = header_text content_length; header_len = length text
      in if header_len \<le> 31 then Inr text
         else if header_len = 32 then Inr (take 31 text @ [NUL])
         else Inl Out_of_bounds)"

text \<open>A document that cannot be written has a \<open>NULL\<close> body of length 0.\<close>

definition bio_lsp_send_msg ::
    "json_api \<Rightarrow> bio_lsp_out_msg \<Rightarrow> out_channel \<Rightarrow> (bool \<times> out_channel) outcome" where
  "bio_lsp_send_msg yy msg ch =
     (let body = (case yy_write yy (out_root msg) of None \<Rightarrow> [] | Some b \<Rightarrow> b)
      in obind (header_bytes (length body)) (\<lambda>header.
         case write_exactly ch header of
           (False, ch1) \<Rightarrow> Inr (False, ch1)
         | (True, ch1) \<Rightarrow>
             (case write_exactly ch1 body of
                (False, ch2) \<Rightarrow> Inr (False, ch2)
              | (True, ch2) \<Rightarrow> Inr (flush_buffer ch2))))"

section \<open>UTF-16 offsets\<close>

text \<open>
  \<open>utf8proc_iterate\<close> maps the bytes from a position on to the number of bytes read (negative for
  an invalid sequence) and the code point. The code relies on this: it reads at least one byte and
  none that is not there, and a code point above \<open>0xFFFF\<close> takes four bytes.
\<close>

type_synonym utf8_iterate = "string \<Rightarrow> int \<times> int"

definition utf8_ok :: "utf8_iterate \<Rightarrow> bool" where
  "utf8_ok utf8 \<longleftrightarrow>
     (\<forall>bs. bs \<noteq> [] \<longrightarrow>
        (case utf8 bs of (n, cp) \<Rightarrow>
           n < 0 \<or> (1 \<le> n \<and> n \<le> int (length bs) \<and> (cp > 0xFFFF \<longrightarrow> 4 \<le> n))))"

text \<open>One turn of either loop: the bytes it moves by and the code units it counts.\<close>

definition utf8_turn :: "utf8_iterate \<Rightarrow> string \<Rightarrow> nat \<times> int" where
  "utf8_turn utf8 bs =
     (case utf8 bs of (num_bytes, codepoint) \<Rightarrow>
        if num_bytes < 0 then (1, 0)
        else (nat num_bytes, if codepoint \<le> 0xFFFF then 1 else 2))"

partial_function (option) utf16_loop ::
    "utf8_iterate \<Rightarrow> string \<Rightarrow> int \<Rightarrow> int \<Rightarrow> nat \<Rightarrow> int \<Rightarrow> int option" where
  "utf16_loop utf8 utf8str line_len byte_offset itr code_unit_offset =
     (if int itr \<ge> byte_offset \<or> int itr \<ge> line_len then Some code_unit_offset
      else case utf8_turn utf8 (take (nat line_len - itr) (drop itr utf8str)) of
        (step, units) \<Rightarrow>
          utf16_loop utf8 utf8str line_len byte_offset (itr + step) (code_unit_offset + units))"

definition bio_lsp_utf16_offset_from_byte_offset ::
    "utf8_iterate \<Rightarrow> string \<Rightarrow> nat \<Rightarrow> int \<Rightarrow> int option" where
  "bio_lsp_utf16_offset_from_byte_offset utf8 utf8str str_size byte_offset =
     utf16_loop utf8 utf8str (ssize str_size) byte_offset 0 0"

partial_function (option) byte_loop ::
    "utf8_iterate \<Rightarrow> string \<Rightarrow> int \<Rightarrow> int \<Rightarrow> nat \<Rightarrow> int \<Rightarrow> int option" where
  "byte_loop utf8 utf8str line_len utf16_offset itr code_unit_offset =
     (if code_unit_offset \<ge> utf16_offset \<or> int itr \<ge> line_len then Some (int itr)
      else case utf8_turn utf8 (take (nat line_len - itr) (drop itr utf8str)) of
        (step, units) \<Rightarrow>
          byte_loop utf8 utf8str line_len utf16_offset (itr + step) (code_unit_offset + units))"

definition bio_lsp_byte_offset_from_utf16_offset ::
    "utf8_iterate \<Rightarrow> string \<Rightarrow> nat \<Rightarrow> int \<Rightarrow> int option" where
  "bio_lsp_byte_offset_from_utf16_offset utf8 utf8str str_size utf16_offset =
     byte_loop utf8 utf8str (ssize str_size) utf16_offset 0 0"

section \<open>Facts about headers\<close>

lemma recv_line_loop_crlf:
  assumes "CR \<notin> set l" and "length buf + length l + 1 < n"
  shows "recv_line_loop n buf (l @ CR # LF # r) = Inr (buf @ l, r)"
  using assms
  by (induction l arbitrary: buf) (auto simp: bio_lsp_get_char_def)

lemma recv_line_crlf:
  assumes "CR \<notin> set l" and "length l + 1 < n"
  shows "bio_lsp_recv_line n (l @ CR # LF # r) = Inr (cstr l, r)"
proof -
  have "cstr (l @ [NUL]) = cstr l"
    by (induction l) (auto simp: cstr_def)
  with assms show ?thesis
    by (simp add: bio_lsp_recv_line_def recv_line_loop_crlf)
qed

lemma recv_line_loop_suffix:
  "recv_line_loop n buf s = Inr (l, r) \<Longrightarrow>
     length l < n \<and> (\<exists>m. l = buf @ m \<and> CR \<notin> set m \<and> s = m @ CR # LF # r)"
  by (induction n buf s rule: recv_line_loop.induct)
    (fastforce simp: bio_lsp_get_char_def split: if_splits list.splits intro: exI [of _ "[]"]
      intro: exI [of _ "_ # _"])+

lemma recv_line_suffix:
  assumes "bio_lsp_recv_line n s = Inr (l, r)"
  shows "\<exists>m. length m < n \<and> l = cstr m \<and> s = m @ CR # LF # r"
proof -
  from assms obtain m where "recv_line_loop n [] s = Inr (m, r)" and l: "l = cstr (m @ [NUL])"
    by (auto simp: bio_lsp_recv_line_def split: sum.splits)
  moreover have "cstr (m @ [NUL]) = cstr m"
    by (induction m) (auto simp: cstr_def)
  ultimately show ?thesis
    using recv_line_loop_suffix by fastforce
qed

lemma recv_header_loop_bounds:
  "recv_header_loop c s = Inr (n, r) \<Longrightarrow> c < 2 ^ 64 \<Longrightarrow>
     0 < n \<and> n < 2 ^ 64 \<and> (\<exists>h. s = h @ [CR, LF] @ r)"
proof (induction c s rule: recv_header_loop.induct)
  case (1 c s)
  from "1.prems" obtain line s' where line: "bio_lsp_recv_line 1024 s = Inr (line, s')"
    by (auto simp: recv_header_loop.simps [of c s] split: sum.splits)
  from recv_line_suffix [OF line] obtain m where s: "s = m @ [CR, LF] @ s'"
    by auto
  let ?key = "strncmp_eq line content_length_key (length content_length_key)"
  obtain v er ep where st: "strtoull (drop (length content_length_key) line) = (v, er, ep)"
    by (cases "strtoull (drop (length content_length_key) line)")
  consider "line = []" | "line \<noteq> []" "?key" | "line \<noteq> []" "\<not> ?key" by blast
  then show ?case
  proof cases
    case 1
    with "1.prems"(1) line have "c \<noteq> 0" "n = c" "r = s'"
      by (auto simp: recv_header_loop.simps [of c s] split: if_splits)
    with "1.prems"(2) s show ?thesis by auto
  next
    case 2
    with "1.prems" line st have "recv_header_loop v s' = Inr (n, r)" "v \<le> 2 ^ 64 - 1" "\<not> er" "ep = []"
      by (auto simp: recv_header_loop.simps [of c s] split: if_splits)
    moreover from this have "\<exists>h. s' = h @ [CR, LF] @ r" "0 < n \<and> n < 2 ^ 64"
      using "1.IH"(1) [OF line refl 2 st [symmetric] refl] by auto
    ultimately show ?thesis
      using s by (metis append.assoc)
  next
    case 3
    with "1.prems" line have "recv_header_loop c s' = Inr (n, r)"
      by (auto simp: recv_header_loop.simps [of c s])
    with "1.IH"(2) [OF line refl 3] "1.prems"(2)
    have "\<exists>h. s' = h @ [CR, LF] @ r" "0 < n \<and> n < 2 ^ 64" by auto
    then show ?thesis
      using s by (metis append.assoc)
  qed
qed

lemma is_digit_not_space: "is_digit c \<Longrightarrow> \<not> is_space c \<and> c \<noteq> CHR ''-'' \<and> c \<noteq> CHR ''+'' \<and> c \<noteq> CR \<and> c \<noteq> NUL"
  by (auto simp: is_digit_def is_space_def CR_def NUL_def)

lemma strtoull_digits:
  assumes "\<forall>c \<in> set ds. is_digit c" and "ds \<noteq> []" and "digits_val 0 ds < 2 ^ 64"
  shows "strtoull ds = (digits_val 0 ds, False, [])"
proof -
  from assms(1,2) have "is_digit (hd ds)" by simp
  with assms(2) have "dropWhile is_space ds = ds" "hd ds \<noteq> CHR ''-''" "hd ds \<noteq> CHR ''+''"
    using is_digit_not_space by (cases ds; auto)+
  moreover have tw: "takeWhile is_digit ds = ds"
    using assms(1) by (simp add: takeWhile_eq_all_conv)
  moreover have "dropWhile is_digit ds = []"
    using assms(1) by simp
  ultimately show ?thesis
    using assms(2,3) by (simp add: strtoull_def Let_def tw)
qed

lemma recv_header_text:
  assumes "0 < n" and "n < 10 ^ 11"
  shows "bio_lsp_recv_msg_header (header_text n @ r) = Inr (n, r)"
proof -
  let ?line = "content_length_key @ decimal n"
  have digits: "\<forall>c \<in> set (decimal n). is_digit c" by (rule decimal_digits)
  then have clean: "CR \<notin> set ?line" "NUL \<notin> set ?line"
    using is_digit_not_space by (auto simp: content_length_key_def CR_def NUL_def)
  have "length (decimal n) \<le> 11" using length_decimal [of n 10] assms(2) by simp
  then have line: "bio_lsp_recv_line 1024 (?line @ CR # LF # CR # LF # r) = Inr (?line, CR # LF # r)"
    using clean by (subst recv_line_crlf) (simp_all add: content_length_key_def cstr_id)
  have last: "bio_lsp_recv_line 1024 (CR # LF # r) = Inr ([], r)"
    using recv_line_crlf [of "[]" 1024 r] by (simp add: cstr_def)
  have "strtoull (decimal n) = (n, False, [])"
    using strtoull_digits [OF digits decimal_nonempty] assms(2) by (simp add: digits_val_decimal)
  moreover have "recv_header_loop n (CR # LF # r) = Inr (n, r)"
    using last assms(1) by (simp add: recv_header_loop.simps [of n])
  ultimately show ?thesis
    using line assms(2)
    by (simp add: bio_lsp_recv_msg_header_def header_text_def recv_header_loop.simps [of 0]
        strncmp_eq_def content_length_key_def)
qed

lemma header_bytes_small: "n < 10 ^ 11 \<Longrightarrow> header_bytes n = Inr (header_text n)"
  using length_decimal [of n 10]
  by (simp add: header_bytes_def header_text_def content_length_key_def Let_def)

lemma write_exactly_ok [simp]:
  "o_script ch = [] \<Longrightarrow> write_exactly ch bs = (True, ch\<lparr>o_sent := o_sent ch @ bs\<rparr>)"
  by (simp add: write_exactly_def)

lemma send_ok:
  assumes "o_script ch = []" and "yy_write yy (out_root msg) = Some body" and "length body < 10 ^ 11"
  shows "bio_lsp_send_msg yy msg ch =
    Inr (True, ch\<lparr>o_sent := o_sent ch @ header_text (length body) @ body\<rparr>)"
  using assms by (simp add: bio_lsp_send_msg_def header_bytes_small flush_buffer_def)

section \<open>Facts about UTF-16 offsets\<close>

lemma utf8_turn_ok:
  assumes "utf8_ok utf8" and "bs \<noteq> []" and "utf8_turn utf8 bs = (step, units)"
  shows "1 \<le> step \<and> step \<le> length bs \<and> 0 \<le> units \<and> units \<le> 2 \<and> units \<le> int step"
proof -
  obtain n cp where u: "utf8 bs = (n, cp)" by (cases "utf8 bs")
  with assms(1,2) have "n < 0 \<or> (1 \<le> n \<and> n \<le> int (length bs) \<and> (cp > 0xFFFF \<longrightarrow> 4 \<le> n))"
    by (auto simp: utf8_ok_def)
  with assms(2,3) u show ?thesis
    by (cases bs) (auto simp: utf8_turn_def nat_le_iff split: if_splits)
qed

lemma utf16_loop_returns:
  assumes "utf8_ok utf8" and "n \<le> length s" and "itr \<le> n"
  shows "\<exists>v. utf16_loop utf8 s (int n) b itr u = Some v \<and> u \<le> v \<and> v \<le> u + int (n - itr)"
  using assms(3)
proof (induction "n - itr" arbitrary: itr u rule: less_induct)
  case less
  show ?case
  proof (cases "int itr \<ge> b \<or> int itr \<ge> int n")
    case True
    then show ?thesis by (subst utf16_loop.simps) auto
  next
    case False
    let ?bs = "take (n - itr) (drop itr s)"
    obtain st un where t: "utf8_turn utf8 ?bs = (st, un)" by (cases "utf8_turn utf8 ?bs")
    from False assms(2) have "?bs \<noteq> []" "length ?bs = n - itr" by auto
    with utf8_turn_ok [OF assms(1) _ t] have b: "1 \<le> st" "st \<le> n - itr" "0 \<le> un" "un \<le> int st" by auto
    with False have "n - (itr + st) < n - itr" "itr + st \<le> n" by auto
    from less.hyps [OF this, of "u + un"] obtain v where
      v: "utf16_loop utf8 s (int n) b (itr + st) (u + un) = Some v" "u + un \<le> v"
        "v \<le> u + un + int (n - (itr + st))" by auto
    with False t have "utf16_loop utf8 s (int n) b itr u = Some v"
      by (subst utf16_loop.simps) (simp add: nat_diff_distrib)
    with v b show ?thesis by auto
  qed
qed

lemma byte_loop_roundtrip:
  assumes "utf8_ok utf8" and "n \<le> length s" and "itr \<le> n"
  shows "\<exists>b v. byte_loop utf8 s (int n) U itr u = Some (int b) \<and>
    utf16_loop utf8 s (int n) (int b) itr u = Some v \<and> itr \<le> b \<and> b \<le> n \<and>
    (U \<le> v \<or> b = n) \<and> (u \<le> U \<longrightarrow> v \<le> U + 1)"
  using assms(3)
proof (induction "n - itr" arbitrary: itr u rule: less_induct)
  case less
  show ?case
  proof (cases "u \<ge> U \<or> int itr \<ge> int n")
    case True
    with less.prems show ?thesis
      by (intro exI [of _ itr] exI [of _ u]) (subst byte_loop.simps, subst utf16_loop.simps, auto)
  next
    case False
    let ?bs = "take (n - itr) (drop itr s)"
    obtain st un where t: "utf8_turn utf8 ?bs = (st, un)" by (cases "utf8_turn utf8 ?bs")
    from False assms(2) have "?bs \<noteq> []" "length ?bs = n - itr" by auto
    with utf8_turn_ok [OF assms(1) _ t]
    have b: "1 \<le> st" "st \<le> n - itr" "0 \<le> un" "un \<le> 2" by auto
    with False have "n - (itr + st) < n - itr" "itr + st \<le> n" by auto
    from less.hyps [OF this, of "u + un"] obtain b v where
      v: "byte_loop utf8 s (int n) U (itr + st) (u + un) = Some (int b)"
        "utf16_loop utf8 s (int n) (int b) (itr + st) (u + un) = Some v"
        "itr + st \<le> b" "b \<le> n" "U \<le> v \<or> b = n" "u + un \<le> U \<longrightarrow> v \<le> U + 1"
      by auto
    have byte: "byte_loop utf8 s (int n) U itr u = Some (int b)"
      using False t v(1) by (subst byte_loop.simps) (simp add: nat_diff_distrib)
    have utf: "utf16_loop utf8 s (int n) (int b) itr u = Some v"
      using False t v(2,3) b(1) by (subst utf16_loop.simps) (simp add: nat_diff_distrib)
    have "v \<le> U + 1"
    proof (cases "u + un \<le> U")
      case True with v(6) show ?thesis by simp
    next
      case False
      then have beq: "b = itr + st"
        using v(1) by (simp add: byte_loop.simps [of _ _ _ U "itr + st"])
      from v(2) have "v = u + un"
        unfolding beq by (subst (asm) utf16_loop.simps) simp
      with b(4) \<open>\<not> (U \<le> u \<or> int n \<le> int itr)\<close> show ?thesis by simp
    qed
    with byte utf v(3-5) b(1) show ?thesis by (intro exI [of _ b] exI [of _ v]) auto
  qed
qed

section \<open>A decoder for witnesses\<close>

text \<open>UTF-8 as RFC 3629 defines it: no overlong forms, no surrogates, nothing above U+10FFFF.\<close>

definition is_cont :: "nat \<Rightarrow> bool" where
  "is_cont b \<longleftrightarrow> 0x80 \<le> b \<and> b < 0xC0"

fun ref_utf8_nat :: "nat list \<Rightarrow> int \<times> int" where
  "ref_utf8_nat [] = (0, -1)"
| "ref_utf8_nat (a # r) =
     (if a < 0x80 then (1, int a)
      else if a < 0xC2 then (-3, -1)
      else if a < 0xE0 then
        (case r of b # _ \<Rightarrow>
           if is_cont b then (2, int ((a - 0xC0) * 0x40 + (b - 0x80))) else (-3, -1)
         | _ \<Rightarrow> (-3, -1))
      else if a < 0xF0 then
        (case r of b # c # _ \<Rightarrow>
           if is_cont b \<and> is_cont c \<and> (a = 0xE0 \<longrightarrow> 0xA0 \<le> b) \<and> (a = 0xED \<longrightarrow> b < 0xA0)
           then (3, int ((a - 0xE0) * 0x1000 + (b - 0x80) * 0x40 + (c - 0x80)))
           else (-3, -1)
         | _ \<Rightarrow> (-3, -1))
      else if a < 0xF5 then
        (case r of b # c # d # _ \<Rightarrow>
           if is_cont b \<and> is_cont c \<and> is_cont d \<and> (a = 0xF0 \<longrightarrow> 0x90 \<le> b) \<and> (a = 0xF4 \<longrightarrow> b < 0x90)
           then (4, int ((a - 0xF0) * 0x40000 + (b - 0x80) * 0x1000 + (c - 0x80) * 0x40 + (d - 0x80)))
           else (-3, -1)
         | _ \<Rightarrow> (-3, -1))
      else (-3, -1))"

definition ref_utf8 :: utf8_iterate where
  "ref_utf8 bs = ref_utf8_nat (map of_char bs)"

lemma ref_utf8_nat_ok:
  assumes "bs \<noteq> []" and "ref_utf8_nat bs = (n, cp)"
  shows "n < 0 \<or> (1 \<le> n \<and> n \<le> int (length bs) \<and> (cp > 0xFFFF \<longrightarrow> 4 \<le> n))"
proof -
  obtain a r where bs: "bs = a # r" using assms(1) by (cases bs) auto
  consider "a < 0x80" | "0x80 \<le> a" "a < 0xC2" | "0xC2 \<le> a" "a < 0xE0"
    | "0xE0 \<le> a" "a < 0xF0" | "0xF0 \<le> a" by linarith
  then show ?thesis
  proof cases
    case 3
    with assms(2) bs show ?thesis
      by (auto simp: is_cont_def split: list.splits if_splits)
  next
    case 4
    with assms(2) bs show ?thesis
      by (auto simp: is_cont_def split: list.splits if_splits)
  next
    case 5
    with assms(2) bs show ?thesis
      by (auto simp: is_cont_def split: list.splits if_splits)
  qed (use assms(2) bs in auto)
qed

lemma ref_utf8_ok: "utf8_ok ref_utf8"
proof -
  have "case ref_utf8 bs of (n, cp) \<Rightarrow>
      n < 0 \<or> (1 \<le> n \<and> n \<le> int (length bs) \<and> (cp > 0xFFFF \<longrightarrow> 4 \<le> n))" if "bs \<noteq> []" for bs
    using ref_utf8_nat_ok [of "map of_char bs"] that
    by (auto simp: ref_utf8_def split: prod.split)
  then show ?thesis by (simp add: utf8_ok_def)
qed

section \<open>Properties\<close>

text \<open>The message that the receiver of a sent message holds.\<close>

definition received :: "bio_lsp_out_msg \<Rightarrow> bio_lsp_in_msg \<Rightarrow> bio_lsp_in_msg" where
  "received msg old =
     (case out_type msg of
        BIO_LSP_MSG_REQUEST \<Rightarrow>
          old\<lparr>in_type := BIO_LSP_MSG_REQUEST, in_id := out_id msg, in_method := out_method msg,
              in_value := out_value msg\<rparr>
      | BIO_LSP_MSG_NOTIFICATION \<Rightarrow>
          old\<lparr>in_type := BIO_LSP_MSG_NOTIFICATION, in_id := None, in_method := out_method msg,
              in_value := out_value msg\<rparr>
      | BIO_LSP_MSG_RESULT \<Rightarrow>
          old\<lparr>in_type := BIO_LSP_MSG_RESULT, in_method := None, in_value := out_value msg\<rparr>
      | BIO_LSP_MSG_ERROR \<Rightarrow>
          old\<lparr>in_type := BIO_LSP_MSG_ERROR, in_method := None, in_value := out_value msg\<rparr>)"

text \<open>A message with the fields that its type needs.\<close>

definition complete_msg :: "bio_lsp_out_msg \<Rightarrow> bool" where
  "complete_msg msg \<longleftrightarrow>
     (case out_type msg of
        BIO_LSP_MSG_REQUEST \<Rightarrow>
          out_id msg \<noteq> None \<and> out_method msg \<noteq> None \<and> NUL \<notin> set (the (out_method msg))
      | BIO_LSP_MSG_NOTIFICATION \<Rightarrow> out_method msg \<noteq> None \<and> NUL \<notin> set (the (out_method msg))
      | BIO_LSP_MSG_RESULT \<Rightarrow> out_value msg \<noteq> None
      | BIO_LSP_MSG_ERROR \<Rightarrow> out_value msg \<noteq> None)"

lemma parse_out_root:
  assumes "json_api_ok yy" and "yy_read yy body = Some (out_root msg)" and "complete_msg msg"
  shows "bio_lsp_parse_msg yy body old = Inr (received msg old)"
proof -
  have get: "yy_obj_get yy (Some (JObj ms)) k = map_of ms k"
    "yy_get_str yy (Some (JStr t)) = Some t" "yy_get_str yy None = None" for ms k t
    using assms(1) by (auto simp: json_api_ok_def)
  show ?thesis
  proof (cases "out_type msg")
    case BIO_LSP_MSG_REQUEST
    with assms(2,3) show ?thesis
      by (auto simp: bio_lsp_parse_msg_def out_root_def get received_def complete_msg_def obj_add_def
          yy_get_cstr_def cstr_id Let_def split: option.splits)
  next
    case BIO_LSP_MSG_NOTIFICATION
    with assms(2,3) show ?thesis
      by (auto simp: bio_lsp_parse_msg_def out_root_def get received_def complete_msg_def obj_add_def
          yy_get_cstr_def cstr_id Let_def split: option.splits)
  next
    case BIO_LSP_MSG_RESULT
    with assms(2,3) show ?thesis
      by (auto simp: bio_lsp_parse_msg_def out_root_def get received_def complete_msg_def obj_add_def
          yy_get_cstr_def Let_def split: option.splits)
  next
    case BIO_LSP_MSG_ERROR
    with assms(2,3) show ?thesis
      by (auto simp: bio_lsp_parse_msg_def out_root_def get received_def complete_msg_def obj_add_def
          yy_get_cstr_def Let_def split: option.splits)
  qed
qed

text \<open>C15: What is sent is received: where no write fails, the bytes that \<open>bio_lsp_send_msg\<close> puts on
  the wire, followed by any others, are read by \<open>bio_lsp_recv_msg_header\<close> as the length of the
  body and leave exactly the body and the others, and \<open>bio_lsp_parse_msg\<close> makes of the body a
  message with the type, the method and the value that were sent, and for a request with its id; a
  notification has none. It does not read the id of a result or an error: there \<open>received\<close> has the
  id that the record had before.\<close>

theorem send_recv_roundtrip:
  assumes "json_api_ok yy" and "complete_msg msg"
    and "yy_write yy (out_root msg) = Some body" and "length body < 10 ^ 11"
    and "o_script ch = []"
  shows "\<exists>wire ch'. bio_lsp_send_msg yy msg ch = Inr (True, ch') \<and> o_sent ch' = o_sent ch @ wire \<and>
    bio_lsp_recv_msg_header (wire @ rest) = Inr (length body, body @ rest) \<and>
    bio_lsp_parse_msg yy body old = Inr (received msg old)"
proof -
  from assms(1,3) have body: "body \<noteq> []" "yy_read yy body = Some (out_root msg)"
    by (auto simp: json_api_ok_def)
  let ?wire = "header_text (length body) @ body"
  have "bio_lsp_recv_msg_header (?wire @ rest) = Inr (length body, body @ rest)"
    using recv_header_text [of "length body" "body @ rest"] assms(4) body(1) by simp
  moreover have "bio_lsp_parse_msg yy body old = Inr (received msg old)"
    by (rule parse_out_root [OF assms(1) body(2) assms(2)])
  ultimately show ?thesis
    using send_ok [OF assms(5,3,4)]
    by (intro exI [of _ ?wire] exI [of _ "ch\<lparr>o_sent := o_sent ch @ ?wire\<rparr>"]) simp
qed

definition demo_reply :: bio_lsp_out_msg where
  "demo_reply = \<lparr>out_type = BIO_LSP_MSG_RESULT, out_id = Some (JInt 7), out_method = None,
     out_value = Some JNull\<rparr>"

definition demo_json :: json_api where
  "demo_json = ref_json [(out_root demo_reply, ''{...}'')]"

definition demo_in :: bio_lsp_in_msg where
  "demo_in = \<lparr>in_type = BIO_LSP_MSG_REQUEST, in_id = None, in_method = None, in_value = None\<rparr>"

theorem send_recv_roundtrip_witness:
  "\<exists>wire ch'. bio_lsp_send_msg demo_json demo_reply \<lparr>o_sent = ''ab'', o_script = []\<rparr> = Inr (True, ch') \<and>
    o_sent ch' = ''ab'' @ wire \<and>
    bio_lsp_recv_msg_header (wire @ ''xyz'') = Inr (length ''{...}'', ''{...}xyz'') \<and>
    bio_lsp_parse_msg demo_json ''{...}'' demo_in = Inr (received demo_reply demo_in)"
proof -
  have "json_api_ok demo_json" by (simp add: demo_json_def ref_json_ok)
  moreover have "complete_msg demo_reply" by (simp add: complete_msg_def demo_reply_def)
  ultimately show ?thesis
    using send_recv_roundtrip [of demo_json demo_reply "''{...}''" "\<lparr>o_sent = ''ab'', o_script = []\<rparr>" "''xyz''"]
    by (simp add: demo_json_def)
qed

text \<open>A header that is accepted announces a length between 1 and \<open>2^64 - 1\<close>, and what is left
  of the input starts right after a CRLF.\<close>

theorem recv_header_sound:
  assumes "bio_lsp_recv_msg_header in_buf = Inr (n, rest)"
  shows "0 < n \<and> n < 2 ^ 64 \<and> (\<exists>header. in_buf = header @ [CR, LF] @ rest)"
  using recv_header_loop_bounds [of 0 in_buf n rest] assms by (simp add: bio_lsp_recv_msg_header_def)

theorem recv_header_sound_witness:
  "\<exists>header. header_text 12 @ ''{}'' = header @ [CR, LF] @ ''{}''"
  using recv_header_sound [OF recv_header_text [of 12 "''{}''"]] by simp

text \<open>The header is sent whole for a body of less than \<open>10^11\<close> bytes. With a twelfth digit
  \<open>snprintf\<close> cuts it and the last byte sent is a NUL instead of the line feed; with a thirteenth
  digit \<open>bio_lsp_send_msg\<close> reads past \<open>char header[32]\<close>.\<close>

theorem header_buffer_limit:
  "header_bytes n =
     (if n < 10 ^ 11 then Inr (header_text n)
      else if n < 10 ^ 12 then Inr (butlast (header_text n) @ [NUL])
      else Inl Out_of_bounds)"
proof -
  have len: "length (header_text n) = length (decimal n) + 20"
    by (simp add: header_text_def content_length_key_def)
  consider "n < 10 ^ 11" | "10 ^ 11 \<le> n" "n < 10 ^ 12" | "10 ^ 12 \<le> n" by linarith
  then show ?thesis
  proof cases
    case 1
    then show ?thesis using header_bytes_small by simp
  next
    case 2
    then have "length (decimal n) = 12"
      using length_decimal [of n 11] decimal_length_lower [of 11 n] by simp
    with 2 len show ?thesis
      by (simp add: header_bytes_def butlast_conv_take)
  next
    case 3
    then have "length (decimal n) > 12"
      using decimal_length_lower [of 12 n] by simp
    with 3 len show ?thesis by (simp add: header_bytes_def)
  qed
qed

text \<open>C37: On a line of any bytes, valid UTF-8 or not, both conversions end, whatever offset they are given: the
  UTF-16 offset that a byte offset is converted to is not negative and at most the number of bytes of the
  line, and the byte offset that a UTF-16 offset is converted to lies in the line.\<close>

theorem utf16_offset_bounds:
  assumes "utf8_ok utf8" and "n \<le> length line" and "n < 2 ^ 63"
  shows "(\<exists>v. bio_lsp_utf16_offset_from_byte_offset utf8 line n byte_offset = Some v \<and> 0 \<le> v \<and> v \<le> int n) \<and>
    (\<exists>b. bio_lsp_byte_offset_from_utf16_offset utf8 line n utf16_offset = Some b \<and> 0 \<le> b \<and> b \<le> int n)"
  using utf16_loop_returns [OF assms(1,2), of 0 byte_offset 0] byte_loop_roundtrip [OF assms(1,2), of 0 utf16_offset 0] assms(3)
  by (fastforce simp: bio_lsp_utf16_offset_from_byte_offset_def bio_lsp_byte_offset_from_utf16_offset_def)

theorem utf16_offset_bounds_witness:
  "let line = map char_of [0x40, 0xC3, 0xA9, 0x20 :: nat] in
   (\<exists>v. bio_lsp_utf16_offset_from_byte_offset ref_utf8 line 4 3 = Some v \<and> 0 \<le> v \<and> v \<le> 4) \<and>
   (\<exists>b. bio_lsp_byte_offset_from_utf16_offset ref_utf8 line 4 9 = Some b \<and> 0 \<le> b \<and> b \<le> 4)"
  using utf16_offset_bounds [OF ref_utf8_ok, of 4 "map char_of [0x40, 0xC3, 0xA9, 0x20 :: nat]" 3 9]
  by (simp add: Let_def)

end
