(* ===== verification/Utf16.thy ===== *)
theory Utf16
  imports Lsp
begin

text \<open>
  What the conversions of offsets mean. A line is text: a list of Unicode scalar values, encoded in
  UTF-8 as RFC 3629 defines it. The protocol counts it in UTF-16 code units. On such a line the two
  loops of \<open>lsp.c\<close> agree with this reference.
\<close>

section \<open>Text\<close>

definition scalar_value :: "nat \<Rightarrow> bool" where
  "scalar_value cp \<longleftrightarrow> cp < 0x110000 \<and> \<not> (0xD800 \<le> cp \<and> cp < 0xE000)"

definition utf8_bytes :: "nat \<Rightarrow> nat list" where
  "utf8_bytes cp =
     (if cp < 0x80 then [cp]
      else if cp < 0x800 then [0xC0 + cp div 0x40, 0x80 + cp mod 0x40]
      else if cp < 0x10000 then [0xE0 + cp div 0x1000, 0x80 + cp div 0x40 mod 0x40, 0x80 + cp mod 0x40]
      else [0xF0 + cp div 0x40000, 0x80 + cp div 0x1000 mod 0x40, 0x80 + cp div 0x40 mod 0x40, 0x80 + cp mod 0x40])"

definition utf8_text :: "nat list \<Rightarrow> string" where
  "utf8_text cps = map char_of (concat (map utf8_bytes cps))"

definition utf16_units :: "nat \<Rightarrow> nat" where
  "utf16_units cp = (if cp \<le> 0xFFFF then 1 else 2)"

definition utf16_length :: "nat list \<Rightarrow> nat" where
  "utf16_length cps = sum_list (map utf16_units cps)"

text \<open>A decoder that reads what the encoding writes: \<open>utf8proc_iterate\<close> on valid UTF-8.\<close>

definition decodes_utf8 :: "utf8_iterate \<Rightarrow> bool" where
  "decodes_utf8 utf8 \<longleftrightarrow>
     (\<forall>cp r. scalar_value cp \<longrightarrow> utf8 (map char_of (utf8_bytes cp) @ r) = (int (length (utf8_bytes cp)), int cp))"

lemma utf8_text_simps [simp]:
  "utf8_text [] = []"
  "utf8_text (cp # cps) = map char_of (utf8_bytes cp) @ utf8_text cps"
  "utf8_text (cps @ cps') = utf8_text cps @ utf8_text cps'"
  by (simp_all add: utf8_text_def)

lemma utf16_length_simps [simp]:
  "utf16_length [] = 0" "utf16_length (cp # cps) = utf16_units cp + utf16_length cps"
  by (simp_all add: utf16_length_def)

lemma utf8_bytes_length: "1 \<le> length (utf8_bytes cp)"
  by (simp add: utf8_bytes_def)

lemma utf16_units_pos: "1 \<le> utf16_units cp"
  by (simp add: utf16_units_def)

section \<open>The loops on text\<close>

text \<open>One turn at the start of a scalar value moves past it and counts its units.\<close>

lemma turn_on_text:
  assumes "decodes_utf8 utf8" and "scalar_value cp"
  shows "utf8_turn utf8 (map char_of (utf8_bytes cp) @ r) = (length (utf8_bytes cp), int (utf16_units cp))"
  using assms by (auto simp: utf8_turn_def decodes_utf8_def utf16_units_def)

lemma text_at:
  "take (length p + length (utf8_text (cp # cps)) - length p) (drop (length p) (p @ utf8_text (cp # cps) @ r)) =
     map char_of (utf8_bytes cp) @ utf8_text cps"
  by simp

lemma utf16_loop_text:
  assumes "decodes_utf8 utf8"
  shows "list_all scalar_value cps \<Longrightarrow>
    utf16_loop utf8 (p @ utf8_text (cps @ cps') @ r) (int (length p + length (utf8_text (cps @ cps'))))
      (int (length p + length (utf8_text cps))) (length p) u = Some (u + int (utf16_length cps))"
proof (induction cps arbitrary: p u)
  case Nil
  show ?case by (subst utf16_loop.simps) simp
next
  case (Cons cp cps)
  let ?b = "map char_of (utf8_bytes cp) :: string"
  have "utf8_turn utf8 (?b @ utf8_text (cps @ cps')) = (length ?b, int (utf16_units cp))"
    using turn_on_text [OF assms] Cons.prems by simp
  moreover have "utf16_loop utf8 ((p @ ?b) @ utf8_text (cps @ cps') @ r)
      (int (length (p @ ?b) + length (utf8_text (cps @ cps')))) (int (length (p @ ?b) + length (utf8_text cps)))
      (length (p @ ?b)) (u + int (utf16_units cp)) = Some (u + int (utf16_units cp) + int (utf16_length cps))"
    by (rule Cons.IH) (use Cons.prems in simp)
  ultimately show ?case
    using utf8_bytes_length [of cp] text_at [of p cp "cps @ cps'" r]
    by (subst utf16_loop.simps) (simp add: nat_add_distrib add.assoc)
qed

lemma byte_loop_text:
  assumes "decodes_utf8 utf8"
  shows "list_all scalar_value cps \<Longrightarrow>
    byte_loop utf8 (p @ utf8_text (cps @ cps') @ r) (int (length p + length (utf8_text (cps @ cps'))))
      (u + int (utf16_length cps)) (length p) u = Some (int (length p + length (utf8_text cps)))"
proof (induction cps arbitrary: p u)
  case Nil
  show ?case by (subst byte_loop.simps) simp
next
  case (Cons cp cps)
  let ?b = "map char_of (utf8_bytes cp) :: string"
  have "utf8_turn utf8 (?b @ utf8_text (cps @ cps')) = (length ?b, int (utf16_units cp))"
    using turn_on_text [OF assms] Cons.prems by simp
  moreover have "byte_loop utf8 ((p @ ?b) @ utf8_text (cps @ cps') @ r)
      (int (length (p @ ?b) + length (utf8_text (cps @ cps')))) (u + int (utf16_units cp) + int (utf16_length cps))
      (length (p @ ?b)) (u + int (utf16_units cp)) = Some (int (length (p @ ?b) + length (utf8_text cps)))"
    by (rule Cons.IH) (use Cons.prems in simp)
  ultimately show ?case
    using utf8_bytes_length [of cp] utf16_units_pos [of cp] text_at [of p cp "cps @ cps'" r]
    by (subst byte_loop.simps) (simp add: nat_add_distrib add.assoc)
qed

section \<open>The reference decoder reads the encoding\<close>

lemma ref_utf8_nat_bytes:
  assumes "scalar_value cp"
  shows "ref_utf8_nat (utf8_bytes cp @ r) = (int (length (utf8_bytes cp)), int cp)"
proof -
  define a where "a = cp div 0x1000 div 0x40"
  define b where "b = cp div 0x1000 mod 0x40"
  define c where "c = cp div 0x40 mod 0x40"
  define d where "d = cp mod 0x40"
  have small: "b < 0x40" "c < 0x40" "d < 0x40" by (simp_all add: b_def c_def d_def)
  have nested: "cp div 0x1000 = cp div 0x40 div 0x40" "cp div 0x40000 = cp div 0x1000 div 0x40"
    by (simp_all flip: div_mult2_eq)
  have "cp div 0x40000 = a" using nested(2) by (simp add: a_def)
  moreover have "cp div 0x1000 = a * 0x40 + b" unfolding a_def b_def by (rule div_mult_mod_eq [symmetric])
  moreover from this have "cp div 0x40 = (a * 0x40 + b) * 0x40 + c"
    using div_mult_mod_eq [of "cp div 0x40" "0x40"] nested(1) by (simp add: c_def)
  moreover from this have "cp = ((a * 0x40 + b) * 0x40 + c) * 0x40 + d"
    using div_mult_mod_eq [of cp "0x40"] by (simp add: d_def)
  ultimately have high: "cp div 0x40000 = a" "cp div 0x1000 = a * 0x40 + b" "cp div 0x40 = (a * 0x40 + b) * 0x40 + c"
    "cp = a * 0x40000 + b * 0x1000 + c * 0x40 + d" by (simp_all add: algebra_simps)
  have digits: "cp div 0x1000 mod 0x40 = b" "cp div 0x40 mod 0x40 = c" "cp mod 0x40 = d"
    by (simp_all add: b_def c_def d_def)
  have cont: "x < 0x40 \<Longrightarrow> is_cont (0x80 + x)" for x by (simp add: is_cont_def)
  consider "cp < 0x80" | "0x80 \<le> cp" "cp < 0x800" | "0x800 \<le> cp" "cp < 0x10000" | "0x10000 \<le> cp" "cp < 0x110000"
    using assms by (fastforce simp: scalar_value_def)
  then show ?thesis
  proof cases
    case 1
    then show ?thesis by (simp add: utf8_bytes_def)
  next
    case 2
    with high(4) small have "a < 1" "b < 1" by linarith+
    then have "a = 0" "b = 0" by simp_all
    with 2 high(4) small have "2 \<le> c" "c < 0x20" by simp_all
    then have "utf8_bytes cp = [0xC0 + c, 0x80 + d]" using 2 high(3) digits by (simp add: utf8_bytes_def)
    moreover have "cp = c * 0x40 + d" using high(4) \<open>a = 0\<close> \<open>b = 0\<close> by simp
    ultimately show ?thesis using \<open>2 \<le> c\<close> \<open>c < 0x20\<close> cont small by simp
  next
    case 3
    with high(4) small have "a < 1" by linarith
    then have "a = 0" by simp
    with 3 high(4) small have x: "a = 0" "b < 0x10" "b = 0 \<Longrightarrow> 0x20 \<le> c" by simp_all
    moreover from x(1) assms high(4) small have "b = 0xD \<Longrightarrow> c < 0x20" unfolding scalar_value_def by linarith
    moreover have "utf8_bytes cp = [0xE0 + b, 0x80 + c, 0x80 + d]" using 3 x(1) high(2) digits by (simp add: utf8_bytes_def)
    moreover have "cp = b * 0x1000 + c * 0x40 + d" using high(4) x(1) by simp
    ultimately show ?thesis using cont small by simp
  next
    case 4
    with high(4) small have x: "a < 5" "a = 0 \<Longrightarrow> 0x10 \<le> b" "a = 4 \<Longrightarrow> b < 0x10" by linarith+
    moreover have "utf8_bytes cp = [0xF0 + a, 0x80 + b, 0x80 + c, 0x80 + d]" using 4 high(1) digits by (simp add: utf8_bytes_def)
    ultimately show ?thesis using cont small high(4) by simp
  qed
qed

lemma utf8_bytes_small: "scalar_value cp \<Longrightarrow> \<forall>b\<in>set (utf8_bytes cp). b < 256"
proof -
  assume "scalar_value cp"
  then have "cp < 0x110000" by (simp add: scalar_value_def)
  then have "cp < 0x800 \<Longrightarrow> cp div 0x40 < 0x20" "cp < 0x10000 \<Longrightarrow> cp div 0x1000 < 0x10" "cp div 0x40000 < 5"
    "cp mod 0x40 < 0x40" "cp div 0x40 mod 0x40 < 0x40" "cp div 0x1000 mod 0x40 < 0x40" by linarith+
  then show ?thesis by (auto simp: utf8_bytes_def)
qed

lemma ref_decodes: "decodes_utf8 ref_utf8"
proof -
  have "ref_utf8 (map char_of (utf8_bytes cp) @ r) = (int (length (utf8_bytes cp)), int cp)" if "scalar_value cp" for cp r
  proof -
    have "map of_char (map char_of (utf8_bytes cp) :: string) = utf8_bytes cp"
      using utf8_bytes_small [OF that] by (intro map_idI [of "utf8_bytes cp", THEN trans [rotated]]) (auto simp: o_def)
    then show ?thesis using ref_utf8_nat_bytes [OF that, of "map of_char r"] by (simp add: ref_utf8_def)
  qed
  then show ?thesis by (simp add: decodes_utf8_def)
qed

section \<open>The property\<close>

text \<open>C35: On a line of UTF-8 text the offsets are those of the protocol: the byte offset of any character
  is converted to the number of UTF-16 code units before it, and that number back to the byte offset.
  The line may be followed by others in the same buffer.\<close>

theorem utf16_offsets_of_text:
  assumes "decodes_utf8 utf8" and "list_all scalar_value (before @ after)" and "length (utf8_text (before @ after)) < 2 ^ 63"
  shows "bio_lsp_utf16_offset_from_byte_offset utf8 (utf8_text (before @ after) @ r) (length (utf8_text (before @ after)))
      (int (length (utf8_text before))) = Some (int (utf16_length before)) \<and>
    bio_lsp_byte_offset_from_utf16_offset utf8 (utf8_text (before @ after) @ r) (length (utf8_text (before @ after)))
      (int (utf16_length before)) = Some (int (length (utf8_text before)))"
  using utf16_loop_text [OF assms(1), of before "[]" after r 0] byte_loop_text [OF assms(1), of before "[]" after r 0] assms(2,3)
  by (simp add: bio_lsp_utf16_offset_from_byte_offset_def bio_lsp_byte_offset_from_utf16_offset_def ssize_def)

text \<open>A letter, an accented letter, a CJK character and an emoji: ten bytes, five code units.\<close>

theorem utf16_offsets_of_text_witness:
  "let line = utf8_text [0x61, 0xE9, 0x6F22, 0x1F600, 0x62]
   in bio_lsp_utf16_offset_from_byte_offset ref_utf8 (line @ ''\<newline>'') (length line) 10 = Some 5 \<and>
      bio_lsp_byte_offset_from_utf16_offset ref_utf8 (line @ ''\<newline>'') (length line) 5 = Some 10"
  using utf16_offsets_of_text [OF ref_decodes, of "[0x61, 0xE9, 0x6F22, 0x1F600]" "[0x62]" "''\<newline>''"]
  by (simp add: utf8_text_def utf8_bytes_def scalar_value_def utf16_length_def utf16_units_def)


text \<open>A UTF-16 offset that is not the one of a character is rounded up to the next, or to the end of the line.\<close>

definition rounded_up :: "nat list \<Rightarrow> nat \<Rightarrow> int \<Rightarrow> int \<Rightarrow> bool" where
  "rounded_up cps k u v \<longleftrightarrow>
     v = u \<or> v = u + 1 \<and> 0 < k \<and> 0xFFFF < cps ! (k - 1) \<or> k = length cps \<and> v < u \<or> k = 0 \<and> u < v"

lemma rounded_up_Cons:
  assumes "rounded_up cps k U v" and "k = 0 \<Longrightarrow> v = u + int (utf16_units cp)" and "u < U"
  shows "rounded_up (cp # cps) (Suc k) U v"
  using assms by (cases k) (auto simp: rounded_up_def utf16_units_def split: if_splits)

lemma byte_loop_rounds_up:
  assumes "decodes_utf8 utf8"
  shows "list_all scalar_value cps \<Longrightarrow>
    \<exists>k \<le> length cps. byte_loop utf8 (p @ utf8_text cps @ r) (int (length p + length (utf8_text cps))) U (length p) u =
        Some (int (length p + length (utf8_text (take k cps)))) \<and>
      rounded_up cps k U (u + int (utf16_length (take k cps)))"
proof (induction cps arbitrary: p u)
  case Nil
  have "rounded_up [] 0 U u" by (auto simp: rounded_up_def)
  moreover have "byte_loop utf8 (p @ r) (int (length p)) U (length p) u = Some (int (length p))"
    by (subst byte_loop.simps) simp
  ultimately show ?case by simp
next
  case (Cons cp cps)
  show ?case
  proof (cases "U \<le> u")
    case True
    then show ?thesis by (intro exI [of _ 0]) (subst byte_loop.simps, auto simp: rounded_up_def)
  next
    case False
    let ?b = "map char_of (utf8_bytes cp) :: string"
    have turn: "utf8_turn utf8 (?b @ utf8_text cps) = (length ?b, int (utf16_units cp))"
      using turn_on_text [OF assms] Cons.prems by simp
    obtain k where k: "k \<le> length cps"
        "byte_loop utf8 ((p @ ?b) @ utf8_text cps @ r) (int (length (p @ ?b) + length (utf8_text cps))) U
           (length (p @ ?b)) (u + int (utf16_units cp)) = Some (int (length (p @ ?b) + length (utf8_text (take k cps))))"
        "rounded_up cps k U (u + int (utf16_units cp) + int (utf16_length (take k cps)))"
      using Cons.IH [of "p @ ?b" "u + int (utf16_units cp)"] Cons.prems by auto
    have "rounded_up (cp # cps) (Suc k) U (u + int (utf16_units cp) + int (utf16_length (take k cps)))"
      using rounded_up_Cons [OF k(3), of u cp] False by simp
    moreover have "byte_loop utf8 (p @ utf8_text (cp # cps) @ r) (int (length p + length (utf8_text (cp # cps)))) U (length p) u =
        Some (int (length p + length (utf8_text (take (Suc k) (cp # cps)))))"
      using False turn k(2) utf8_bytes_length [of cp] text_at [of p cp cps r]
      by (subst byte_loop.simps) (simp add: nat_add_distrib add.assoc)
    ultimately show ?thesis using k(1) by (intro exI [of _ "Suc k"]) (simp add: add.assoc)
  qed
qed

text \<open>C36: Any UTF-16 offset that the editor sends for a line of UTF-8 text is converted to the byte offset of a
  character or of the end of the line, and that back to a UTF-16 offset: to itself if it is the offset of
  a character or of the end, to the next one if and only if it lies between the two units of a character
  beyond the basic plane, to the length of the line if it lies beyond that, and to 0 if it is negative.\<close>

theorem utf16_roundtrip:
  assumes "decodes_utf8 utf8" and "list_all scalar_value cps" and "length (utf8_text cps) < 2 ^ 63"
  shows "\<exists>k v. k \<le> length cps \<and>
    bio_lsp_byte_offset_from_utf16_offset utf8 (utf8_text cps @ r) (length (utf8_text cps)) u =
      Some (int (length (utf8_text (take k cps)))) \<and>
    bio_lsp_utf16_offset_from_byte_offset utf8 (utf8_text cps @ r) (length (utf8_text cps))
      (int (length (utf8_text (take k cps)))) = Some v \<and>
    v = int (utf16_length (take k cps)) \<and>
    (v = u \<or> v = u + 1 \<and> 0 < k \<and> 0xFFFF < cps ! (k - 1) \<or> k = length cps \<and> v < u \<or> k = 0 \<and> u < 0)"
proof -
  from byte_loop_rounds_up [OF assms(1,2), of "[]" r u 0] obtain k where k: "k \<le> length cps"
      "byte_loop utf8 (utf8_text cps @ r) (int (length (utf8_text cps))) u 0 0 = Some (int (length (utf8_text (take k cps))))"
      "rounded_up cps k u (int (utf16_length (take k cps)))" by auto
  have "list_all scalar_value (take k cps)" using assms(2) by (auto simp: list_all_iff dest: in_set_takeD)
  from utf16_loop_text [OF assms(1) this, of "[]" "drop k cps" r 0] k assms(3) show ?thesis
    by (intro exI [of _ k] exI [of _ "int (utf16_length (take k cps))"])
      (auto simp: bio_lsp_utf16_offset_from_byte_offset_def bio_lsp_byte_offset_from_utf16_offset_def ssize_def rounded_up_def
        simp del: utf8_text_simps)
qed

text \<open>The offset between the two units of the emoji goes to the one behind it.\<close>

theorem utf16_roundtrip_witness:
  "\<exists>b. bio_lsp_byte_offset_from_utf16_offset ref_utf8 (utf8_text [0x61, 0x1F600, 0x62]) 6 2 = Some b \<and>
     bio_lsp_utf16_offset_from_byte_offset ref_utf8 (utf8_text [0x61, 0x1F600, 0x62]) 6 b = Some 3"
proof -
  define cps where "cps = [0x61, 0x1F600, 0x62 :: nat]"
  have cps: "length (utf8_text cps) = 6" "length cps = 3" "list_all scalar_value cps"
    by (simp_all add: cps_def utf8_text_def utf8_bytes_def scalar_value_def)
  from utf16_roundtrip [OF ref_decodes cps(3), of "[]" 2] obtain k where
    kv: "k \<le> 3" "bio_lsp_byte_offset_from_utf16_offset ref_utf8 (utf8_text cps) 6 2 = Some (int (length (utf8_text (take k cps))))"
      "bio_lsp_utf16_offset_from_byte_offset ref_utf8 (utf8_text cps) 6 (int (length (utf8_text (take k cps)))) =
        Some (int (utf16_length (take k cps)))"
      "int (utf16_length (take k cps)) = 2 \<or> int (utf16_length (take k cps)) = 2 + 1 \<or>
        k = 3 \<and> int (utf16_length (take k cps)) < 2"
    unfolding cps(1,2) append_Nil2 by auto
  have "k = 0 \<or> k = 1 \<or> k = 2 \<or> k = 3" using kv(1) by linarith
  then have "int (utf16_length (take k cps)) \<noteq> 2" "k = 3 \<longrightarrow> int (utf16_length (take k cps)) = 4"
    by (auto simp: cps_def utf16_units_def)
  with kv(4) have "int (utf16_length (take k cps)) = 3" by auto
  with kv(2,3) show ?thesis unfolding cps_def [symmetric] by auto
qed

end
