(* ===== verification/Graph.thy ===== *)
theory Graph
  imports Prelude
begin

text \<open>
  The graph of \<open>src/src/graph.h\<close>: nodes and edges in an arena, every node the head of two
  intrusive singly linked lists (its incoming and its outgoing edges), every edge a link of two
  lists at once. An arena is a list of cells that only grows and a pointer is an index into it,
  \<open>None\<close> being \<open>NULL\<close>.

  \<open>out_nodes\<close> and \<open>in_nodes\<close> are the loops \<open>for (edge = ...; edge != NULL; edge = edge->next_...)\<close>
  that every client runs; the abstract view is the list \<open>pairs\<close> of the edges in the order they
  were added, and the refinement lemmas say what the linked lists hold in its terms.
\<close>

section \<open>Nodes, edges and \<open>buxn_ls_graph_add_edge\<close>\<close>

record edge =
  next_in :: "nat option"
  next_out :: "nat option"
  e_from :: nat
  e_to :: nat

record node_base =
  in_edges :: "nat option"
  out_edges :: "nat option"

record graph =
  g_nodes :: "node_base list"
  g_edges :: "edge list"

definition empty_graph :: graph where
  "empty_graph = \<lparr>g_nodes = [], g_edges = []\<rparr>"

text \<open>A node allocated with a zeroed \<open>base\<close>; its pointer is the old length of the arena.\<close>

definition new_node :: "graph \<Rightarrow> graph" where
  "new_node g = g\<lparr>g_nodes := g_nodes g @ [\<lparr>in_edges = None, out_edges = None\<rparr>]\<rparr>"

definition buxn_ls_graph_add_edge :: "graph \<Rightarrow> nat \<Rightarrow> nat \<Rightarrow> graph" where
  "buxn_ls_graph_add_edge g from_node to_node =
     (let e = length (g_edges g);
          ns = g_nodes g;
          next_o = out_edges (ns ! from_node);
          ns1 = ns[from_node := (ns ! from_node)\<lparr>out_edges := Some e\<rparr>];
          next_i = in_edges (ns1 ! to_node);
          ns2 = ns1[to_node := (ns1 ! to_node)\<lparr>in_edges := Some e\<rparr>]
      in g\<lparr>g_nodes := ns2,
           g_edges := g_edges g @
             [\<lparr>next_in = next_i, next_out = next_o, e_from = from_node, e_to = to_node\<rparr>]\<rparr>)"

text \<open>The loop over a list of edges; one unit of fuel per edge of the arena.\<close>

fun walk :: "nat \<Rightarrow> (edge \<Rightarrow> nat option) \<Rightarrow> edge list \<Rightarrow> nat option \<Rightarrow> nat list" where
  "walk fuel nxt es None = []"
| "walk 0 nxt es (Some e) = []"
| "walk (Suc fuel) nxt es (Some e) = e # walk fuel nxt es (nxt (es ! e))"

definition out_nodes :: "graph \<Rightarrow> nat \<Rightarrow> nat list" where
  "out_nodes g n =
     map (\<lambda>e. e_to (g_edges g ! e))
       (walk (length (g_edges g)) next_out (g_edges g) (out_edges (g_nodes g ! n)))"

definition in_nodes :: "graph \<Rightarrow> nat \<Rightarrow> nat list" where
  "in_nodes g n =
     map (\<lambda>e. e_from (g_edges g ! e))
       (walk (length (g_edges g)) next_in (g_edges g) (in_edges (g_nodes g ! n)))"

section \<open>The abstract view and the invariant\<close>

definition pairs :: "graph \<Rightarrow> (nat \<times> nat) list" where
  "pairs g = map (\<lambda>e. (e_from e, e_to e)) (g_edges g)"

definition g_size :: "graph \<Rightarrow> nat" where
  "g_size g = length (g_nodes g)"

text \<open>The last of the first \<open>n\<close> edges that satisfies \<open>P\<close>.\<close>

fun last_edge :: "(edge \<Rightarrow> bool) \<Rightarrow> edge list \<Rightarrow> nat \<Rightarrow> nat option" where
  "last_edge P es 0 = None"
| "last_edge P es (Suc n) = (if P (es ! n) then Some n else last_edge P es n)"

definition list_inv :: "(edge \<Rightarrow> nat) \<Rightarrow> (edge \<Rightarrow> nat option) \<Rightarrow> (node_base \<Rightarrow> nat option) \<Rightarrow> graph \<Rightarrow> bool" where
  "list_inv key nxt head g \<longleftrightarrow>
     (\<forall>n < length (g_nodes g).
        head (g_nodes g ! n) = last_edge (\<lambda>e. key e = n) (g_edges g) (length (g_edges g))) \<and>
     (\<forall>i < length (g_edges g).
        nxt (g_edges g ! i) = last_edge (\<lambda>e. key e = key (g_edges g ! i)) (g_edges g) i)"

definition graph_inv :: "graph \<Rightarrow> bool" where
  "graph_inv g \<longleftrightarrow>
     (\<forall>(x, y) \<in> set (pairs g). x < g_size g \<and> y < g_size g) \<and>
     list_inv e_from next_out out_edges g \<and> list_inv e_to next_in in_edges g"

lemma last_edge_cong:
  "(\<And>i. i < n \<Longrightarrow> es ! i = es' ! i) \<Longrightarrow> last_edge P es n = last_edge P es' n"
  by (induction n) auto

lemma last_edge_append [simp]: "n \<le> length es \<Longrightarrow> last_edge P (es @ fs) n = last_edge P es n"
  by (rule last_edge_cong) (simp add: nth_append)

lemma last_edge_Some:
  "last_edge P es n = Some i \<Longrightarrow>
     i < n \<and> P (es ! i) \<and>
     filter (\<lambda>i. P (es ! i)) [0..<n] = filter (\<lambda>i. P (es ! i)) [0..<i] @ [i]"
  by (induction n) (auto split: if_splits)

lemma last_edge_None:
  "last_edge P es n = None \<Longrightarrow> filter (\<lambda>i. P (es ! i)) [0..<n] = []"
  by (induction n) (auto split: if_splits)

text \<open>A linked list walks the edges that belong to it, newest first, and stops at \<open>NULL\<close>.\<close>

lemma walk_last_edge:
  assumes "n \<le> fuel" and "n \<le> length es"
    and nx: "\<And>i. i < length es \<Longrightarrow> key (es ! i) = k \<Longrightarrow>
      nxt (es ! i) = last_edge (\<lambda>e. key e = k) es i"
  shows "walk fuel nxt es (last_edge (\<lambda>e. key e = k) es n) =
    rev (filter (\<lambda>i. key (es ! i) = k) [0..<n])"
  using assms(1,2)
proof (induction fuel arbitrary: n)
  case 0
  then show ?case by simp
next
  case (Suc fuel)
  show ?case
  proof (cases "last_edge (\<lambda>e. key e = k) es n")
    case None
    then show ?thesis by (simp add: last_edge_None [OF None])
  next
    case (Some i)
    from last_edge_Some [OF this]
    have i: "i < n" "key (es ! i) = k"
      "filter (\<lambda>i. key (es ! i) = k) [0..<n] = filter (\<lambda>i. key (es ! i) = k) [0..<i] @ [i]"
      by auto
    from i Suc.prems have "nxt (es ! i) = last_edge (\<lambda>e. key e = k) es i"
      by (intro nx) auto
    with Some i Suc.prems Suc.IH [of i] show ?thesis by simp
  qed
qed

lemma walk_list_inv:
  assumes "list_inv key nxt head g" and "n < g_size g"
  shows "walk (length (g_edges g)) nxt (g_edges g) (head (g_nodes g ! n)) =
    rev (filter (\<lambda>i. key (g_edges g ! i) = n) [0..<length (g_edges g)])"
proof -
  from assms have "head (g_nodes g ! n) =
      last_edge (\<lambda>e. key e = n) (g_edges g) (length (g_edges g))"
    by (simp add: list_inv_def g_size_def)
  then show ?thesis
    using assms(1) by (simp add: walk_last_edge list_inv_def)
qed

lemma map_nth_filter:
  "map (\<lambda>i. f (xs ! i)) (filter (\<lambda>i. P (xs ! i)) [0..<length xs]) = map f (filter P xs)"
proof (induction xs rule: rev_induct)
  case (snoc x xs)
  have "filter (\<lambda>i. P ((xs @ [x]) ! i)) [0..<length xs] = filter (\<lambda>i. P (xs ! i)) [0..<length xs]"
    by (rule filter_cong) (auto simp: nth_append)
  moreover have "map (\<lambda>i. f ((xs @ [x]) ! i)) (filter (\<lambda>i. P (xs ! i)) [0..<length xs]) =
      map (\<lambda>i. f (xs ! i)) (filter (\<lambda>i. P (xs ! i)) [0..<length xs])"
    by (rule map_cong) (auto simp: nth_append)
  ultimately show ?case using snoc by simp
qed simp

lemma graph_invD:
  assumes "graph_inv g"
  shows "list_inv e_from next_out out_edges g" "list_inv e_to next_in in_edges g"
    "(x, y) \<in> set (pairs g) \<Longrightarrow> x < g_size g \<and> y < g_size g"
  using assms by (auto simp: graph_inv_def)

lemma out_nodes_pairs:
  assumes "graph_inv g" and "n < g_size g"
  shows "out_nodes g n = rev (map snd (filter (\<lambda>p. fst p = n) (pairs g)))"
proof -
  have "out_nodes g n = rev (map (\<lambda>i. e_to (g_edges g ! i))
      (filter (\<lambda>i. e_from (g_edges g ! i) = n) [0..<length (g_edges g)]))"
    by (simp add: out_nodes_def walk_list_inv [OF graph_invD(1) [OF assms(1)] assms(2)] rev_map)
  then show ?thesis
    by (simp add: map_nth_filter [where P = "\<lambda>e. e_from e = n"] pairs_def filter_map comp_def)
qed

lemma in_nodes_pairs:
  assumes "graph_inv g" and "n < g_size g"
  shows "in_nodes g n = rev (map fst (filter (\<lambda>p. snd p = n) (pairs g)))"
proof -
  have "in_nodes g n = rev (map (\<lambda>i. e_from (g_edges g ! i))
      (filter (\<lambda>i. e_to (g_edges g ! i) = n) [0..<length (g_edges g)]))"
    by (simp add: in_nodes_def walk_list_inv [OF graph_invD(2) [OF assms(1)] assms(2)] rev_map)
  then show ?thesis
    by (simp add: map_nth_filter [where P = "\<lambda>e. e_to e = n"] pairs_def filter_map comp_def)
qed

section \<open>The operations keep the invariant\<close>

lemma empty_graph_simps [simp]:
  "graph_inv empty_graph" "pairs empty_graph = []" "g_size empty_graph = 0"
  by (simp_all add: graph_inv_def empty_graph_def pairs_def g_size_def list_inv_def)

lemma last_edge_fresh:
  "(\<And>i. i < n \<Longrightarrow> key (es ! i) \<noteq> k) \<Longrightarrow> last_edge (\<lambda>e. key e = k) es n = None"
  by (induction n) auto

lemma pairs_nth: "i < length (g_edges g) \<Longrightarrow>
    (e_from (g_edges g ! i), e_to (g_edges g ! i)) \<in> set (pairs g)"
  by (auto simp: pairs_def)

lemma new_node_simps [simp]:
  "pairs (new_node g) = pairs g" "g_size (new_node g) = Suc (g_size g)"
  by (simp_all add: new_node_def pairs_def g_size_def)

lemma new_node_inv: "graph_inv g \<Longrightarrow> graph_inv (new_node g)"
proof -
  assume inv: "graph_inv g"
  have bounds: "e_from (g_edges g ! i) < length (g_nodes g)" "e_to (g_edges g ! i) < length (g_nodes g)"
    if "i < length (g_edges g)" for i
    using inv pairs_nth [OF that] by (auto simp: graph_inv_def g_size_def)
  have "last_edge (\<lambda>e. e_from e = length (g_nodes g)) (g_edges g) (length (g_edges g)) = None"
    "last_edge (\<lambda>e. e_to e = length (g_nodes g)) (g_edges g) (length (g_edges g)) = None"
    using bounds by (auto intro!: last_edge_fresh dest: less_imp_neq)
  with inv show ?thesis
    by (auto simp: graph_inv_def list_inv_def new_node_def nth_append less_Suc_eq pairs_def g_size_def)
qed

lemma add_edge_simps [simp]:
  "pairs (buxn_ls_graph_add_edge g a b) = pairs g @ [(a, b)]"
  "g_size (buxn_ls_graph_add_edge g a b) = g_size g"
  by (simp_all add: buxn_ls_graph_add_edge_def pairs_def g_size_def Let_def)

lemma add_edge_inv:
  assumes "graph_inv g" and "a < g_size g" and "b < g_size g"
  shows "graph_inv (buxn_ls_graph_add_edge g a b)"
proof -
  let ?g = "buxn_ls_graph_add_edge g a b"
  from assms have "list_inv e_from next_out out_edges ?g" "list_inv e_to next_in in_edges ?g"
    by (auto simp: list_inv_def graph_inv_def buxn_ls_graph_add_edge_def Let_def g_size_def
        nth_append nth_list_update less_Suc_eq)
  with assms show ?thesis by (auto simp: graph_inv_def)
qed

section \<open>The contract of the graph\<close>

locale digraph =
  fixes inv :: "'g \<Rightarrow> bool"
    and size_of :: "'g \<Rightarrow> nat"
    and edges_of :: "'g \<Rightarrow> (nat \<times> nat) list"
    and outs :: "'g \<Rightarrow> nat \<Rightarrow> nat list"
    and ins :: "'g \<Rightarrow> nat \<Rightarrow> nat list"
    and add_node :: "'g \<Rightarrow> 'g"
    and add_edge :: "'g \<Rightarrow> nat \<Rightarrow> nat \<Rightarrow> 'g"
  assumes outs_eq: "inv g \<Longrightarrow> n < size_of g \<Longrightarrow>
      outs g n = rev (map snd (filter (\<lambda>p. fst p = n) (edges_of g)))"
    and ins_eq: "inv g \<Longrightarrow> n < size_of g \<Longrightarrow>
      ins g n = rev (map fst (filter (\<lambda>p. snd p = n) (edges_of g)))"
    and edges_bound: "inv g \<Longrightarrow> (x, y) \<in> set (edges_of g) \<Longrightarrow> x < size_of g \<and> y < size_of g"
    and inv_add_node: "inv g \<Longrightarrow> inv (add_node g)"
    and size_add_node: "size_of (add_node g) = Suc (size_of g)"
    and edges_add_node: "edges_of (add_node g) = edges_of g"
    and inv_add_edge: "inv g \<Longrightarrow> a < size_of g \<Longrightarrow> b < size_of g \<Longrightarrow> inv (add_edge g a b)"
    and size_add_edge: "size_of (add_edge g a b) = size_of g"
    and edges_add_edge: "edges_of (add_edge g a b) = edges_of g @ [(a, b)]"
begin

lemma in_outs: "inv g \<Longrightarrow> n < size_of g \<Longrightarrow> m \<in> set (outs g n) \<longleftrightarrow> (n, m) \<in> set (edges_of g)"
  by (force simp: outs_eq)

lemma in_ins: "inv g \<Longrightarrow> n < size_of g \<Longrightarrow> m \<in> set (ins g n) \<longleftrightarrow> (m, n) \<in> set (edges_of g)"
  by (force simp: ins_eq)

lemma outs_bound: "inv g \<Longrightarrow> n < size_of g \<Longrightarrow> m \<in> set (outs g n) \<Longrightarrow> m < size_of g"
  using edges_bound by (auto simp: in_outs)

lemma ins_bound: "inv g \<Longrightarrow> n < size_of g \<Longrightarrow> m \<in> set (ins g n) \<Longrightarrow> m < size_of g"
  using edges_bound by (auto simp: in_ins)

lemma duality:
  "inv g \<Longrightarrow> n < size_of g \<Longrightarrow> m < size_of g \<Longrightarrow> m \<in> set (outs g n) \<longleftrightarrow> n \<in> set (ins g m)"
  by (simp add: in_outs in_ins)

lemma outs_add_edge:
  assumes "inv g" "a < size_of g" "b < size_of g" "n < size_of g"
  shows "outs (add_edge g a b) n = (if n = a then [b] else []) @ outs g n"
  using assms by (simp add: outs_eq inv_add_edge size_add_edge edges_add_edge)

lemma ins_add_edge:
  assumes "inv g" "a < size_of g" "b < size_of g" "n < size_of g"
  shows "ins (add_edge g a b) n = (if n = b then [a] else []) @ ins g n"
  using assms by (simp add: ins_eq inv_add_edge size_add_edge edges_add_edge)

lemma outs_add_node:
  "inv g \<Longrightarrow> n < size_of g \<Longrightarrow> outs (add_node g) n = outs g n"
  by (simp add: outs_eq inv_add_node size_add_node edges_add_node)

lemma ins_add_node:
  "inv g \<Longrightarrow> n < size_of g \<Longrightarrow> ins (add_node g) n = ins g n"
  by (simp add: ins_eq inv_add_node size_add_node edges_add_node)

lemma outs_new:
  assumes "inv g"
  shows "outs (add_node g) (size_of g) = []"
proof -
  have "filter (\<lambda>p. fst p = size_of g) (edges_of g) = []"
    using edges_bound [OF assms] by (fastforce simp: filter_empty_conv)
  with assms show ?thesis by (simp add: outs_eq inv_add_node size_add_node edges_add_node)
qed

end

interpretation gr: digraph graph_inv g_size pairs out_nodes in_nodes new_node buxn_ls_graph_add_edge
  by unfold_locales
    (auto simp: out_nodes_pairs in_nodes_pairs new_node_inv add_edge_inv dest: graph_invD(3))

section \<open>Properties\<close>

text \<open>C20: Adding an edge to a well-formed graph pushes the target on the front of the source's
  outgoing list and the source on the front of the target's incoming list, leaves every other
  list as it was (also when both ends are the same node), and keeps the graph well-formed: the two
  intrusive linked lists refine an adjacency multigraph.\<close>

theorem add_edge_refines:
  assumes "graph_inv g" and "a < g_size g" and "b < g_size g" and "n < g_size g"
  shows "graph_inv (buxn_ls_graph_add_edge g a b) \<and>
    out_nodes (buxn_ls_graph_add_edge g a b) n = (if n = a then b # out_nodes g n else out_nodes g n) \<and>
    in_nodes (buxn_ls_graph_add_edge g a b) n = (if n = b then a # in_nodes g n else in_nodes g n)"
  using assms by (simp add: gr.outs_add_edge gr.ins_add_edge add_edge_inv)

theorem add_edge_refines_witness:
  "out_nodes (buxn_ls_graph_add_edge (buxn_ls_graph_add_edge
      (new_node (new_node (new_node empty_graph))) 0 1) 0 2) 0 = [2, 1]"
proof -
  let ?g = "new_node (new_node (new_node empty_graph))"
  have g: "graph_inv ?g" "graph_inv (buxn_ls_graph_add_edge ?g 0 1)"
    by (simp_all add: new_node_inv add_edge_inv)
  have "out_nodes ?g 0 = []" by (simp add: out_nodes_pairs g)
  moreover have "out_nodes (buxn_ls_graph_add_edge ?g 0 1) 0 = 1 # out_nodes ?g 0"
    using add_edge_refines [OF g(1), of 0 1 0] by simp
  moreover have "out_nodes (buxn_ls_graph_add_edge (buxn_ls_graph_add_edge ?g 0 1) 0 2) 0 =
      2 # out_nodes (buxn_ls_graph_add_edge ?g 0 1) 0"
    using add_edge_refines [OF g(2), of 0 2 0] by simp
  ultimately show ?thesis by simp
qed

end
