(* ===== verification/Bhash.thy ===== *)
theory Bhash
  imports Prelude
begin

text \<open>
  The hash tables of \<open>bhash.h\<close> (\<open>deps/blibs\<close>, a git submodule that is not part of the tree).

  What the code sees of a table are its dense arrays \<open>keys[0..len-1]\<close> and \<open>values[0..len-1]\<close>:
  a list of entries with distinct keys. Where the library puts a new entry, and how it closes
  the gap of a removed one, is not known here: it is the \<^emph>\<open>layout\<close>, a parameter of every operation
  that adds or removes an entry. The only assumption on it (the type \<open>bhash_layout\<close>) is that it moves
  the entries and neither drops nor invents one, so a theorem holds for every layout.
\<close>

section \<open>Tables, layouts and the operations the code calls\<close>

type_synonym ('k, 'v) bhash = "('k \<times> 'v) list"

datatype bhash_event = Inserted | Removed nat

text \<open>
  A layout: for each kind of change and each number of entries \<open>n\<close>, the order (a permutation of
  \<open>0..<n\<close>) in which the \<open>n\<close> entries lie afterwards.
\<close>

typedef bhash_layout = "{f :: bhash_event \<Rightarrow> nat \<Rightarrow> nat list. \<forall>e n. mset (f e n) = mset [0..<n]}"
  morphisms layout_order Abs_bhash_layout
  by (rule exI [of _ "\<lambda>e n. [0..<n]"]) simp

setup_lifting type_definition_bhash_layout

lemma layout_ok: "mset (layout_order lay e n) = mset [0..<n]"
  using layout_order [of lay] by simp

definition relay :: "bhash_layout \<Rightarrow> bhash_event \<Rightarrow> 'a list \<Rightarrow> 'a list" where
  "relay lay e t = map (\<lambda>i. t ! i) (layout_order lay e (length t))"

definition bhash_keys :: "('k, 'v) bhash \<Rightarrow> 'k list" where
  "bhash_keys t = map fst t"

definition bhash_values :: "('k, 'v) bhash \<Rightarrow> 'v list" where
  "bhash_values t = map snd t"

text \<open>\<open>bhash_find\<close> followed by the read of \<open>values[index]\<close>.\<close>

definition bhash_get :: "('k, 'v) bhash \<Rightarrow> 'k \<Rightarrow> 'v option" where
  "bhash_get t k = map_of t k"

definition bhash_has :: "('k, 'v) bhash \<Rightarrow> 'k \<Rightarrow> bool" where
  "bhash_has t k = (bhash_get t k \<noteq> None)"

definition bhash_set :: "('k, 'v) bhash \<Rightarrow> 'k \<Rightarrow> 'v \<Rightarrow> ('k, 'v) bhash" where
  "bhash_set t k v = map (\<lambda>(k', v'). if k' = k then (k', v) else (k', v')) t"

definition bhash_put :: "bhash_layout \<Rightarrow> ('k, 'v) bhash \<Rightarrow> 'k \<Rightarrow> 'v \<Rightarrow> ('k, 'v) bhash" where
  "bhash_put lay t k v =
     (if bhash_has t k then bhash_set t k v else relay lay Inserted (t @ [(k, v)]))"

definition bhash_remove :: "bhash_layout \<Rightarrow> ('k, 'v) bhash \<Rightarrow> 'k \<Rightarrow> ('k, 'v) bhash" where
  "bhash_remove lay t k =
     (if bhash_has t k
      then relay lay (Removed (length (takeWhile (\<lambda>e. fst e \<noteq> k) t))) (filter (\<lambda>e. fst e \<noteq> k) t)
      else t)"

definition bhash_inv :: "('k, 'v) bhash \<Rightarrow> bool" where
  "bhash_inv t \<longleftrightarrow> distinct (bhash_keys t)"

section \<open>The laws of a table\<close>

lemma mset_relay: "mset (relay lay e t) = mset t"
  by (metis layout_ok map_nth mset_map relay_def)

lemma set_relay: "set (relay lay e t) = set t"
  by (metis mset_relay set_mset_mset)

lemma length_relay: "length (relay lay e t) = length t"
  by (metis mset_relay size_mset)

lemma keys_relay: "mset (bhash_keys (relay lay e t)) = mset (bhash_keys t)"
  by (simp add: bhash_keys_def mset_relay)

lemma inv_relay: "bhash_inv (relay lay e t) = bhash_inv t"
  unfolding bhash_inv_def by (rule mset_eq_imp_distinct_iff, rule keys_relay)

lemma get_relay: "bhash_inv t \<Longrightarrow> bhash_get (relay lay e t) = bhash_get t"
proof -
  assume ok: "bhash_inv t"
  then have "distinct (map fst (relay lay e t))" "distinct (map fst t)"
    using inv_relay [of lay e t] by (simp_all add: bhash_inv_def bhash_keys_def)
  then have "map_of (relay lay e t) = map_of t"
    by (simp add: map_of_inject_set set_relay)
  then show ?thesis by (simp add: bhash_get_def fun_eq_iff)
qed

lemma bhash_has_iff: "bhash_has t k \<longleftrightarrow> k \<in> set (bhash_keys t)"
  by (simp add: bhash_has_def bhash_get_def bhash_keys_def map_of_eq_None_iff)

lemma bhash_get_Some: "bhash_get t k = Some v \<Longrightarrow> (k, v) \<in> set t"
  by (simp add: bhash_get_def map_of_SomeD)

lemma bhash_get_iff: "bhash_inv t \<Longrightarrow> bhash_get t k = Some v \<longleftrightarrow> (k, v) \<in> set t"
  by (simp add: bhash_get_def bhash_inv_def bhash_keys_def)

lemma keys_set [simp]: "bhash_keys (bhash_set t k v) = bhash_keys t"
  by (simp add: bhash_set_def bhash_keys_def case_prod_unfold if_distrib comp_def cong: if_cong)

lemma get_set: "bhash_get (bhash_set t k v) k' =
    (if k' = k \<and> bhash_has t k then Some v else bhash_get t k')"
  by (induction t) (auto simp: bhash_get_def bhash_set_def bhash_has_def)

lemma bhash_inv_Nil [simp]: "bhash_inv []"
  by (simp add: bhash_inv_def bhash_keys_def)

lemma bhash_get_Nil [simp]: "bhash_get [] k = None"
  by (simp add: bhash_get_def)

lemma inv_set [simp]: "bhash_inv (bhash_set t k v) = bhash_inv t"
  by (simp add: bhash_inv_def)

lemma inv_snoc: "bhash_inv t \<Longrightarrow> \<not> bhash_has t k \<Longrightarrow> bhash_inv (t @ [(k, v)])"
  by (simp add: bhash_inv_def bhash_has_iff bhash_keys_def)

lemma get_snoc: "\<not> bhash_has t k \<Longrightarrow>
    bhash_get (t @ [(k, v)]) k' = (if k' = k then Some v else bhash_get t k')"
  by (auto simp: bhash_has_def bhash_get_def map_add_def split: option.splits)

lemma inv_put: "bhash_inv t \<Longrightarrow> bhash_inv (bhash_put lay t k v)"
  by (simp add: bhash_put_def inv_relay inv_snoc)

lemma get_put: "bhash_inv t \<Longrightarrow>
    bhash_get (bhash_put lay t k v) k' = (if k' = k then Some v else bhash_get t k')"
  by (simp add: bhash_put_def get_relay inv_snoc get_snoc get_set)

lemma inv_filter: "bhash_inv t \<Longrightarrow> bhash_inv (filter P t)"
  by (simp add: bhash_inv_def bhash_keys_def distinct_map_filter)

lemma get_filter_neq: "bhash_get (filter (\<lambda>e. fst e \<noteq> k) t) k' =
    (if k' = k then None else bhash_get t k')"
  by (induction t) (auto simp: bhash_get_def)

lemma inv_remove: "bhash_inv t \<Longrightarrow> bhash_inv (bhash_remove lay t k)"
  by (simp add: bhash_remove_def inv_relay inv_filter)

lemma get_remove: "bhash_inv t \<Longrightarrow>
    bhash_get (bhash_remove lay t k) k' = (if k' = k then None else bhash_get t k')"
  by (auto simp: bhash_remove_def get_relay inv_filter get_filter_neq bhash_has_def)

lemma set_keys_put: "set (bhash_keys (bhash_put lay t k v)) = insert k (set (bhash_keys t))"
proof (cases "bhash_has t k")
  case True
  then show ?thesis by (auto simp: bhash_put_def bhash_has_iff)
next
  case False
  then show ?thesis by (auto simp: bhash_put_def bhash_keys_def set_relay)
qed

lemma set_keys_remove: "set (bhash_keys (bhash_remove lay t k)) = set (bhash_keys t) - {k}"
  by (force simp: bhash_remove_def bhash_has_iff bhash_keys_def set_relay)

lemma set_values_put: "set (bhash_values (bhash_put lay t k v)) \<subseteq> insert v (set (bhash_values t))"
  by (auto simp: bhash_put_def bhash_set_def bhash_values_def set_relay split: if_splits)

lemma bhash_has_put: "bhash_has (bhash_put lay t k v) k' \<longleftrightarrow> k' = k \<or> bhash_has t k'"
  by (simp add: bhash_has_iff set_keys_put)

lemma bhash_has_remove: "bhash_has (bhash_remove lay t k) k' \<longleftrightarrow> k' \<noteq> k \<and> bhash_has t k'"
  by (auto simp: bhash_has_iff set_keys_remove)

section \<open>Two layouts\<close>

text \<open>New entries last; gaps closed by shifting, or by moving the last entry into them.\<close>

definition swap_order :: "bhash_event \<Rightarrow> nat \<Rightarrow> nat list" where
  "swap_order e n =
     (case e of
        Inserted \<Rightarrow> [0..<n]
      | Removed i \<Rightarrow> if i < n then [0..<i] @ (n - 1) # [i..<n - 1] else [0..<n])"

lemma swap_order_ok: "mset (swap_order e n) = mset [0..<n]"
proof -
  have "mset ([0..<i] @ (n - 1) # [i..<n - 1]) = mset [0..<n]" if "i < n" for i
  proof -
    obtain m where n: "n = Suc m" using \<open>i < n\<close> by (cases n) auto
    with \<open>i < n\<close> have "[0..<n] = [0..<i] @ [i..<m] @ [m]"
      by (metis append.assoc less_Suc_eq_le upt_Suc_append upt_add_eq_append zero_le le_add_diff_inverse)
    with n show ?thesis by simp
  qed
  then show ?thesis
    by (simp add: swap_order_def split: bhash_event.split)
qed

lift_definition append_layout :: bhash_layout is "\<lambda>e n. [0..<n]"
  by simp

lift_definition swap_layout :: bhash_layout is swap_order
  by (simp add: swap_order_ok)

lemma relay_append_layout [simp]: "relay append_layout e t = t"
  by (simp add: relay_def append_layout.rep_eq map_nth)

lemma bhash_put_append_layout:
  "bhash_put append_layout t k v = (if bhash_has t k then bhash_set t k v else t @ [(k, v)])"
  by (simp add: bhash_put_def)

section \<open>The contract of a table, and what its clients derive from it\<close>

locale hash_table =
  fixes get :: "'t \<Rightarrow> 'k \<Rightarrow> 'v option"
    and put :: "'t \<Rightarrow> 'k \<Rightarrow> 'v \<Rightarrow> 't"
    and remove :: "'t \<Rightarrow> 'k \<Rightarrow> 't"
    and inv :: "'t \<Rightarrow> bool"
  assumes get_put: "inv t \<Longrightarrow> get (put t k v) k' = (if k' = k then Some v else get t k')"
    and get_remove: "inv t \<Longrightarrow> get (remove t k) k' = (if k' = k then None else get t k')"
    and inv_put: "inv t \<Longrightarrow> inv (put t k v)"
    and inv_remove: "inv t \<Longrightarrow> inv (remove t k)"
begin

lemma get_fun_put: "inv t \<Longrightarrow> get (put t k v) = (get t)(k \<mapsto> v)"
  by (auto simp: get_put)

lemma get_fun_remove: "inv t \<Longrightarrow> get (remove t k) = (get t)(k := None)"
  by (auto simp: get_remove)

lemma remove_put: "inv t \<Longrightarrow> get (remove (put t k v) k) = (get t)(k := None)"
  by (auto simp: get_remove get_put inv_put)

lemma put_put: "inv t \<Longrightarrow> get (put (put t k v) k w) = get (put t k w)"
  by (auto simp: get_put inv_put)

lemma put_swap: "inv t \<Longrightarrow> k \<noteq> k' \<Longrightarrow> get (put (put t k v) k' w) = get (put (put t k' w) k v)"
  by (auto simp: get_put inv_put)

end

interpretation bh: hash_table bhash_get "bhash_put lay" "bhash_remove lay" bhash_inv
  for lay :: bhash_layout
  by unfold_locales (simp_all add: get_put get_remove inv_put inv_remove)

end
