(* ===== verification/Workspace.thy ===== *)
theory Workspace
  imports Lsp Bhash
begin

text \<open>
  The workspace (\<open>src/src/workspace.h\<close>, \<open>src/src/workspace.c\<close>): the root directory and the contents
  of the documents that the editor has open, by their path below the root.

  The URI parser \<open>yuarel_parse\<close> (\<open>deps/libyuarel\<close>, not part of the tree) is a parameter.
  What it returns is the scheme and the path, each of which may be \<open>NULL\<close>; a \<open>NULL\<close> URI is an
  argument like any other.
\<close>

section \<open>State and operations\<close>

record url =
  url_scheme :: "string option"
  url_path :: "string option"

type_synonym yuarel_parse = "string option \<Rightarrow> url option"

record buxn_ls_workspace =
  root_dir :: string
  root_dir_len :: nat
  docs :: "(string, string) bhash"

definition buxn_ls_workspace_resolve_path ::
    "yuarel_parse \<Rightarrow> buxn_ls_workspace \<Rightarrow> string option \<Rightarrow> string option outcome" where
  "buxn_ls_workspace_resolve_path yuarel workspace uri =
     (case yuarel uri of
        None \<Rightarrow> Inr None
      | Some url \<Rightarrow>
          (case url_path url of
             None \<Rightarrow> Inl Null_deref
           | Some path \<Rightarrow>
               if strncmp_eq (root_dir workspace) path (root_dir_len workspace)
               then Inr (Some (drop (root_dir_len workspace) path))
               else Inr None))"

definition buxn_ls_workspace_init :: "string \<Rightarrow> buxn_ls_workspace" where
  "buxn_ls_workspace_init root =
     (let root_len = length root
      in if root_len > 0 \<and> root ! (root_len - 1) \<noteq> CHR ''/''
         then \<lparr>root_dir = root @ ''/'', root_dir_len = root_len + 1, docs = []\<rparr>
         else \<lparr>root_dir = root, root_dir_len = root_len, docs = []\<rparr>)"

text \<open>The text of a document as the code stores it: nothing where the JSON has no string.\<close>

definition doc_text :: "json_api \<Rightarrow> json option \<Rightarrow> string" where
  "doc_text yy json_text = (case yy_get_str yy json_text of None \<Rightarrow> [] | Some content \<Rightarrow> content)"

definition buxn_ls_workspace_update ::
    "json_api \<Rightarrow> yuarel_parse \<Rightarrow> bhash_layout \<Rightarrow> buxn_ls_workspace \<Rightarrow> bio_lsp_in_msg \<Rightarrow>
     buxn_ls_workspace outcome" where
  "buxn_ls_workspace_update yy yuarel lay workspace msg =
     (if in_type msg = BIO_LSP_MSG_NOTIFICATION then
        (let text_document = yy_obj_get yy (in_value msg) ''textDocument'';
             uri = yy_get_cstr yy (yy_obj_get yy text_document ''uri'')
         in obind (buxn_ls_workspace_resolve_path yuarel workspace uri) (\<lambda>path_ptr.
            case path_ptr of
              None \<Rightarrow> Inr workspace
            | Some path \<Rightarrow>
                if in_method msg = Some ''textDocument/didOpen'' then
                  (let content = doc_text yy (yy_obj_get yy text_document ''text'')
                   in Inr (workspace\<lparr>docs := bhash_put lay (docs workspace) path content\<rparr>))
                else if in_method msg = Some ''textDocument/didChange'' then
                  (let changes = yy_obj_get yy (in_value msg) ''contentChanges'';
                       last_change = yy_arr_last yy changes;
                       content = doc_text yy (yy_obj_get yy last_change ''text'')
                   in Inr (workspace\<lparr>docs := bhash_put lay (docs workspace) path content\<rparr>))
                else if in_method msg = Some ''textDocument/didClose'' then
                  Inr (workspace\<lparr>docs := bhash_remove lay (docs workspace) path\<rparr>)
                else Inr workspace))
      else Inr workspace)"

section \<open>Invariant and helper facts\<close>

definition workspace_inv :: "buxn_ls_workspace \<Rightarrow> bool" where
  "workspace_inv ws \<longleftrightarrow>
     root_dir_len ws = length (root_dir ws) \<and>
     (root_dir ws = [] \<or> last (root_dir ws) = CHR ''/'') \<and>
     bhash_inv (docs ws)"

lemma workspace_init_inv: "workspace_inv (buxn_ls_workspace_init root)"
  by (cases "root = []") (auto simp: workspace_inv_def buxn_ls_workspace_init_def Let_def last_conv_nth)

lemma resolve_path_eq:
  assumes "workspace_inv ws"
  shows "buxn_ls_workspace_resolve_path yuarel ws uri = Inr (Some p) \<longleftrightarrow>
    (\<exists>u. yuarel uri = Some u \<and> url_path u = Some (root_dir ws @ p))"
  using assms
  by (auto simp: buxn_ls_workspace_resolve_path_def workspace_inv_def strncmp_eq_prefix
      split: option.splits)

lemma update_frame:
  assumes "buxn_ls_workspace_update yy yuarel lay ws msg = Inr ws'"
  shows "root_dir ws' = root_dir ws \<and> root_dir_len ws' = root_dir_len ws"
  using assms
  by (auto simp: buxn_ls_workspace_update_def Let_def ok_simps split: if_splits option.splits)

lemma update_inv:
  assumes "workspace_inv ws" and "buxn_ls_workspace_update yy yuarel lay ws msg = Inr ws'"
  shows "workspace_inv ws'"
  using assms
  by (auto simp: buxn_ls_workspace_update_def workspace_inv_def Let_def ok_simps
      bh.inv_put bh.inv_remove split: if_splits option.splits)

section \<open>The abstract view: open documents and editor events\<close>

datatype doc_event =
    Doc_text string string  \<comment> \<open>a document has this text from now on\<close>
  | Doc_closed string
  | Doc_nothing

definition doc_event_of ::
    "json_api \<Rightarrow> yuarel_parse \<Rightarrow> buxn_ls_workspace \<Rightarrow> bio_lsp_in_msg \<Rightarrow> doc_event" where
  "doc_event_of yy yuarel ws msg =
     (let text_document = yy_obj_get yy (in_value msg) ''textDocument''
      in case buxn_ls_workspace_resolve_path yuarel ws (yy_get_cstr yy (yy_obj_get yy text_document ''uri'')) of
           Inr (Some path) \<Rightarrow>
             if in_type msg \<noteq> BIO_LSP_MSG_NOTIFICATION then Doc_nothing
             else if in_method msg = Some ''textDocument/didOpen''
             then Doc_text path (doc_text yy (yy_obj_get yy text_document ''text''))
             else if in_method msg = Some ''textDocument/didChange''
             then Doc_text path (doc_text yy (yy_obj_get yy
                    (yy_arr_last yy (yy_obj_get yy (in_value msg) ''contentChanges'')) ''text''))
             else if in_method msg = Some ''textDocument/didClose'' then Doc_closed path
             else Doc_nothing
         | _ \<Rightarrow> Doc_nothing)"

fun apply_doc_event :: "doc_event \<Rightarrow> (string \<rightharpoonup> string) \<Rightarrow> (string \<rightharpoonup> string)" where
  "apply_doc_event (Doc_text p c) m = m(p \<mapsto> c)"
| "apply_doc_event (Doc_closed p) m = m(p := None)"
| "apply_doc_event Doc_nothing m = m"

definition open_docs :: "buxn_ls_workspace \<Rightarrow> (string \<rightharpoonup> string)" where
  "open_docs ws = bhash_get (docs ws)"

lemma update_refines_event:
  assumes "workspace_inv ws" and "buxn_ls_workspace_update yy yuarel lay ws msg = Inr ws'"
  shows "open_docs ws' = apply_doc_event (doc_event_of yy yuarel ws msg) (open_docs ws)"
proof -
  have inv: "bhash_inv (docs ws)" using assms(1) by (simp add: workspace_inv_def)
  define uri where
    "uri = yy_get_cstr yy (yy_obj_get yy (yy_obj_get yy (in_value msg) ''textDocument'') ''uri'')"
  show ?thesis
  proof (cases "in_type msg = BIO_LSP_MSG_NOTIFICATION")
    case False
    then have "doc_event_of yy yuarel ws msg = Doc_nothing"
      by (simp add: doc_event_of_def Let_def split: sum.split option.split)
    with False assms(2) show ?thesis by (simp add: buxn_ls_workspace_update_def)
  next
    case True
    with assms(2) obtain p where p: "buxn_ls_workspace_resolve_path yuarel ws uri = Inr p"
      by (auto simp: buxn_ls_workspace_update_def ok_simps Let_def uri_def)
    show ?thesis
    proof (cases p)
      case None
      with p True assms(2) show ?thesis
        by (simp add: buxn_ls_workspace_update_def doc_event_of_def Let_def uri_def [symmetric])
    next
      case (Some path)
      with p True assms(2) show ?thesis
        by (auto simp: buxn_ls_workspace_update_def doc_event_of_def Let_def uri_def [symmetric]
            open_docs_def bh.get_fun_put [OF inv] bh.get_fun_remove [OF inv] simp del: fun_upd_apply
            split: if_splits)
    qed
  qed
qed

text \<open>The text that the last of a list of events leaves a document with.\<close>

fun last_text :: "string \<Rightarrow> doc_event list \<Rightarrow> string option \<Rightarrow> string option" where
  "last_text p [] t = t"
| "last_text p (Doc_text q c # es) t = last_text p es (if q = p then Some c else t)"
| "last_text p (Doc_closed q # es) t = last_text p es (if q = p then None else t)"
| "last_text p (Doc_nothing # es) t = last_text p es t"

lemma fold_events_last_text: "fold apply_doc_event es m p = last_text p es (m p)"
proof (induction es arbitrary: m)
  case (Cons e es)
  then show ?case by (cases e) simp_all
qed simp

text \<open>The classification of a message depends on the root directory only.\<close>

lemma doc_event_of_root:
  "root_dir ws' = root_dir ws \<Longrightarrow> root_dir_len ws' = root_dir_len ws \<Longrightarrow>
     doc_event_of yy yuarel ws' = doc_event_of yy yuarel ws"
proof -
  assume "root_dir ws' = root_dir ws" "root_dir_len ws' = root_dir_len ws"
  then have eq: "buxn_ls_workspace_resolve_path yuarel ws' = buxn_ls_workspace_resolve_path yuarel ws"
    by (simp add: buxn_ls_workspace_resolve_path_def fun_eq_iff split: option.split)
  show ?thesis unfolding doc_event_of_def eq ..
qed

lemma updates_refine_events:
  assumes "workspace_inv ws"
    and "ofold (\<lambda>msg w. buxn_ls_workspace_update yy yuarel lay w msg) msgs ws = Inr ws'"
  shows "workspace_inv ws' \<and>
    open_docs ws' = fold apply_doc_event (map (doc_event_of yy yuarel ws) msgs) (open_docs ws)"
  using assms
proof (induction msgs arbitrary: ws)
  case (Cons msg msgs)
  from Cons.prems(2) obtain w where w: "buxn_ls_workspace_update yy yuarel lay ws msg = Inr w"
    "ofold (\<lambda>msg w. buxn_ls_workspace_update yy yuarel lay w msg) msgs w = Inr ws'"
    by (auto simp: ok_simps)
  have "doc_event_of yy yuarel w = doc_event_of yy yuarel ws"
    using update_frame [OF w(1)] by (auto intro: doc_event_of_root)
  with Cons.IH [OF update_inv [OF Cons.prems(1) w(1)] w(2)]
  show ?case using update_refines_event [OF Cons.prems(1) w(1)] by simp
qed simp

section \<open>Properties\<close>

text \<open>C11: The document store follows the editor: after any sequence of notifications the text of a
  document is the one of the last \<open>didOpen\<close> or \<open>didChange\<close> for its path, and there is none if a
  \<open>didClose\<close> came later or nothing was ever sent; every other message, and every message about
  a path outside the root, changes nothing; whatever the layout of the table.\<close>

theorem documents_follow_editor:
  assumes "ofold (\<lambda>msg w. buxn_ls_workspace_update yy yuarel lay w msg) msgs
      (buxn_ls_workspace_init root) = Inr ws"
  shows "bhash_get (docs ws) path =
    last_text path (map (doc_event_of yy yuarel (buxn_ls_workspace_init root)) msgs) None"
proof -
  have "open_docs (buxn_ls_workspace_init root) = Map.empty"
    by (auto simp: open_docs_def buxn_ls_workspace_init_def Let_def)
  then show ?thesis
    using updates_refine_events [OF workspace_init_inv assms]
    by (simp add: fold_events_last_text open_docs_def [symmetric])
qed

definition demo_url :: yuarel_parse where
  "demo_url uri =
     (case uri of
        None \<Rightarrow> None
      | Some u \<Rightarrow>
          if take 7 u = ''file://'' then Some \<lparr>url_scheme = Some ''file'', url_path = Some (drop 7 u)\<rparr>
          else None)"

definition demo_doc_msg :: "string \<Rightarrow> string \<Rightarrow> bio_lsp_in_msg" where
  "demo_doc_msg meth text =
     \<lparr>in_type = BIO_LSP_MSG_NOTIFICATION, in_id = None, in_method = Some meth,
      in_value = Some (JObj [
        (''textDocument'', JObj [(''uri'', JStr ''file:///p/a.tal''), (''text'', JStr text)]),
        (''contentChanges'', JArr [JObj [(''text'', JStr ''old'')], JObj [(''text'', JStr text)]])])\<rparr>"

definition demo_session :: "bio_lsp_in_msg list" where
  "demo_session = [demo_doc_msg ''textDocument/didOpen'' ''BRK'', demo_doc_msg ''textDocument/didChange'' ''ADD'']"

theorem documents_follow_editor_witness:
  "\<exists>ws. ofold (\<lambda>msg w. buxn_ls_workspace_update (ref_json []) demo_url append_layout w msg) demo_session
      (buxn_ls_workspace_init ''/p'') = Inr ws \<and> bhash_get (docs ws) ''a.tal'' = Some ''ADD''"
proof -
  let ?run = "ofold (\<lambda>msg w. buxn_ls_workspace_update (ref_json []) demo_url append_layout w msg)
    demo_session (buxn_ls_workspace_init ''/p'')"
  have "\<exists>ws. ?run = Inr ws"
    by (simp add: demo_session_def demo_doc_msg_def buxn_ls_workspace_update_def Let_def
        buxn_ls_workspace_resolve_path_def demo_url_def yy_get_cstr_def cstr_def NUL_def
        buxn_ls_workspace_init_def strncmp_eq_def)
  then obtain ws where ws: "?run = Inr ws" ..
  have "last_text ''a.tal'' (map (doc_event_of (ref_json []) demo_url (buxn_ls_workspace_init ''/p'')) demo_session) None
      = Some ''ADD''"
    by (simp add: demo_session_def demo_doc_msg_def doc_event_of_def Let_def
        buxn_ls_workspace_resolve_path_def demo_url_def yy_get_cstr_def cstr_def NUL_def
        buxn_ls_workspace_init_def strncmp_eq_def doc_text_def)
  with ws show ?thesis using documents_follow_editor [OF ws, of "''a.tal''"] by auto
qed

text \<open>A path is resolved only inside the root directory: the path that \<open>resolve_path\<close> returns,
  appended to the root, is the path of the URI, and the root ends with a slash, so a sibling
  directory whose name starts with that of the root is outside.\<close>

theorem resolve_path_inside_root:
  assumes "workspace_inv ws"
    and "buxn_ls_workspace_resolve_path yuarel ws uri = Inr (Some path)"
  shows "\<exists>url. yuarel uri = Some url \<and> url_path url = Some (root_dir ws @ path) \<and>
    (root_dir ws = [] \<or> last (root_dir ws) = CHR ''/'')"
  using assms resolve_path_eq [OF assms(1)] by (simp add: workspace_inv_def)

theorem resolve_path_inside_root_witness:
  "\<exists>url. demo_url (Some ''file:///p/a.tal'') = Some url \<and> url_path url = Some (''/p/'' @ ''a.tal'') \<and>
    (''/p/'' = [] \<or> last ''/p/'' = CHR ''/'')"
  using resolve_path_inside_root [OF workspace_init_inv [of "''/p''"], of demo_url "Some ''file:///p/a.tal''" "''a.tal''"]
  by (simp add: buxn_ls_workspace_resolve_path_def demo_url_def buxn_ls_workspace_init_def strncmp_eq_def)

end
