(* ===== verification/Analyze_State.thy ===== *)
theory Analyze_State
  imports Graph Workspace
begin

text \<open>
  The data of the analyzer (\<open>src/src/analyze.h\<close>) and of the assembler it drives.

  The assembler, the verifier and the annotation scanner (\<open>buxn-asm\<close>, \<open>buxn-asm-chess\<close>,
  \<open>buxn-asm-annotation\<close> in \<open>deps/buxn\<close>) are not part of the tree. They are programs that call
  back into \<open>analyze.c\<close>: a run of theirs (\<open>asm_run\<close>) is a tree that either ends with a result or
  makes a callback and goes on with its response, so that what they do may depend on everything
  they were told. Every theorem is about all such trees.
\<close>

section \<open>The types of \<open>buxn/asm/asm.h\<close> that the code uses\<close>

text \<open>A \<open>const char*\<close> that is compared by address: the address and the text there.\<close>

record cptr =
  cp_addr :: nat
  cp_text :: string

record asm_pos =
  ap_line :: int
  ap_col :: int
  ap_byte :: int

record asm_range =
  ar_start :: asm_pos
  ar_end :: asm_pos

record asm_region =
  rg_filename :: cptr
  rg_range :: asm_range

datatype asm_sym_type =
    BUXN_ASM_SYM_MACRO
  | BUXN_ASM_SYM_MACRO_REF
  | BUXN_ASM_SYM_LABEL
  | BUXN_ASM_SYM_LABEL_REF
  | Asm_sym_other nat

record asm_sym =
  as_type :: asm_sym_type
  as_name :: string
  as_name_is_generated :: bool
  as_id :: nat
  as_region :: asm_region

datatype asm_report_type = BUXN_ASM_REPORT_WARNING | BUXN_ASM_REPORT_ERROR | Asm_report_other nat

datatype chess_report_type = BUXN_CHESS_REPORT_WARNING | BUXN_CHESS_REPORT_ERROR | Chess_report_other nat

record asm_report =
  rp_message :: string
  rp_region :: asm_region
  rp_related_message :: "string option"
  rp_related_region :: "asm_region option"

text \<open>What \<open>buxn_chess_deo\<close> reads of the machine state: its source region, and for each stack its
  size and the text that \<open>buxn_chess_format_stack\<close> makes of it.\<close>

record chess_vm_state =
  vm_src_region :: asm_region
  vm_wst_size :: nat
  vm_wst_str :: string
  vm_rst_size :: nat
  vm_rst_str :: string

text \<open>A call of the annotation handler: the index of the annotation in the table, or \<open>None\<close> for
  a comment that is not one, and the region of its contents.\<close>

record anno_call =
  ac_annotation :: "nat option"
  ac_region :: asm_region

datatype asm_call =
    Asm_fopen cptr
  | Asm_fgetc nat
  | Asm_fclose nat
  | Asm_put_rom u16 u8
  | Asm_put_symbol u16 asm_sym
  | Asm_report_msg asm_report_type asm_report
  | Chess_get_rom u16
  | Chess_report_msg "nat option" chess_report_type asm_report  \<comment> \<open>\<open>None\<close>: no trace\<close>
  | Chess_deo nat chess_vm_state u8 u8  \<comment> \<open>trace, state, value, port\<close>

datatype asm_resp =
    Resp_unit
  | Resp_handle "nat option"
  | Resp_int int
  | Resp_byte u8

datatype asm_run =
    Done bool
  | Call asm_call "asm_resp \<Rightarrow> asm_run"

section \<open>Symbols, sources, diagnostics\<close>

datatype symbol_semantics =
    BUXN_LS_SYMBOL_AS_VARIABLE
  | BUXN_LS_SYMBOL_AS_SUBROUTINE
  | BUXN_LS_SYMBOL_AS_DEVICE_PORT
  | BUXN_LS_SYMBOL_AS_ENUM

definition BIO_LSP_DIAGNOSTIC_ERROR :: int where "BIO_LSP_DIAGNOSTIC_ERROR = 1"
definition BIO_LSP_DIAGNOSTIC_WARNING :: int where "BIO_LSP_DIAGNOSTIC_WARNING = 2"
definition BIO_LSP_DIAGNOSTIC_INFORMATION :: int where "BIO_LSP_DIAGNOSTIC_INFORMATION = 3"

record diagnostic =
  dg_location :: lsp_location
  dg_related_location :: lsp_location
  dg_severity :: int
  dg_source :: string
  dg_message :: string
  dg_related_message :: "string option"

text \<open>A symbol; \<open>sy_source\<close> is the index of its source node. The list pointer \<open>next\<close> is not a
  field: the lists of a source node are lists of symbol indices, newest first.\<close>

record sym_node =
  sy_name :: string
  sy_documentation :: string
  sy_signature :: string
  sy_source :: nat
  sy_type :: asm_sym_type
  sy_semantics :: symbol_semantics
  sy_byte_offset :: int
  sy_range :: lsp_range
  sy_address :: u16

record src_node =
  sn_filename :: string
  sn_uri :: string
  sn_references :: "nat list"
  sn_definitions :: "nat list"
  sn_analyzed :: bool

text \<open>
  A context (\<open>buxn_ls_analyzer_ctx_t\<close>): the arena, as one list per kind of node, and the table of
  the sources. The graph nodes that are embedded in source and symbol nodes (\<open>base\<close>) are the
  nodes of two graphs, with the indices of the nodes that embed them.
\<close>

record analyzer_ctx =
  cx_sources :: "(string, nat) bhash"
  cx_src_nodes :: "src_node list"
  cx_src_graph :: graph
  cx_sym_nodes :: "sym_node list"
  cx_sym_graph :: graph

definition empty_ctx :: analyzer_ctx where
  "empty_ctx = \<lparr>cx_sources = [], cx_src_nodes = [], cx_src_graph = empty_graph,
     cx_sym_nodes = [], cx_sym_graph = empty_graph\<rparr>"

record ls_file =
  f_content :: string
  f_zero_page_semantics :: symbol_semantics
  f_first_line_index :: int
  f_num_lines :: int
  f_last_symbol_byte :: int
  f_has_error :: bool

text \<open>\<open>an_lines\<close> is the array that the lines of all files share: each entry has the contents of its
  file beside its offset and its length.\<close>

record analyzer =
  an_current :: analyzer_ctx
  an_previous :: analyzer_ctx
  an_diagnostics :: "diagnostic list"
  an_files :: "(string, ls_file) bhash"
  an_lines :: "(string \<times> line_ref) list"
  an_queue :: "nat list"
  an_macro_defs :: "nat list"
  an_label_defs :: "(u16, nat) bhash"
  an_references :: "asm_sym list"

definition buxn_ls_analyzer_init :: analyzer where
  "buxn_ls_analyzer_init = \<lparr>an_current = empty_ctx, an_previous = empty_ctx, an_diagnostics = [],
     an_files = [], an_lines = [], an_queue = [], an_macro_defs = [], an_label_defs = [],
     an_references = []\<rparr>"

text \<open>
  The context of one run of the assembler (\<open>struct buxn_asm_ctx_s\<close>). The states of the verifier
  and of the annotation scanner are the symbols they were given; \<open>ac_handles\<close> are the file
  handles, with the contents and the offset of each (\<open>None\<close>: freed). A previous symbol of
  \<open>None\<close> is the zeroed one, whose file name is \<open>NULL\<close>.
\<close>

record asm_ctx =
  ac_entry_node :: nat
  ac_previous_sym :: "asm_sym option"
  ac_enum_scope :: string
  ac_current_sym_node :: "nat option"
  ac_chess_syms :: "(u16 \<times> asm_sym) list"
  ac_anno_syms :: "(u16 \<times> asm_sym) list"
  ac_rom_is_empty :: bool
  ac_rom :: "nat \<Rightarrow> u8"
  ac_handles :: "(string \<times> nat) option list"

text \<open>The libraries and the file system, as parameters.\<close>

record asm_api =
  aa_utf8 :: utf8_iterate
  aa_layout :: bhash_layout
  aa_read_file :: "string \<Rightarrow> string option"
  aa_asm :: "string \<Rightarrow> asm_run"
  aa_chess_end :: "(u16 \<times> asm_sym) list \<Rightarrow> asm_run"
  aa_anno :: "(u16 \<times> asm_sym) list \<Rightarrow> anno_call list"
  aa_qsort :: "(diagnostic \<Rightarrow> diagnostic \<Rightarrow> int) \<Rightarrow> diagnostic list \<Rightarrow> diagnostic list"

section \<open>Updates of the arena\<close>

definition upd_src :: "nat \<Rightarrow> (src_node \<Rightarrow> src_node) \<Rightarrow> analyzer_ctx \<Rightarrow> analyzer_ctx" where
  "upd_src n f cx = cx\<lparr>cx_src_nodes := (cx_src_nodes cx)[n := f (cx_src_nodes cx ! n)]\<rparr>"

definition upd_sym :: "nat \<Rightarrow> (sym_node \<Rightarrow> sym_node) \<Rightarrow> analyzer_ctx \<Rightarrow> analyzer_ctx" where
  "upd_sym n f cx = cx\<lparr>cx_sym_nodes := (cx_sym_nodes cx)[n := f (cx_sym_nodes cx ! n)]\<rparr>"

definition alloc_src :: "src_node \<Rightarrow> analyzer_ctx \<Rightarrow> nat \<times> analyzer_ctx" where
  "alloc_src node cx =
     (length (cx_src_nodes cx),
      cx\<lparr>cx_src_nodes := cx_src_nodes cx @ [node], cx_src_graph := new_node (cx_src_graph cx)\<rparr>)"

definition alloc_sym :: "sym_node \<Rightarrow> analyzer_ctx \<Rightarrow> nat \<times> analyzer_ctx" where
  "alloc_sym node cx =
     (length (cx_sym_nodes cx),
      cx\<lparr>cx_sym_nodes := cx_sym_nodes cx @ [node], cx_sym_graph := new_node (cx_sym_graph cx)\<rparr>)"

definition upd_current :: "(analyzer_ctx \<Rightarrow> analyzer_ctx) \<Rightarrow> analyzer \<Rightarrow> analyzer" where
  "upd_current f a = a\<lparr>an_current := f (an_current a)\<rparr>"

end
