(* ===== verification/Analyze.thy ===== *)
theory Analyze
  imports Analyze_State
begin

text \<open>
  The operations of \<open>src/src/analyze.c\<close>: the position conversions, the queueing of files, and the
  callbacks through which the assembler reads files and reports symbols and messages.
\<close>

section \<open>Lines and positions\<close>

text \<open>The slice that the code returns is a pointer into the shared array of lines and a count; a
  \<open>NULL\<close> pointer is \<open>None\<close>.\<close>

definition buxn_ls_analyzer_split_file :: "analyzer \<Rightarrow> string \<Rightarrow> (int option \<times> int) \<times> analyzer" where
  "buxn_ls_analyzer_split_file a filename =
     (case bhash_get (an_files a) filename of
        None \<Rightarrow> ((None, 0), a)
      | Some file \<Rightarrow>
          if f_first_line_index file \<ge> 0
          then ((Some (f_first_line_index file), f_num_lines file), a)
          else
            (let content = f_content file;
                 first = int (length (an_lines a));
                 new_lines = buxn_ls_split_file content;
                 num = int (length new_lines);
                 file' = file\<lparr>f_first_line_index := first, f_num_lines := num\<rparr>
             in ((Some first, num),
                 a\<lparr>an_lines := an_lines a @ map (\<lambda>l. (content, l)) new_lines,
                   an_files := bhash_set (an_files a) filename file'\<rparr>)))"

definition read_line :: "analyzer \<Rightarrow> int \<Rightarrow> (string \<times> line_ref) outcome" where
  "read_line a idx =
     (if 0 \<le> idx \<and> idx < int (length (an_lines a)) then Inr (an_lines a ! nat idx)
      else Inl Out_of_bounds)"

definition buxn_ls_convert_position ::
    "utf8_iterate \<Rightarrow> string \<Rightarrow> asm_pos \<Rightarrow> analyzer \<Rightarrow> (lsp_position \<times> analyzer) outcome" where
  "buxn_ls_convert_position utf8 filename basm_pos a =
     (case buxn_ls_analyzer_split_file a filename of
        ((lines, num_lines), a') \<Rightarrow>
          (let lsp_line = ap_line basm_pos - 1
           in case lines of
                None \<Rightarrow> Inr (\<lparr>p_line = 0, p_character = 0\<rparr>, a')
              | Some first \<Rightarrow>
                  if lsp_line \<ge> num_lines then Inr (\<lparr>p_line = 0, p_character = 0\<rparr>, a')
                  else obind (read_line a' (first + lsp_line)) (\<lambda>(content, off, len).
                    obind (or_diverge (bio_lsp_utf16_offset_from_byte_offset utf8
                        (drop off content) len (ap_col basm_pos - 1))) (\<lambda>ch.
                    Inr (\<lparr>p_line = lsp_line, p_character = ch\<rparr>, a')))))"

definition buxn_ls_convert_range ::
    "utf8_iterate \<Rightarrow> string \<Rightarrow> asm_range \<Rightarrow> analyzer \<Rightarrow> (lsp_range \<times> analyzer) outcome" where
  "buxn_ls_convert_range utf8 filename basm_range a =
     obind (buxn_ls_convert_position utf8 filename (ar_start basm_range) a) (\<lambda>(s, a1).
     obind (buxn_ls_convert_position utf8 filename (ar_end basm_range) a1) (\<lambda>(e, a2).
     Inr (\<lparr>r_start = s, r_end = e\<rparr>, a2)))"

definition buxn_ls_convert_region ::
    "utf8_iterate \<Rightarrow> asm_region \<Rightarrow> analyzer \<Rightarrow> (lsp_location \<times> analyzer) outcome" where
  "buxn_ls_convert_region utf8 basm_region a =
     (let filename = cp_text (rg_filename basm_region)
      in obind (buxn_ls_convert_range utf8 filename (rg_range basm_region) a) (\<lambda>(rng, a').
         let uri = (case bhash_get (cx_sources (an_current a')) filename of
                      Some n \<Rightarrow> Some (sn_uri (cx_src_nodes (an_current a') ! n))
                    | None \<Rightarrow> None)
         in Inr (\<lparr>l_uri = uri, l_range = rng\<rparr>, a')))"

section \<open>Source nodes and the queue\<close>

definition file_uri :: "buxn_ls_workspace \<Rightarrow> string \<Rightarrow> string" where
  "file_uri workspace filename = ''file://'' @ root_dir workspace @ filename"

definition buxn_ls_alloc_node :: "buxn_ls_workspace \<Rightarrow> string \<Rightarrow> analyzer_ctx \<Rightarrow> nat \<times> analyzer_ctx" where
  "buxn_ls_alloc_node workspace filename cx =
     (let uri = file_uri workspace filename
      in alloc_src \<lparr>sn_filename = drop (length ''file://'' + root_dir_len workspace) uri,
           sn_uri = uri, sn_references = [], sn_definitions = [], sn_analyzed = False\<rparr> cx)"

definition put_source :: "bhash_layout \<Rightarrow> nat \<Rightarrow> analyzer_ctx \<Rightarrow> analyzer_ctx" where
  "put_source lay n cx = cx\<lparr>cx_sources := bhash_put lay (cx_sources cx) (sn_filename (cx_src_nodes cx ! n)) n\<rparr>"

definition buxn_ls_do_queue_file ::
    "bhash_layout \<Rightarrow> buxn_ls_workspace \<Rightarrow> string \<Rightarrow> analyzer \<Rightarrow> analyzer" where
  "buxn_ls_do_queue_file lay workspace filename a =
     (case buxn_ls_alloc_node workspace filename (an_current a) of
        (n, cx) \<Rightarrow> a\<lparr>an_current := put_source lay n cx, an_queue := an_queue a @ [n]\<rparr>)"

text \<open>
  The two recursive walks over the graph of the previous run. The fuel is the depth of the
  recursion: one more than the number of nodes, so that running out of it means that the recursion
  met a node twice on its way down, and then the C recursion never returns.
\<close>

fun buxn_ls_maybe_queue_node ::
    "nat \<Rightarrow> bhash_layout \<Rightarrow> buxn_ls_workspace \<Rightarrow> nat \<Rightarrow> analyzer \<Rightarrow> analyzer outcome" where
  "buxn_ls_maybe_queue_node 0 lay workspace node a = Inl Stack_overflow"
| "buxn_ls_maybe_queue_node (Suc depth) lay workspace node a =
     (let filename = sn_filename (cx_src_nodes (an_previous a) ! node)
      in if bhash_has (cx_sources (an_current a)) filename then Inr a
         else
           (let a1 = (if bhash_has (docs workspace) filename
                      then buxn_ls_do_queue_file lay workspace filename a else a)
            in ofold (\<lambda>child. buxn_ls_maybe_queue_node depth lay workspace child)
                 (out_nodes (cx_src_graph (an_previous a)) node) a1))"

fun buxn_ls_queue_from_root ::
    "nat \<Rightarrow> nat \<Rightarrow> bhash_layout \<Rightarrow> buxn_ls_workspace \<Rightarrow> nat \<Rightarrow> analyzer \<Rightarrow> analyzer outcome" where
  "buxn_ls_queue_from_root 0 depth lay workspace node a = Inl Stack_overflow"
| "buxn_ls_queue_from_root (Suc climb) depth lay workspace node a =
     (if in_edges (g_nodes (cx_src_graph (an_previous a)) ! node) \<noteq> None
      then ofold (\<lambda>parent. buxn_ls_queue_from_root climb depth lay workspace parent)
             (in_nodes (cx_src_graph (an_previous a)) node) a
      else buxn_ls_maybe_queue_node depth lay workspace node a)"

section \<open>Symbols and annotations\<close>

definition buxn_ls_make_sym_node :: "utf8_iterate \<Rightarrow> asm_sym \<Rightarrow> analyzer \<Rightarrow> (nat \<times> analyzer) outcome" where
  "buxn_ls_make_sym_node utf8 symb a =
     (let filename = cp_text (rg_filename (as_region symb))
      in case bhash_get (cx_sources (an_current a)) filename of
           None \<Rightarrow> Inl Assertion_failed
         | Some src \<Rightarrow>
             obind (buxn_ls_convert_range utf8 filename (rg_range (as_region symb)) a) (\<lambda>(rng, a').
             case alloc_sym \<lparr>sy_name = as_name symb, sy_documentation = [], sy_signature = [],
                 sy_source = src, sy_type = as_type symb, sy_semantics = BUXN_LS_SYMBOL_AS_VARIABLE,
                 sy_byte_offset = ap_byte (ar_start (rg_range (as_region symb))), sy_range = rng,
                 sy_address = 0\<rparr> (an_current a') of
               (n, cx) \<Rightarrow> Inr (n, a'\<lparr>an_current := cx\<rparr>)))"

text \<open>Pointers to the start and the end of the region must lie in the file.\<close>

definition buxn_ls_slice_file :: "analyzer \<Rightarrow> asm_region \<Rightarrow> string outcome" where
  "buxn_ls_slice_file a region =
     (case bhash_get (an_files a) (cp_text (rg_filename region)) of
        None \<Rightarrow> Inr []
      | Some file \<Rightarrow>
          (let s = ap_byte (ar_start (rg_range region)); e = ap_byte (ar_end (rg_range region))
           in if 0 \<le> s \<and> s \<le> e \<and> e \<le> int (length (f_content file))
              then Inr (take (nat (e - s)) (drop (nat s) (f_content file)))
              else Inl Out_of_bounds))"

definition current_sym :: "asm_ctx \<Rightarrow> nat outcome" where
  "current_sym ctx =
     (case ac_current_sym_node ctx of None \<Rightarrow> Inl Null_deref | Some n \<Rightarrow> Inr n)"

definition buxn_ls_handle_annotation ::
    "anno_call \<Rightarrow> analyzer \<times> asm_ctx \<Rightarrow> (analyzer \<times> asm_ctx) outcome" where
  "buxn_ls_handle_annotation call s =
     (case s of (a, ctx) \<Rightarrow>
      (case ac_annotation call of
         Some annotation \<Rightarrow>
           (let fname = cp_text (rg_filename (ac_region call))
            in case bhash_get (an_files a) fname of
                 None \<Rightarrow> Inl Assertion_failed
               | Some file \<Rightarrow>
                   if annotation = 0 then
                     obind (current_sym ctx) (\<lambda>n.
                     obind (buxn_ls_slice_file a (ac_region call)) (\<lambda>doc.
                     Inr (upd_current (upd_sym n (\<lambda>sy. sy\<lparr>sy_documentation := doc\<rparr>)) a, ctx)))
                   else if annotation = 1 then
                     Inr (a\<lparr>an_files := bhash_set (an_files a) fname
                       (file\<lparr>f_zero_page_semantics := BUXN_LS_SYMBOL_AS_DEVICE_PORT\<rparr>)\<rparr>, ctx)
                   else if annotation = 2 then
                     Inr (a\<lparr>an_files := bhash_set (an_files a) fname
                       (file\<lparr>f_zero_page_semantics := BUXN_LS_SYMBOL_AS_VARIABLE\<rparr>)\<rparr>, ctx)
                   else if annotation = 3 then
                     obind (current_sym ctx) (\<lambda>n.
                     Inr (upd_current (upd_sym n (\<lambda>sy. sy\<lparr>sy_semantics := BUXN_LS_SYMBOL_AS_ENUM\<rparr>)) a,
                       ctx\<lparr>ac_enum_scope :=
                         buxn_ls_label_scope (sy_name (cx_sym_nodes (an_current a) ! n))\<rparr>))
                   else Inr (a, ctx))
       | None \<Rightarrow>
           obind (current_sym ctx) (\<lambda>n.
           obind (buxn_ls_slice_file a (ac_region call)) (\<lambda>sig.
           Inr (upd_current (upd_sym n (\<lambda>sy. sy\<lparr>sy_semantics := BUXN_LS_SYMBOL_AS_SUBROUTINE,
             sy_signature := sig\<rparr>)) a, ctx)))))"

section \<open>Callbacks of the assembler: symbols and ROM\<close>

definition same_symbol :: "asm_sym \<Rightarrow> asm_sym option \<Rightarrow> bool" where
  "same_symbol symb previous =
     (case previous of
        None \<Rightarrow> False
      | Some prev \<Rightarrow>
          as_type symb = as_type prev \<and> as_id symb = as_id prev \<and>
          cp_addr (rg_filename (as_region symb)) = cp_addr (rg_filename (as_region prev)) \<and>
          ap_byte (ar_start (rg_range (as_region symb))) = ap_byte (ar_start (rg_range (as_region prev))) \<and>
          ap_byte (ar_end (rg_range (as_region symb))) = ap_byte (ar_end (rg_range (as_region prev))))"

definition push_definition :: "nat \<Rightarrow> analyzer \<Rightarrow> analyzer" where
  "push_definition n a =
     upd_current (upd_src (sy_source (cx_sym_nodes (an_current a) ! n))
       (\<lambda>sn. sn\<lparr>sn_definitions := n # sn_definitions sn\<rparr>)) a"

text \<open>The label branch: the address, and on the zero page the enum scope or the file's semantics.\<close>

definition put_label ::
    "bhash_layout \<Rightarrow> u16 \<Rightarrow> asm_sym \<Rightarrow> ls_file \<Rightarrow> nat \<Rightarrow> analyzer \<times> asm_ctx \<Rightarrow> analyzer \<times> asm_ctx" where
  "put_label lay addr symb file n s =
     (case s of (a, ctx) \<Rightarrow>
        (let a1 = upd_current (upd_sym n (\<lambda>sy. sy\<lparr>sy_address := addr\<rparr>)) a;
             scope = buxn_ls_label_scope (sy_name (cx_sym_nodes (an_current a1) ! n));
             (a2, ctx2) =
               (if addr \<le> 0x00ff then
                  (if length (ac_enum_scope ctx) > 0 \<and> buxn_ls_cstr_eq scope (ac_enum_scope ctx)
                   then (upd_current (upd_sym n (\<lambda>sy. sy\<lparr>sy_semantics := BUXN_LS_SYMBOL_AS_ENUM\<rparr>)) a1, ctx)
                   else (upd_current (upd_sym n (\<lambda>sy. sy\<lparr>sy_semantics := f_zero_page_semantics file\<rparr>)) a1,
                         ctx\<lparr>ac_enum_scope := []\<rparr>))
                else (a1, ctx))
         in (a2\<lparr>an_label_defs := bhash_put lay (an_label_defs a2) (word_of_nat (as_id symb)) n\<rparr>, ctx2)))"

definition put_macro :: "nat \<Rightarrow> analyzer \<times> asm_ctx \<Rightarrow> analyzer \<times> asm_ctx" where
  "put_macro n s =
     (case s of (a, ctx) \<Rightarrow>
        (let a1 = upd_current (upd_sym n (\<lambda>sy. sy\<lparr>sy_semantics := BUXN_LS_SYMBOL_AS_SUBROUTINE\<rparr>)) a
         in (a1\<lparr>an_macro_defs := an_macro_defs a1 @ [n]\<rparr>, ctx)))"

definition put_definition ::
    "asm_api \<Rightarrow> u16 \<Rightarrow> asm_sym \<Rightarrow> analyzer \<times> asm_ctx \<Rightarrow> (analyzer \<times> asm_ctx) outcome" where
  "put_definition api addr symb s =
     (case s of (a, ctx) \<Rightarrow>
        (let fname = cp_text (rg_filename (as_region symb));
             byte = ap_byte (ar_start (rg_range (as_region symb)))
         in case bhash_get (an_files a) fname of
              None \<Rightarrow> Inl Assertion_failed
            | Some file \<Rightarrow>
                (let file1 = (if byte > f_last_symbol_byte file
                              then file\<lparr>f_last_symbol_byte := byte\<rparr> else file);
                     a1 = a\<lparr>an_files := bhash_set (an_files a) fname file1\<rparr>
                 in if as_name_is_generated symb then Inr (a1, ctx)
                    else obind (buxn_ls_make_sym_node (aa_utf8 api) symb a1) (\<lambda>(n, a2).
                      let a3 = push_definition n a2;
                          (a4, ctx4) =
                            (if as_type symb = BUXN_ASM_SYM_LABEL
                             then put_label (aa_layout api) addr symb file1 n (a3, ctx)
                             else put_macro n (a3, ctx))
                      in Inr (a4, ctx4\<lparr>ac_current_sym_node := Some n\<rparr>)))))"

definition buxn_asm_put_symbol ::
    "asm_api \<Rightarrow> u16 \<Rightarrow> asm_sym \<Rightarrow> analyzer \<times> asm_ctx \<Rightarrow> (analyzer \<times> asm_ctx) outcome" where
  "buxn_asm_put_symbol api addr symb s =
     (case s of (a, ctx0) \<Rightarrow>
        (let ctx = ctx0\<lparr>ac_chess_syms := ac_chess_syms ctx0 @ [(addr, symb)]\<rparr>
         in if same_symbol symb (ac_previous_sym ctx) then Inr (a, ctx)
            else obind
              (case as_type symb of
                 BUXN_ASM_SYM_MACRO \<Rightarrow> put_definition api addr symb (a, ctx)
               | BUXN_ASM_SYM_LABEL \<Rightarrow> put_definition api addr symb (a, ctx)
               | BUXN_ASM_SYM_MACRO_REF \<Rightarrow> Inr (a\<lparr>an_references := an_references a @ [symb]\<rparr>, ctx)
               | BUXN_ASM_SYM_LABEL_REF \<Rightarrow> Inr (a\<lparr>an_references := an_references a @ [symb]\<rparr>, ctx)
               | Asm_sym_other t \<Rightarrow> Inr (a, ctx))
              (\<lambda>(a1, ctx1).
                let ctx2 = ctx1\<lparr>ac_previous_sym := Some symb,
                      ac_anno_syms := ac_anno_syms ctx1 @ [(addr, symb)]\<rparr>
                in ofold buxn_ls_handle_annotation (aa_anno api (ac_anno_syms ctx2)) (a1, ctx2))))"

text \<open>The ROM array has \<open>UINT16_MAX + 1 - 256\<close> bytes.\<close>

definition rom_size :: nat where "rom_size = 65280"

definition buxn_asm_put_rom :: "u16 \<Rightarrow> u8 \<Rightarrow> asm_ctx \<Rightarrow> asm_ctx outcome" where
  "buxn_asm_put_rom addr val ctx =
     (let i = int (unat addr) - 256
      in if 0 \<le> i \<and> i < int rom_size
         then Inr (ctx\<lparr>ac_rom := (ac_rom ctx)(nat i := val), ac_rom_is_empty := False\<rparr>)
         else Inl Out_of_bounds)"

definition buxn_chess_get_rom :: "u16 \<Rightarrow> asm_ctx \<Rightarrow> u8 outcome" where
  "buxn_chess_get_rom addr ctx =
     (let i = int (unat addr) - 256
      in if 0 \<le> i \<and> i < int rom_size then Inr (ac_rom ctx (nat i)) else Inl Out_of_bounds)"

section \<open>Callbacks of the assembler: messages\<close>

definition mark_error :: "string \<Rightarrow> analyzer \<Rightarrow> analyzer" where
  "mark_error filename a =
     (case bhash_get (an_files a) filename of
        None \<Rightarrow> a
      | Some file \<Rightarrow> a\<lparr>an_files := bhash_set (an_files a) filename (file\<lparr>f_has_error := True\<rparr>)\<rparr>)"

definition zero_location :: lsp_location where
  "zero_location = \<lparr>l_uri = None, l_range = \<lparr>r_start = \<lparr>p_line = 0, p_character = 0\<rparr>,
     r_end = \<lparr>p_line = 0, p_character = 0\<rparr>\<rparr>\<rparr>"

text \<open>The related message is kept where it is about the same file, by address of the name.\<close>

definition add_related ::
    "utf8_iterate \<Rightarrow> asm_report \<Rightarrow> diagnostic \<times> analyzer \<Rightarrow> (diagnostic \<times> analyzer) outcome" where
  "add_related utf8 report s =
     (case s of (diag, a) \<Rightarrow>
        (case rp_related_message report of
           None \<Rightarrow> Inr (diag, a)
         | Some msg \<Rightarrow>
             (case rp_related_region report of
                None \<Rightarrow> Inl Null_deref
              | Some related \<Rightarrow>
                  if cp_addr (rg_filename related) = cp_addr (rg_filename (rp_region report))
                  then obind (buxn_ls_convert_region utf8 (rp_region report) a) (\<lambda>(loc, a').
                    Inr (diag\<lparr>dg_related_location := loc, dg_related_message := Some msg\<rparr>, a'))
                  else Inr (diag, a))))"

definition push_diagnostic :: "diagnostic \<Rightarrow> analyzer \<Rightarrow> analyzer" where
  "push_diagnostic diag a = a\<lparr>an_diagnostics := an_diagnostics a @ [diag]\<rparr>"

definition buxn_asm_report ::
    "utf8_iterate \<Rightarrow> asm_report_type \<Rightarrow> asm_report \<Rightarrow> analyzer \<Rightarrow> analyzer outcome" where
  "buxn_asm_report utf8 type report a =
     (if ap_line (ar_start (rg_range (rp_region report))) = 0 then Inr a
      else
        (let a1 = (if type = BUXN_ASM_REPORT_ERROR
                   then mark_error (cp_text (rg_filename (rp_region report))) a else a)
         in obind (buxn_ls_convert_region utf8 (rp_region report) a1) (\<lambda>(loc, a2).
            let diag = \<lparr>dg_location = loc, dg_related_location = zero_location, dg_severity = 0,
                  dg_source = ''buxn-asm'', dg_message = rp_message report, dg_related_message = None\<rparr>;
                diag1 = diag\<lparr>dg_severity :=
                  (case type of
                     BUXN_ASM_REPORT_WARNING \<Rightarrow> BIO_LSP_DIAGNOSTIC_WARNING
                   | BUXN_ASM_REPORT_ERROR \<Rightarrow> BIO_LSP_DIAGNOSTIC_ERROR
                   | Asm_report_other t \<Rightarrow> BIO_LSP_DIAGNOSTIC_INFORMATION)\<rparr>
            in obind (add_related utf8 report (diag1, a2)) (\<lambda>(diag2, a3).
               Inr (push_diagnostic diag2 a3)))))"

text \<open>\<open>diag\<close> is assigned as a whole after its severity was set.\<close>

definition buxn_chess_report ::
    "utf8_iterate \<Rightarrow> nat option \<Rightarrow> chess_report_type \<Rightarrow> asm_report \<Rightarrow> analyzer \<Rightarrow> analyzer outcome" where
  "buxn_chess_report utf8 trace_id type report a =
     (if ap_line (ar_start (rg_range (rp_region report))) = 0 then Inr a
      else
        (let zero_diag = \<lparr>dg_location = zero_location, dg_related_location = zero_location,
               dg_severity = 0, dg_source = [], dg_message = [], dg_related_message = None\<rparr>;
             with_severity = (\<lambda>sev.
               let diag = zero_diag\<lparr>dg_severity := sev\<rparr>;
                   a1 = (if type = BUXN_CHESS_REPORT_ERROR
                         then mark_error (cp_text (rg_filename (rp_region report))) a else a)
               in obind (buxn_ls_convert_region utf8 (rp_region report) a1) (\<lambda>(loc, a2).
                  let diag1 = zero_diag\<lparr>dg_location := loc,
                        dg_message :=
                          (case trace_id of
                             Some t \<Rightarrow> ''['' @ decimal t @ ''] '' @ rp_message report
                           | None \<Rightarrow> rp_message report),
                        dg_source := ''buxn-chess''\<rparr>
                  in obind (add_related utf8 report (diag1, a2)) (\<lambda>(diag2, a3).
                     Inr (push_diagnostic diag2 a3))))
         in case type of
              BUXN_CHESS_REPORT_WARNING \<Rightarrow> with_severity BIO_LSP_DIAGNOSTIC_WARNING
            | BUXN_CHESS_REPORT_ERROR \<Rightarrow> with_severity BIO_LSP_DIAGNOSTIC_ERROR
            | Chess_report_other t \<Rightarrow> Inr a))"

definition buxn_chess_deo ::
    "utf8_iterate \<Rightarrow> nat \<Rightarrow> chess_vm_state \<Rightarrow> u8 \<Rightarrow> u8 \<Rightarrow> analyzer \<Rightarrow> analyzer outcome" where
  "buxn_chess_deo utf8 trace_id state val port a =
     (if port = 0x0e \<and> val = 0x2b then
        obind (buxn_ls_convert_region utf8 (vm_src_region state) a) (\<lambda>(loc, a1).
          Inr (push_diagnostic \<lparr>dg_location = loc, dg_related_location = zero_location,
            dg_severity = BIO_LSP_DIAGNOSTIC_INFORMATION, dg_source = ''buxn-chess'',
            dg_message = ''['' @ decimal trace_id @ ''] Stack:'' @ [LF] @
              ''WST('' @ decimal (vm_wst_size state) @ ''):'' @ vm_wst_str state @ [LF] @
              ''RST('' @ decimal (vm_rst_size state) @ ''):'' @ vm_rst_str state,
            dg_related_message = None\<rparr> a1))
      else Inr a)"

section \<open>Callbacks of the assembler: files\<close>

text \<open>The contents of a file: those already read, those of the open document, or those on disk,
  whose path is cut to the 1023 characters that \<open>full_path\<close> holds.\<close>

definition file_content :: "asm_api \<Rightarrow> buxn_ls_workspace \<Rightarrow> string \<Rightarrow> analyzer \<Rightarrow> string option" where
  "file_content api workspace filename a =
     (case bhash_get (an_files a) filename of
        Some file \<Rightarrow> Some (f_content file)
      | None \<Rightarrow>
          (case bhash_get (docs workspace) filename of
             Some content \<Rightarrow> Some content
           | None \<Rightarrow> aa_read_file api (take 1023 (root_dir workspace @ filename))))"

definition new_file :: "string \<Rightarrow> ls_file" where
  "new_file content = \<lparr>f_content = content, f_zero_page_semantics = BUXN_LS_SYMBOL_AS_VARIABLE,
     f_first_line_index = -1, f_num_lines = 0, f_last_symbol_byte = 0, f_has_error = False\<rparr>"

definition buxn_asm_fopen ::
    "asm_api \<Rightarrow> buxn_ls_workspace \<Rightarrow> string \<Rightarrow> analyzer \<times> asm_ctx \<Rightarrow> nat option \<times> analyzer \<times> asm_ctx" where
  "buxn_asm_fopen api workspace filename s =
     (case s of (a, ctx) \<Rightarrow>
        (case file_content api workspace filename a of
           None \<Rightarrow> (None, a, ctx)
         | Some content \<Rightarrow>
             (let a1 = (if bhash_has (an_files a) filename then a
                        else a\<lparr>an_files :=
                          bhash_put (aa_layout api) (an_files a) filename (new_file content)\<rparr>);
                  handle = length (ac_handles ctx);
                  ctx1 = ctx\<lparr>ac_handles := ac_handles ctx @ [Some (content, 0)]\<rparr>;
                  cx = an_current a1;
                  (node, cx1) =
                    (case bhash_get (cx_sources cx) filename of
                       Some n \<Rightarrow> (n, cx)
                     | None \<Rightarrow>
                         (case buxn_ls_alloc_node workspace filename cx of
                            (n, cx') \<Rightarrow> (n, put_source (aa_layout api) n cx')));
                  cx2 = upd_src node (\<lambda>sn. sn\<lparr>sn_analyzed := True\<rparr>) cx1;
                  cx3 = (if node \<noteq> ac_entry_node ctx
                         then cx2\<lparr>cx_src_graph :=
                           buxn_ls_graph_add_edge (cx_src_graph cx2) (ac_entry_node ctx) node\<rparr>
                         else cx2)
              in (Some handle, a1\<lparr>an_current := cx3\<rparr>, ctx1))))"

definition buxn_asm_fclose :: "nat \<Rightarrow> asm_ctx \<Rightarrow> asm_ctx outcome" where
  "buxn_asm_fclose h ctx =
     (if h < length (ac_handles ctx) \<and> ac_handles ctx ! h \<noteq> None
      then Inr (ctx\<lparr>ac_handles := (ac_handles ctx)[h := None]\<rparr>) else Inl Use_after_free)"

definition EOF :: int where "EOF = -1"

text \<open>\<open>(int)\<close> of a \<open>char\<close>, which is signed on the platforms the program is built for (x86-64).\<close>

definition char_to_int :: "char \<Rightarrow> int" where
  "char_to_int c = (let n = int (of_char c) in if n < 128 then n else n - 256)"

definition buxn_asm_fgetc :: "nat \<Rightarrow> asm_ctx \<Rightarrow> (int \<times> asm_ctx) outcome" where
  "buxn_asm_fgetc h ctx =
     (if h < length (ac_handles ctx) then
        (case ac_handles ctx ! h of
           None \<Rightarrow> Inl Use_after_free
         | Some (content, offset) \<Rightarrow>
             if offset < length content
             then Inr (char_to_int (content ! offset),
                       ctx\<lparr>ac_handles := (ac_handles ctx)[h := Some (content, Suc offset)]\<rparr>)
             else Inr (EOF, ctx))
      else Inl Use_after_free)"

section \<open>Running the assembler\<close>

definition handle_call ::
    "asm_api \<Rightarrow> buxn_ls_workspace \<Rightarrow> asm_call \<Rightarrow> analyzer \<times> asm_ctx \<Rightarrow>
     (asm_resp \<times> analyzer \<times> asm_ctx) outcome" where
  "handle_call api workspace call s =
     (case s of (a, ctx) \<Rightarrow>
      (case call of
         Asm_fopen filename \<Rightarrow>
           (case buxn_asm_fopen api workspace (cp_text filename) s of
              (h, s') \<Rightarrow> Inr (Resp_handle h, s'))
       | Asm_fgetc h \<Rightarrow> obind (buxn_asm_fgetc h ctx) (\<lambda>(c, ctx'). Inr (Resp_int c, a, ctx'))
       | Asm_fclose h \<Rightarrow> obind (buxn_asm_fclose h ctx) (\<lambda>ctx'. Inr (Resp_unit, a, ctx'))
       | Asm_put_rom addr v \<Rightarrow> obind (buxn_asm_put_rom addr v ctx) (\<lambda>ctx'. Inr (Resp_unit, a, ctx'))
       | Asm_put_symbol addr symb \<Rightarrow>
           obind (buxn_asm_put_symbol api addr symb s) (\<lambda>s'. Inr (Resp_unit, s'))
       | Asm_report_msg type report \<Rightarrow>
           obind (buxn_asm_report (aa_utf8 api) type report a) (\<lambda>a'. Inr (Resp_unit, a', ctx))
       | Chess_get_rom addr \<Rightarrow> obind (buxn_chess_get_rom addr ctx) (\<lambda>b. Inr (Resp_byte b, a, ctx))
       | Chess_report_msg trace type report \<Rightarrow>
           obind (buxn_chess_report (aa_utf8 api) trace type report a) (\<lambda>a'. Inr (Resp_unit, a', ctx))
       | Chess_deo trace state v port \<Rightarrow>
           obind (buxn_chess_deo (aa_utf8 api) trace state v port a) (\<lambda>a'. Inr (Resp_unit, a', ctx))))"

primrec run_calls ::
    "asm_api \<Rightarrow> buxn_ls_workspace \<Rightarrow> asm_run \<Rightarrow> analyzer \<times> asm_ctx \<Rightarrow>
     (bool \<times> analyzer \<times> asm_ctx) outcome" where
  "run_calls api workspace (Done r) s = Inr (r, s)"
| "run_calls api workspace (Call call k) s =
     obind (handle_call api workspace call s) (\<lambda>(resp, s'). run_calls api workspace (k resp) s')"

end
