(* ===== verification/Analyze_Run.thy ===== *)
theory Analyze_Run
  imports Analyze
begin

text \<open>
  \<open>buxn_ls_analyze\<close> (\<open>src/src/analyze.c\<close>): the exchange of the two contexts, the queue of files to
  compile, one run of the assembler per queued file that no earlier run has opened, the symbols
  carried forward from the previous run for files with errors, the connection of references to
  definitions, and the sorting of the diagnostics.
\<close>

section \<open>Queueing the open documents\<close>

definition swap_contexts :: "analyzer \<Rightarrow> analyzer" where
  "swap_contexts a = a\<lparr>an_current := empty_ctx, an_previous := an_current a, an_queue := []\<rparr>"

definition walk_fuel :: "analyzer \<Rightarrow> nat" where
  "walk_fuel a = Suc (g_size (cx_src_graph (an_previous a)))"

definition queue_doc ::
    "bhash_layout \<Rightarrow> buxn_ls_workspace \<Rightarrow> string \<Rightarrow> analyzer \<Rightarrow> analyzer outcome" where
  "queue_doc lay workspace filename a =
     (if bhash_has (cx_sources (an_current a)) filename then Inr a
      else case bhash_get (cx_sources (an_previous a)) filename of
             Some node \<Rightarrow>
               buxn_ls_queue_from_root (walk_fuel a) (walk_fuel a) lay workspace node a
           | None \<Rightarrow> Inr (buxn_ls_do_queue_file lay workspace filename a))"

definition queue_docs :: "bhash_layout \<Rightarrow> buxn_ls_workspace \<Rightarrow> analyzer \<Rightarrow> analyzer outcome" where
  "queue_docs lay workspace a = ofold (queue_doc lay workspace) (bhash_keys (docs workspace)) a"

section \<open>Symbols carried forward\<close>

definition copy_symbol :: "nat \<Rightarrow> sym_node \<Rightarrow> analyzer \<Rightarrow> analyzer" where
  "copy_symbol current_src sy a =
     (case alloc_sym (sy\<lparr>sy_source := current_src\<rparr>) (an_current a) of
        (n, cx) \<Rightarrow>
          a\<lparr>an_current := upd_src current_src
              (\<lambda>sn. sn\<lparr>sn_definitions := n # sn_definitions sn\<rparr>) cx\<rparr>)"

definition bring_file_forward :: "string \<times> ls_file \<Rightarrow> analyzer \<Rightarrow> analyzer" where
  "bring_file_forward entry a =
     (case entry of (filename, file) \<Rightarrow>
        if \<not> f_has_error file then a
        else (case bhash_get (cx_sources (an_previous a)) filename of
                None \<Rightarrow> a
              | Some previous_src \<Rightarrow>
                  (case bhash_get (cx_sources (an_current a)) filename of
                     None \<Rightarrow> a
                   | Some current_src \<Rightarrow>
                       fold (\<lambda>n a.
                           let sy = cx_sym_nodes (an_previous a) ! n
                           in if sy_byte_offset sy \<le> f_last_symbol_byte file then a
                              else copy_symbol current_src sy a)
                         (sn_definitions (cx_src_nodes (an_previous a) ! previous_src)) a)))"

definition bring_forward :: "analyzer \<Rightarrow> analyzer" where
  "bring_forward a = fold bring_file_forward (an_files a) a"

section \<open>References\<close>

definition find_def_node :: "asm_sym \<Rightarrow> analyzer \<Rightarrow> nat option outcome" where
  "find_def_node symb a =
     (case as_type symb of
        BUXN_ASM_SYM_MACRO_REF \<Rightarrow>
          (let i = int (as_id symb) - 1
           in if 0 \<le> i \<and> i < int (length (an_macro_defs a)) then Inr (Some (an_macro_defs a ! nat i))
              else Inl Out_of_bounds)
      | BUXN_ASM_SYM_LABEL_REF \<Rightarrow> Inr (bhash_get (an_label_defs a) (word_of_nat (as_id symb)))
      | _ \<Rightarrow> Inr None)"

definition connect_reference :: "utf8_iterate \<Rightarrow> asm_sym \<Rightarrow> analyzer \<Rightarrow> analyzer outcome" where
  "connect_reference utf8 symb a =
     obind (find_def_node symb a) (\<lambda>def_node.
       case def_node of
         None \<Rightarrow> Inr a
       | Some d \<Rightarrow>
           obind (buxn_ls_make_sym_node utf8 symb a) (\<lambda>(n, a1).
           let src = sy_source (cx_sym_nodes (an_current a1) ! n);
               cx1 = upd_src src (\<lambda>sn. sn\<lparr>sn_references := n # sn_references sn\<rparr>) (an_current a1);
               cx2 = cx1\<lparr>cx_sym_graph := buxn_ls_graph_add_edge (cx_sym_graph cx1) n d\<rparr>
           in Inr (a1\<lparr>an_current := cx2\<rparr>)))"

definition connect_references :: "utf8_iterate \<Rightarrow> analyzer \<Rightarrow> analyzer outcome" where
  "connect_references utf8 a = ofold (connect_reference utf8) (an_references a) a"

section \<open>One file of the queue\<close>

text \<open>The fields that the initialiser of \<open>ctx\<close> does not name are zero: \<open>rom_is_empty\<close> is false.\<close>

definition init_asm_ctx :: "nat \<Rightarrow> asm_ctx" where
  "init_asm_ctx node = \<lparr>ac_entry_node = node, ac_previous_sym = None, ac_enum_scope = [],
     ac_current_sym_node = None, ac_chess_syms = [], ac_anno_syms = [], ac_rom_is_empty = False,
     ac_rom = (\<lambda>i. 0), ac_handles = []\<rparr>"

definition clear_run :: "analyzer \<Rightarrow> analyzer" where
  "clear_run a = a\<lparr>an_macro_defs := [], an_label_defs := [], an_references := []\<rparr>"

definition run_assembler ::
    "asm_api \<Rightarrow> buxn_ls_workspace \<Rightarrow> nat \<Rightarrow> analyzer \<Rightarrow> (analyzer \<times> asm_ctx) outcome" where
  "run_assembler api workspace node a =
     obind (run_calls api workspace
         (aa_asm api (sn_filename (cx_src_nodes (an_current a) ! node))) (a, init_asm_ctx node))
       (\<lambda>(success, a1, ctx1).
         if success \<and> \<not> ac_rom_is_empty ctx1
         then obind (run_calls api workspace (aa_chess_end api (ac_chess_syms ctx1)) (a1, ctx1))
                (\<lambda>(r, s). Inr s)
         else Inr (a1, ctx1))"

definition analyze_node ::
    "asm_api \<Rightarrow> buxn_ls_workspace \<Rightarrow> nat \<Rightarrow> analyzer \<Rightarrow> analyzer outcome" where
  "analyze_node api workspace node a =
     (if sn_analyzed (cx_src_nodes (an_current a) ! node) then Inr a
      else obind (run_assembler api workspace node (clear_run a)) (\<lambda>(a1, ctx1).
           connect_references (aa_utf8 api) (bring_forward a1)))"

section \<open>The whole analysis\<close>

text \<open>The comparison reads both URIs: \<open>qsort\<close> calls it on every element of an array of two or more, and
  a URI that is \<open>NULL\<close> is a fault then.\<close>

definition buxn_ls_cmp_diagnostic :: "diagnostic \<Rightarrow> diagnostic \<Rightarrow> int" where
  "buxn_ls_cmp_diagnostic lhs rhs =
     (case (l_uri (dg_location lhs), l_uri (dg_location rhs)) of
        (Some u, Some v) \<Rightarrow> strcmp u v
      | _ \<Rightarrow> 0)"

definition sort_diagnostics :: "asm_api \<Rightarrow> analyzer \<Rightarrow> analyzer outcome" where
  "sort_diagnostics api a =
     (if length (an_diagnostics a) > 1 \<and> (\<exists>d \<in> set (an_diagnostics a). l_uri (dg_location d) = None)
      then Inl Null_deref
      else if length (an_diagnostics a) > 0
      then Inr (a\<lparr>an_diagnostics := aa_qsort api buxn_ls_cmp_diagnostic (an_diagnostics a)\<rparr>)
      else Inr a)"

definition buxn_ls_analyze ::
    "asm_api \<Rightarrow> buxn_ls_workspace \<Rightarrow> analyzer \<Rightarrow> analyzer outcome" where
  "buxn_ls_analyze api workspace a =
     obind (queue_docs (aa_layout api) workspace (swap_contexts a)) (\<lambda>a1.
     let a2 = a1\<lparr>an_lines := [], an_files := [], an_diagnostics := []\<rparr>
     in obind (ofold (analyze_node api workspace) (an_queue a2) a2) (\<lambda>a3.
        sort_diagnostics api a3))"

end
