(* ===== verification/Analyze_Inv.thy ===== *)
theory Analyze_Inv
  imports Analyze_Run
begin

text \<open>
  The invariants of the analyzer's contexts, and what the operations leave alone.

  \<open>src_inv\<close>: the table of sources and the arena of source nodes describe each other, and the graph
  has one node per source node. \<open>entries_inv P\<close>: every include edge starts at one of the files
  \<open>P\<close> that the assembler was started on, in the order of \<open>P\<close>, and leads to a file that was not
  started on later; so the graph has no cycle (\<open>ranked\<close>).
\<close>

section \<open>Well-formed contexts\<close>

definition src_inv :: "analyzer_ctx \<Rightarrow> bool" where
  "src_inv cx \<longleftrightarrow>
     bhash_inv (cx_sources cx) \<and>
     graph_inv (cx_src_graph cx) \<and>
     g_size (cx_src_graph cx) = length (cx_src_nodes cx) \<and>
     (\<forall>f n. bhash_get (cx_sources cx) f = Some n \<longleftrightarrow>
        n < length (cx_src_nodes cx) \<and> sn_filename (cx_src_nodes cx ! n) = f)"

definition fname :: "analyzer_ctx \<Rightarrow> nat \<Rightarrow> string" where
  "fname cx n = sn_filename (cx_src_nodes cx ! n)"

definition src_size :: "analyzer_ctx \<Rightarrow> nat" where
  "src_size cx = length (cx_src_nodes cx)"

definition src_keys :: "analyzer_ctx \<Rightarrow> string set" where
  "src_keys cx = set (bhash_keys (cx_sources cx))"

definition src_edges :: "analyzer_ctx \<Rightarrow> (nat \<times> nat) set" where
  "src_edges cx = set (pairs (cx_src_graph cx))"

lemma src_invD:
  assumes "src_inv cx"
  shows "bhash_inv (cx_sources cx)" "graph_inv (cx_src_graph cx)"
    "g_size (cx_src_graph cx) = src_size cx"
    "bhash_get (cx_sources cx) f = Some n \<longleftrightarrow> n < src_size cx \<and> fname cx n = f"
  using assms by (auto simp: src_inv_def src_size_def fname_def)

lemma src_keys_get: "f \<in> src_keys cx \<longleftrightarrow> bhash_get (cx_sources cx) f \<noteq> None"
  by (simp add: src_keys_def bhash_has_iff [symmetric] bhash_has_def)

lemma src_keys_fname: "src_inv cx \<Longrightarrow> f \<in> src_keys cx \<longleftrightarrow> (\<exists>n < src_size cx. fname cx n = f)"
  by (auto simp: src_keys_get src_invD(4))

lemma fname_inj: "src_inv cx \<Longrightarrow> n < src_size cx \<Longrightarrow> m < src_size cx \<Longrightarrow> fname cx n = fname cx m \<Longrightarrow> n = m"
  by (metis option.inject src_invD(4))

lemma src_edges_bound: "src_inv cx \<Longrightarrow> (x, y) \<in> src_edges cx \<Longrightarrow> x < src_size cx \<and> y < src_size cx"
  using gr.edges_bound [of "cx_src_graph cx" x y] by (simp add: src_edges_def src_invD)

lemma src_out_nodes: "src_inv cx \<Longrightarrow> n < src_size cx \<Longrightarrow>
    m \<in> set (out_nodes (cx_src_graph cx) n) \<longleftrightarrow> (n, m) \<in> src_edges cx"
  by (simp add: gr.in_outs src_invD src_edges_def)

lemma src_in_nodes: "src_inv cx \<Longrightarrow> n < src_size cx \<Longrightarrow>
    m \<in> set (in_nodes (cx_src_graph cx) n) \<longleftrightarrow> (m, n) \<in> src_edges cx"
  by (simp add: gr.in_ins src_invD src_edges_def)

lemma empty_ctx_inv [simp]: "src_inv empty_ctx"
  by (simp add: src_inv_def empty_ctx_def)

section \<open>Ranks\<close>

text \<open>Ranks fall along the edges and stay below the number of nodes.\<close>

definition ranks :: "(nat \<Rightarrow> nat) \<Rightarrow> analyzer_ctx \<Rightarrow> bool" where
  "ranks rk cx \<longleftrightarrow> (\<forall>(x, y) \<in> src_edges cx. rk y < rk x) \<and> (\<forall>n. rk n \<le> src_size cx)"

definition ranked :: "analyzer_ctx \<Rightarrow> bool" where
  "ranked cx \<longleftrightarrow> (\<exists>rk. ranks rk cx)"

lemma ranked_acyclic: "ranked cx \<Longrightarrow> acyclic (src_edges cx)"
proof -
  assume "ranked cx"
  then obtain rk where "\<forall>(x, y) \<in> src_edges cx. rk y < (rk x :: nat)"
    by (auto simp: ranked_def ranks_def)
  then have "(src_edges cx)\<inverse> \<subseteq> measure rk" by fastforce
  then have "wf ((src_edges cx)\<inverse>)" using wf_measure wf_subset by blast
  then have "acyclic ((src_edges cx)\<inverse>)" by (rule wf_acyclic)
  then show ?thesis by (simp add: acyclic_converse)
qed

lemma ranks_empty: "src_edges cx = {} \<Longrightarrow> ranks (\<lambda>n. 0) cx"
  by (simp add: ranks_def)

section \<open>The order of the entry files\<close>

definition entries_inv :: "nat list \<Rightarrow> analyzer_ctx \<Rightarrow> bool" where
  "entries_inv P cx \<longleftrightarrow>
     distinct P \<and> set P \<subseteq> {..<src_size cx} \<and>
     (\<forall>(x, y) \<in> src_edges cx. sn_analyzed (cx_src_nodes cx ! y) \<and>
        (\<exists>us vs. P = us @ x # vs \<and> y \<notin> set (x # vs)))"

definition entry_rank :: "nat list \<Rightarrow> nat \<Rightarrow> nat" where
  "entry_rank P n = (if n \<in> set P then Suc (length (takeWhile (\<lambda>x. x \<noteq> n) P)) else 0)"

lemma entry_rank_le: "entry_rank P n \<le> length P"
proof (cases "n \<in> set P")
  case True
  then obtain us vs where "P = us @ n # vs" "n \<notin> set us" by (meson split_list_first)
  moreover have "takeWhile (\<lambda>x. x \<noteq> n) (us @ n # vs) = us"
    using \<open>n \<notin> set us\<close> by (subst takeWhile_append2) auto
  ultimately show ?thesis by (simp add: entry_rank_def)
qed (simp add: entry_rank_def)

lemma entry_rank_less:
  assumes "distinct (us @ x # vs)" and "y \<notin> set (x # vs)"
  shows "entry_rank (us @ x # vs) y < entry_rank (us @ x # vs) x"
proof -
  have x: "takeWhile (\<lambda>z. z \<noteq> x) (us @ x # vs) = us"
    using assms(1) by (subst takeWhile_append2) auto
  show ?thesis
  proof (cases "y \<in> set us")
    case True
    then obtain as bs where us: "us = as @ y # bs" "y \<notin> set as" by (meson split_list_first)
    then have "takeWhile (\<lambda>z. z \<noteq> y) (as @ y # bs @ x # vs) = as"
      by (subst takeWhile_append2) auto
    with us(1) have "takeWhile (\<lambda>z. z \<noteq> y) (us @ x # vs) = as" by simp
    with x us show ?thesis by (simp add: entry_rank_def)
  next
    case False
    with x assms(2) show ?thesis by (simp add: entry_rank_def)
  qed
qed

lemma entries_ranked: "entries_inv P cx \<Longrightarrow> ranks (entry_rank P) cx"
proof -
  assume inv: "entries_inv P cx"
  then have "length P \<le> src_size cx"
    unfolding entries_inv_def
    by (metis card_lessThan card_mono distinct_card finite_lessThan)
  then have "entry_rank P n \<le> src_size cx" for n
    using entry_rank_le [of P n] by simp
  moreover have "entry_rank P y < entry_rank P x" if "(x, y) \<in> src_edges cx" for x y
  proof -
    from inv have "distinct P"
      "\<forall>e \<in> src_edges cx. \<exists>us vs. P = us @ fst e # vs \<and> snd e \<notin> set (fst e # vs)"
      by (auto simp: entries_inv_def)
    with that obtain us vs where "P = us @ x # vs" "y \<notin> set (x # vs)" "distinct P"
      by fastforce
    then show ?thesis using entry_rank_less [of us x vs y] by simp
  qed
  ultimately show ?thesis unfolding ranks_def by blast
qed

section \<open>What most operations leave alone\<close>

definition same_sources :: "analyzer_ctx \<Rightarrow> analyzer_ctx \<Rightarrow> bool" where
  "same_sources cx cx' \<longleftrightarrow>
     cx_sources cx' = cx_sources cx \<and> cx_src_graph cx' = cx_src_graph cx \<and>
     map sn_filename (cx_src_nodes cx') = map sn_filename (cx_src_nodes cx) \<and>
     map sn_uri (cx_src_nodes cx') = map sn_uri (cx_src_nodes cx) \<and>
     map sn_analyzed (cx_src_nodes cx') = map sn_analyzed (cx_src_nodes cx)"

definition frame :: "analyzer \<Rightarrow> analyzer \<Rightarrow> bool" where
  "frame a a' \<longleftrightarrow>
     an_previous a' = an_previous a \<and> an_queue a' = an_queue a \<and>
     same_sources (an_current a) (an_current a')"

named_theorems frames "operations that keep the sources, the queue and the previous context"

lemma same_sources_refl [simp]: "same_sources cx cx"
  by (simp add: same_sources_def)

lemma frame_refl [simp]: "frame a a"
  by (simp add: frame_def)

lemma frame_trans [trans]: "frame a b \<Longrightarrow> frame b c \<Longrightarrow> frame a c"
  by (auto simp: frame_def same_sources_def)

lemma same_sources_simps:
  assumes "same_sources cx cx'"
  shows "src_size cx' = src_size cx" "src_edges cx' = src_edges cx" "src_keys cx' = src_keys cx"
    "n < src_size cx \<Longrightarrow> fname cx' n = fname cx n"
    "n < src_size cx \<Longrightarrow> sn_analyzed (cx_src_nodes cx' ! n) = sn_analyzed (cx_src_nodes cx ! n)"
proof -
  have len: "length (cx_src_nodes cx') = length (cx_src_nodes cx)"
    using assms unfolding same_sources_def by (metis length_map)
  then show "src_size cx' = src_size cx" by (simp add: src_size_def)
  show "src_edges cx' = src_edges cx" "src_keys cx' = src_keys cx"
    using assms by (simp_all add: same_sources_def src_edges_def src_keys_def)
  show "n < src_size cx \<Longrightarrow> fname cx' n = fname cx n"
    "n < src_size cx \<Longrightarrow> sn_analyzed (cx_src_nodes cx' ! n) = sn_analyzed (cx_src_nodes cx ! n)"
    using assms len unfolding same_sources_def src_size_def fname_def by (metis nth_map)+
qed

lemma same_sources_src_inv: "same_sources cx cx' \<Longrightarrow> src_inv cx \<Longrightarrow> src_inv cx'"
proof -
  assume same: "same_sources cx cx'" and inv: "src_inv cx"
  note s = same_sources_simps [OF same]
  have "bhash_get (cx_sources cx') f = Some n \<longleftrightarrow> n < src_size cx' \<and> fname cx' n = f" for f n
    using same src_invD(4) [OF inv, of f n] s(1,4) by (auto simp: same_sources_def)
  then show ?thesis
    using same inv s(1) by (simp add: src_inv_def same_sources_def src_size_def fname_def)
qed

lemma same_sources_entries: "same_sources cx cx' \<Longrightarrow> src_inv cx \<Longrightarrow> entries_inv P cx \<Longrightarrow> entries_inv P cx'"
  using src_edges_bound [of cx]
  by (fastforce simp: entries_inv_def same_sources_simps)

lemma upd_src_same:
  assumes "\<And>sn. sn_filename (f sn) = sn_filename sn \<and> sn_uri (f sn) = sn_uri sn \<and>
      sn_analyzed (f sn) = sn_analyzed sn"
  shows "same_sources cx (upd_src n f cx)"
proof -
  have map_upd: "map g (xs[n := f (xs ! n)]) = map g xs" if "\<And>sn. g (f sn) = g sn"
    for g :: "src_node \<Rightarrow> 'a" and xs
  proof (cases "n < length xs")
    case True
    then have "g (xs ! n) = map g xs ! n" by simp
    then show ?thesis by (simp only: map_update that list_update_id)
  qed (simp add: list_update_beyond)
  show ?thesis
    using assms by (simp add: same_sources_def upd_src_def map_upd)
qed

lemma upd_sym_same [simp]: "same_sources cx (upd_sym n f cx)"
  by (simp add: same_sources_def upd_sym_def)

lemma alloc_sym_same: "alloc_sym sy cx = (n, cx') \<Longrightarrow> same_sources cx cx'"
  by (auto simp: same_sources_def alloc_sym_def)

end
