(* ===== verification/Analyze_Queue.thy ===== *)
theory Analyze_Queue
  imports Analyze_Inv
begin

text \<open>
  The order in which files are compiled: the walks over the include graph of the previous run end,
  and they queue every open document once and nothing else.
\<close>

section \<open>States while documents are queued\<close>

text \<open>Only nodes of open documents exist, each queued when it was allocated, none analyzed and
  without edges.\<close>

definition queue_inv :: "buxn_ls_workspace \<Rightarrow> analyzer_ctx \<Rightarrow> analyzer \<Rightarrow> bool" where
  "queue_inv ws pv a \<longleftrightarrow>
     an_previous a = pv \<and> src_inv (an_current a) \<and>
     src_keys (an_current a) \<subseteq> set (bhash_keys (docs ws)) \<and>
     an_queue a = [0..<src_size (an_current a)] \<and>
     src_edges (an_current a) = {} \<and>
     (\<forall>n < src_size (an_current a). \<not> sn_analyzed (cx_src_nodes (an_current a) ! n)) \<and>
     cx_sym_nodes (an_current a) = [] \<and> cx_sym_graph (an_current a) = empty_graph \<and>
     (\<forall>n < src_size (an_current a). sn_definitions (cx_src_nodes (an_current a) ! n) = [] \<and>
        sn_references (cx_src_nodes (an_current a) ! n) = [] \<and>
        sn_uri (cx_src_nodes (an_current a) ! n) = file_uri ws (fname (an_current a) n))"

lemma alloc_put_src_inv:
  assumes inv: "src_inv cx" and fresh: "f \<notin> src_keys cx" and f: "sn_filename node = f"
    and alloc: "alloc_src node cx = (n, cx1)" and cx2: "cx2 = put_source lay n cx1"
  shows "src_inv cx2" "src_keys cx2 = insert f (src_keys cx)" "src_edges cx2 = src_edges cx"
    "n = src_size cx" "cx_src_nodes cx2 = cx_src_nodes cx @ [node]" "src_size cx2 = Suc (src_size cx)"
    "cx_sym_nodes cx2 = cx_sym_nodes cx" "cx_sym_graph cx2 = cx_sym_graph cx"
proof -
  from alloc f cx2 show n: "n = src_size cx" and nodes: "cx_src_nodes cx2 = cx_src_nodes cx @ [node]"
    and "cx_sym_nodes cx2 = cx_sym_nodes cx" "cx_sym_graph cx2 = cx_sym_graph cx"
    by (auto simp: alloc_src_def put_source_def src_size_def)
  from alloc f cx2 have sources: "cx_sources cx2 = bhash_put lay (cx_sources cx) f n"
    and graph: "cx_src_graph cx2 = new_node (cx_src_graph cx)"
    by (auto simp: alloc_src_def put_source_def src_size_def)
  show size: "src_size cx2 = Suc (src_size cx)" by (simp add: src_size_def nodes)
  have name: "fname cx2 m = (if m < src_size cx then fname cx m else f)" if "m < src_size cx2" for m
    using that by (auto simp: fname_def nodes nth_append size f src_size_def less_Suc_eq)
  note i = src_invD [OF inv]
  have "bhash_get (cx_sources cx2) g = Some m \<longleftrightarrow> m < src_size cx2 \<and> fname cx2 m = g" for g m
  proof (cases "g = f")
    case True
    have "m < src_size cx \<Longrightarrow> fname cx m \<noteq> f"
      using fresh src_keys_fname [OF inv] by auto
    with True show ?thesis
      using name [of m] by (cases "m < src_size cx") (auto simp: sources bh.get_put [OF i(1)] n size less_Suc_eq)
  next
    case False
    then show ?thesis
      using name [of m] i(4) [of g m] by (auto simp: sources bh.get_put [OF i(1)] n size less_Suc_eq)
  qed
  then show "src_inv cx2"
    using i(1-3) size
    by (simp add: src_inv_def sources graph bh.inv_put new_node_inv src_size_def fname_def)
  show "src_keys cx2 = insert f (src_keys cx)"
    by (simp add: src_keys_def sources set_keys_put)
  show "src_edges cx2 = src_edges cx"
    by (simp add: src_edges_def graph)
qed

lemma queue_file_inv:
  assumes "workspace_inv ws" and q: "queue_inv ws pv a"
    and "f \<in> set (bhash_keys (docs ws))" and fresh: "f \<notin> src_keys (an_current a)"
  shows "queue_inv ws pv (buxn_ls_do_queue_file lay ws f a) \<and>
    src_keys (an_current (buxn_ls_do_queue_file lay ws f a)) = insert f (src_keys (an_current a))"
proof -
  let ?cx = "an_current a"
  define node where "node = \<lparr>sn_filename = drop (length ''file://'' + root_dir_len ws) (file_uri ws f),
    sn_uri = file_uri ws f, sn_references = [], sn_definitions = [], sn_analyzed = False\<rparr>"
  have node: "sn_filename node = f"
    using assms(1) by (simp add: node_def file_uri_def workspace_inv_def)
  obtain n cx1 where alloc: "alloc_src node ?cx = (n, cx1)" by (cases "alloc_src node ?cx")
  have inv: "src_inv ?cx" using q by (simp add: queue_inv_def)
  note p = alloc_put_src_inv [OF inv fresh node alloc refl]
  have "buxn_ls_do_queue_file lay ws f a = a\<lparr>an_current := put_source lay n cx1, an_queue := an_queue a @ [n]\<rparr>"
    using alloc by (simp add: buxn_ls_do_queue_file_def buxn_ls_alloc_node_def Let_def node_def)
  moreover have "queue_inv ws pv \<dots>"
    using q p assms(3) node
    by (auto simp: queue_inv_def nth_append src_size_def less_Suc_eq node_def fname_def)
  ultimately show ?thesis using p(2) by simp
qed

section \<open>The walk down\<close>

text \<open>\<open>covered a n\<close>: the open documents among the files below \<open>n\<close> in the old graph are queued.\<close>

definition covered :: "buxn_ls_workspace \<Rightarrow> analyzer_ctx \<Rightarrow> analyzer \<Rightarrow> nat \<Rightarrow> bool" where
  "covered ws pv a n \<longleftrightarrow>
     (\<forall>m. (n, m) \<in> (src_edges pv)\<^sup>* \<longrightarrow> fname pv m \<in> set (bhash_keys (docs ws)) \<longrightarrow>
        fname pv m \<in> src_keys (an_current a))"

definition closed_but :: "buxn_ls_workspace \<Rightarrow> analyzer_ctx \<Rightarrow> nat set \<Rightarrow> analyzer \<Rightarrow> bool" where
  "closed_but ws pv S a \<longleftrightarrow>
     (\<forall>n < src_size pv. fname pv n \<in> src_keys (an_current a) \<longrightarrow> n \<notin> S \<longrightarrow> covered ws pv a n)"

definition grown :: "analyzer \<Rightarrow> analyzer \<Rightarrow> bool" where
  "grown a a' \<longleftrightarrow> src_keys (an_current a) \<subseteq> src_keys (an_current a')"

lemma covered_grown: "covered ws pv a n \<Longrightarrow> grown a a' \<Longrightarrow> covered ws pv a' n"
  unfolding covered_def grown_def by blast

lemma covered_node:
  assumes "fname pv n \<in> set (bhash_keys (docs ws)) \<Longrightarrow> fname pv n \<in> src_keys (an_current a)"
    and "\<And>m. (n, m) \<in> src_edges pv \<Longrightarrow> covered ws pv a m"
  shows "covered ws pv a n"
  unfolding covered_def
proof (intro allI impI)
  fix m assume "(n, m) \<in> (src_edges pv)\<^sup>*" and m: "fname pv m \<in> set (bhash_keys (docs ws))"
  then show "fname pv m \<in> src_keys (an_current a)"
  proof (cases rule: converse_rtranclE)
    case base
    with m assms(1) show ?thesis by simp
  next
    case (step k)
    with m assms(2) [of k] show ?thesis by (simp add: covered_def)
  qed
qed

lemma children_covered:
  assumes step: "\<And>c a. c \<in> set cs \<Longrightarrow> queue_inv ws pv a \<Longrightarrow> closed_but ws pv S a \<Longrightarrow>
      \<exists>a'. f c a = Inr a' \<and> queue_inv ws pv a' \<and> closed_but ws pv S a' \<and> grown a a' \<and> covered ws pv a' c"
    and "queue_inv ws pv a" and "closed_but ws pv S a"
  shows "\<exists>a'. ofold f cs a = Inr a' \<and> queue_inv ws pv a' \<and> closed_but ws pv S a' \<and> grown a a' \<and>
    (\<forall>c \<in> set cs. covered ws pv a' c)"
  using assms
proof (induction cs arbitrary: a)
  case Nil
  then show ?case by (simp add: grown_def)
next
  case (Cons c cs)
  from Cons.prems(1) [of c a] Cons.prems(2,3) obtain b where
    b: "f c a = Inr b" "queue_inv ws pv b" "closed_but ws pv S b" "grown a b" "covered ws pv b c"
    by auto
  from Cons.IH [OF Cons.prems(1) b(2,3)] obtain a' where
    a': "ofold f cs b = Inr a'" "queue_inv ws pv a'" "closed_but ws pv S a'" "grown b a'"
      "\<forall>c \<in> set cs. covered ws pv a' c"
    by auto
  have "covered ws pv a' c" using b(5) a'(4) by (rule covered_grown)
  with a' b(1,4) show ?case by (auto simp: grown_def)
qed

lemma maybe_queue_node_covers:
  assumes ws: "workspace_inv ws" and pv: "src_inv pv" "ranks rk pv"
    and "queue_inv ws pv a" and "n < src_size pv" and "rk n < depth"
    and "\<forall>s \<in> S. rk n < rk s" and "closed_but ws pv S a"
  shows "\<exists>a'. buxn_ls_maybe_queue_node depth lay ws n a = Inr a' \<and> queue_inv ws pv a' \<and>
    closed_but ws pv S a' \<and> grown a a' \<and> covered ws pv a' n"
  using assms(4-)
proof (induction depth arbitrary: n a S)
  case (Suc depth)
  let ?f = "fname pv n"
  have prev: "an_previous a = pv" using Suc.prems(1) by (simp add: queue_inv_def)
  have n_S: "n \<notin> S" using Suc.prems(4) by blast
  have f_node: "sn_filename (cx_src_nodes (an_previous a) ! n) = ?f" by (simp add: prev fname_def)
  show ?case
  proof (cases "?f \<in> src_keys (an_current a)")
    case True
    with Suc.prems n_S have "covered ws pv a n" by (simp add: closed_but_def)
    with True Suc.prems f_node show ?thesis
      by (simp add: bhash_has_iff src_keys_def grown_def)
  next
    case False
    define a1 where "a1 = (if bhash_has (docs ws) ?f then buxn_ls_do_queue_file lay ws ?f a else a)"
    have a1: "queue_inv ws pv a1"
      "src_keys (an_current a1) = src_keys (an_current a) \<union> ({?f} \<inter> set (bhash_keys (docs ws)))"
      using queue_file_inv [OF ws Suc.prems(1) _ False] Suc.prems(1)
      by (auto simp: a1_def bhash_has_iff)
    have grown1: "grown a a1" using a1(2) by (auto simp: grown_def)
    have closed1: "closed_but ws pv (insert n S) a1"
      unfolding closed_but_def
    proof (intro allI impI)
      fix m assume m: "m < src_size pv" "fname pv m \<in> src_keys (an_current a1)" "m \<notin> insert n S"
      then have "fname pv m \<noteq> ?f" using fname_inj [OF pv(1), of m n] Suc.prems(2) by auto
      with m a1(2) have "fname pv m \<in> src_keys (an_current a)" by auto
      with m Suc.prems(5) have "covered ws pv a m" by (auto simp: closed_but_def)
      then show "covered ws pv a1 m" using grown1 by (rule covered_grown)
    qed
    have edge: "c < src_size pv \<and> rk c < rk n" if "(n, c) \<in> src_edges pv" for c
      using that src_edges_bound [OF pv(1)] pv(2) by (auto simp: ranks_def)
    let ?cs = "out_nodes (cx_src_graph pv) n"
    have cs: "c \<in> set ?cs \<longleftrightarrow> (n, c) \<in> src_edges pv" for c
      by (rule src_out_nodes [OF pv(1) Suc.prems(2)])
    have "\<exists>a'. ofold (\<lambda>c. buxn_ls_maybe_queue_node depth lay ws c) ?cs a1 = Inr a' \<and>
        queue_inv ws pv a' \<and> closed_but ws pv (insert n S) a' \<and> grown a1 a' \<and>
        (\<forall>c \<in> set ?cs. covered ws pv a' c)"
    proof (rule children_covered [OF _ a1(1) closed1])
      fix c b assume c: "c \<in> set ?cs" and b: "queue_inv ws pv b" "closed_but ws pv (insert n S) b"
      from c cs edge have "c < src_size pv" "rk c < rk n" by auto
      with Suc.prems(3,4) have "rk c < depth" "\<forall>s \<in> insert n S. rk c < rk s" by auto
      then show "\<exists>a'. buxn_ls_maybe_queue_node depth lay ws c b = Inr a' \<and> queue_inv ws pv a' \<and>
          closed_but ws pv (insert n S) a' \<and> grown b a' \<and> covered ws pv a' c"
        by (rule Suc.IH [OF b(1) \<open>c < src_size pv\<close> _ _ b(2)])
    qed
    then obtain a' where a': "ofold (\<lambda>c. buxn_ls_maybe_queue_node depth lay ws c) ?cs a1 = Inr a'"
      "queue_inv ws pv a'" "closed_but ws pv (insert n S) a'" "grown a1 a'"
      "\<forall>c \<in> set ?cs. covered ws pv a' c" by blast
    have cov: "covered ws pv a' n"
      by (rule covered_node) (use a'(4,5) a1(2) cs in \<open>auto simp: grown_def\<close>)
    have "buxn_ls_maybe_queue_node (Suc depth) lay ws n a = Inr a'"
      using False a'(1) f_node by (simp add: bhash_has_iff src_keys_def a1_def prev)
    moreover have "closed_but ws pv S a'"
      using a'(3) cov by (auto simp: closed_but_def)
    moreover have "grown a a'" using grown1 a'(4) by (auto simp: grown_def)
    ultimately show ?thesis using a'(2) cov by blast
  qed
qed simp

section \<open>The climb\<close>

lemma in_edges_iff:
  assumes "graph_inv g" and "n < g_size g"
  shows "in_edges (g_nodes g ! n) \<noteq> None \<longleftrightarrow> in_nodes g n \<noteq> []"
proof -
  have "walk (length (g_edges g)) next_in (g_edges g) (Some e) \<noteq> []"
    if "in_edges (g_nodes g ! n) = Some e" for e
  proof -
    from assms that have "last_edge (\<lambda>e. e_to e = n) (g_edges g) (length (g_edges g)) = Some e"
      by (simp add: graph_inv_def list_inv_def g_size_def)
    then have "e < length (g_edges g)" by (blast dest: last_edge_Some)
    then show ?thesis by (cases "length (g_edges g)") simp_all
  qed
  then show ?thesis by (cases "in_edges (g_nodes g ! n)") (auto simp: in_nodes_def)
qed

lemma queue_from_root_covers:
  assumes ws: "workspace_inv ws" and pv: "src_inv pv" "ranks rk pv"
    and depth: "src_size pv < depth"
    and "queue_inv ws pv a" and "n < src_size pv" and "src_size pv - rk n < climb"
    and "closed_but ws pv {} a"
  shows "\<exists>a'. buxn_ls_queue_from_root climb depth lay ws n a = Inr a' \<and> queue_inv ws pv a' \<and>
    closed_but ws pv {} a' \<and> grown a a' \<and> covered ws pv a' n"
  using assms(5-)
proof (induction climb arbitrary: n a)
  case (Suc climb)
  have prev: "an_previous a = pv" using Suc.prems(1) by (simp add: queue_inv_def)
  have rk_le: "rk m \<le> src_size pv" for m using pv(2) by (simp add: ranks_def)
  let ?ps = "in_nodes (cx_src_graph pv) n"
  have ps: "p \<in> set ?ps \<longleftrightarrow> (p, n) \<in> src_edges pv" for p
    by (rule src_in_nodes [OF pv(1) Suc.prems(2)])
  show ?case
  proof (cases "?ps = []")
    case True
    have "rk n < depth" using rk_le [of n] depth by simp
    with maybe_queue_node_covers [OF ws pv Suc.prems(1,2) _ _ Suc.prems(4)] True
    show ?thesis
      using in_edges_iff [of "cx_src_graph pv" n] Suc.prems(2) src_invD [OF pv(1)]
      by (simp add: prev)
  next
    case False
    have "\<exists>a'. ofold (\<lambda>p. buxn_ls_queue_from_root climb depth lay ws p) ?ps a = Inr a' \<and>
        queue_inv ws pv a' \<and> closed_but ws pv {} a' \<and> grown a a' \<and> (\<forall>p \<in> set ?ps. covered ws pv a' p)"
    proof (rule children_covered [OF _ Suc.prems(1,4)])
      fix p b assume p: "p \<in> set ?ps" and b: "queue_inv ws pv b" "closed_but ws pv {} b"
      from p ps have e: "(p, n) \<in> src_edges pv" by simp
      then have "p < src_size pv" "rk n < rk p"
        using src_edges_bound [OF pv(1)] pv(2) by (auto simp: ranks_def)
      moreover have "src_size pv - rk p < climb"
        using Suc.prems(3) \<open>rk n < rk p\<close> rk_le [of p] by linarith
      ultimately show "\<exists>a'. buxn_ls_queue_from_root climb depth lay ws p b = Inr a' \<and>
          queue_inv ws pv a' \<and> closed_but ws pv {} a' \<and> grown b a' \<and> covered ws pv a' p"
        by (intro Suc.IH [OF b(1) _ _ b(2)])
    qed
    then obtain a' where a': "ofold (\<lambda>p. buxn_ls_queue_from_root climb depth lay ws p) ?ps a = Inr a'"
      "queue_inv ws pv a'" "closed_but ws pv {} a'" "grown a a'" "\<forall>p \<in> set ?ps. covered ws pv a' p"
      by blast
    from False obtain p where "p \<in> set ?ps" by (meson last_in_set)
    with a'(5) ps have "covered ws pv a' p" "(p, n) \<in> src_edges pv" by auto
    then have "covered ws pv a' n"
      unfolding covered_def by (meson converse_rtrancl_into_rtrancl)
    with a' False show ?thesis
      using in_edges_iff [of "cx_src_graph pv" n] Suc.prems(2) src_invD [OF pv(1)]
      by (simp add: prev)
  qed
qed simp

section \<open>All documents\<close>

lemma queue_doc_covers:
  assumes ws: "workspace_inv ws" and pv: "src_inv pv" "ranks rk pv"
    and q: "queue_inv ws pv a" "closed_but ws pv {} a" and f: "f \<in> set (bhash_keys (docs ws))"
  shows "\<exists>a'. queue_doc lay ws f a = Inr a' \<and> queue_inv ws pv a' \<and> closed_but ws pv {} a' \<and>
    grown a a' \<and> f \<in> src_keys (an_current a')"
proof -
  have prev: "an_previous a = pv" using q(1) by (simp add: queue_inv_def)
  consider "f \<in> src_keys (an_current a)"
    | n where "f \<notin> src_keys (an_current a)" "bhash_get (cx_sources pv) f = Some n"
    | "f \<notin> src_keys (an_current a)" "bhash_get (cx_sources pv) f = None"
    by (cases "bhash_get (cx_sources pv) f") auto
  then show ?thesis
  proof cases
    case 1
    with q show ?thesis by (simp add: queue_doc_def bhash_has_iff src_keys_def grown_def)
  next
    case 2
    then have n: "n < src_size pv" "fname pv n = f" using src_invD(4) [OF pv(1)] by auto
    have "walk_fuel a = Suc (src_size pv)" using src_invD(3) [OF pv(1)] by (simp add: walk_fuel_def prev)
    then obtain a' where a': "buxn_ls_queue_from_root (walk_fuel a) (walk_fuel a) lay ws n a = Inr a'"
      "queue_inv ws pv a'" "closed_but ws pv {} a'" "grown a a'" "covered ws pv a' n"
      using queue_from_root_covers [OF ws pv _ q(1) n(1) _ q(2), of "walk_fuel a" "walk_fuel a" lay]
      by (metis diff_le_self le_imp_less_Suc lessI)
    moreover have "f \<in> src_keys (an_current a')"
      using a'(5) f n(2) by (force simp: covered_def)
    ultimately show ?thesis
      using 2 by (simp add: queue_doc_def bhash_has_iff src_keys_def prev)
  next
    case 3
    let ?a = "buxn_ls_do_queue_file lay ws f a"
    have a: "queue_inv ws pv ?a" "src_keys (an_current ?a) = insert f (src_keys (an_current a))"
      using queue_file_inv [OF ws q(1) f 3(1)] by auto
    have "fname pv n \<noteq> f" if "n < src_size pv" for n
      using 3(2) src_invD(4) [OF pv(1), of f n] that by auto
    then have "closed_but ws pv {} ?a"
      using q(2) a(2) by (auto simp: closed_but_def covered_def)
    with a 3 show ?thesis
      by (simp add: queue_doc_def bhash_has_iff src_keys_def prev grown_def) blast
  qed
qed

lemma queue_docs_fold:
  assumes ws: "workspace_inv ws" and pv: "src_inv pv" "ranks rk pv"
    and "queue_inv ws pv a" "closed_but ws pv {} a" and "set fs \<subseteq> set (bhash_keys (docs ws))"
  shows "\<exists>a'. ofold (queue_doc lay ws) fs a = Inr a' \<and> queue_inv ws pv a' \<and> grown a a' \<and>
    set fs \<subseteq> src_keys (an_current a')"
  using assms(4-)
proof (induction fs arbitrary: a)
  case (Cons f fs)
  then obtain b where b: "queue_doc lay ws f a = Inr b" "queue_inv ws pv b" "closed_but ws pv {} b"
    "grown a b" "f \<in> src_keys (an_current b)"
    using queue_doc_covers [OF ws pv Cons.prems(1,2), of f lay] by auto
  with Cons.IH [OF b(2,3)] Cons.prems(3) obtain a' where
    "ofold (queue_doc lay ws) fs b = Inr a'" "queue_inv ws pv a'" "grown b a'"
    "set fs \<subseteq> src_keys (an_current a')" by auto
  with b show ?case by (auto simp: grown_def)
qed (simp add: grown_def)

lemma swap_queue_inv:
  "queue_inv ws (an_current a) (swap_contexts a) \<and> closed_but ws (an_current a) {} (swap_contexts a)"
proof -
  have "src_size empty_ctx = 0" "src_keys empty_ctx = {}" "src_edges empty_ctx = {}"
    by (simp_all add: empty_ctx_def src_size_def src_keys_def src_edges_def bhash_keys_def)
  then show ?thesis
    by (simp add: queue_inv_def closed_but_def swap_contexts_def) (simp add: empty_ctx_def)
qed

lemma queue_docs_result:
  assumes "workspace_inv ws" and "src_inv (an_current a)" and "ranked (an_current a)"
  shows "\<exists>a'. queue_docs lay ws (swap_contexts a) = Inr a' \<and> queue_inv ws (an_current a) a' \<and>
    src_keys (an_current a') = set (bhash_keys (docs ws))"
proof -
  from assms(3) obtain rk where "ranks rk (an_current a)" by (auto simp: ranked_def)
  with queue_docs_fold [OF assms(1,2) this, of "swap_contexts a" "bhash_keys (docs ws)" lay]
    swap_queue_inv [of ws a]
  show ?thesis by (fastforce simp: queue_docs_def queue_inv_def)
qed

text \<open>The file names of the queue.\<close>

definition queued_files :: "analyzer \<Rightarrow> string list" where
  "queued_files a = map (fname (an_current a)) (an_queue a)"

lemma queued_files_inv:
  assumes "queue_inv ws pv a"
  shows "distinct (queued_files a)" "set (queued_files a) = src_keys (an_current a)"
proof -
  have inv: "src_inv (an_current a)" and q: "an_queue a = [0..<src_size (an_current a)]"
    using assms by (simp_all add: queue_inv_def)
  have "inj_on (fname (an_current a)) {0..<src_size (an_current a)}"
    by (rule inj_onI) (use fname_inj [OF inv] in auto)
  then show "distinct (queued_files a)"
    by (simp add: queued_files_def q distinct_map)
  show "set (queued_files a) = src_keys (an_current a)"
    using src_keys_fname [OF inv] by (auto simp: queued_files_def q)
qed

end
