(* ===== verification/Analyze_Frame.thy ===== *)
theory Analyze_Frame
  imports Analyze_Queue
begin

text \<open>
  What the callbacks of the assembler change: only \<open>buxn_asm_fopen\<close> touches the sources and the
  include graph, and the edges it adds keep the graph free of cycles. From this follows that a
  whole analysis keeps the invariant that makes the next one end.
\<close>

section \<open>Operations that only read positions\<close>

definition lines_only :: "analyzer \<Rightarrow> analyzer \<Rightarrow> bool" where
  "lines_only a a' \<longleftrightarrow> (\<exists>ls fs. a' = a\<lparr>an_lines := ls, an_files := fs\<rparr>)"

lemma lines_only_refl [simp]: "lines_only a a"
  unfolding lines_only_def by (rule exI [of _ "an_lines a"], rule exI [of _ "an_files a"]) simp

lemma lines_only_trans: "lines_only a b \<Longrightarrow> lines_only b c \<Longrightarrow> lines_only a c"
  unfolding lines_only_def by (elim exE) (simp, blast)

lemma lines_onlyD:
  assumes "lines_only a a'"
  shows "an_current a' = an_current a" "an_previous a' = an_previous a" "an_queue a' = an_queue a"
    "an_macro_defs a' = an_macro_defs a" "an_label_defs a' = an_label_defs a"
    "an_references a' = an_references a" "an_diagnostics a' = an_diagnostics a"
  using assms by (auto simp: lines_only_def)

lemma lines_only_frame: "lines_only a a' \<Longrightarrow> frame a a'"
  by (simp add: frame_def lines_onlyD)

lemma split_file_lines_only: "buxn_ls_analyzer_split_file a f = (r, a') \<Longrightarrow> lines_only a a'"
  by (auto simp: buxn_ls_analyzer_split_file_def lines_only_def Let_def
      intro: exI [of _ "an_lines a"] exI [of _ "an_files a"] split: option.splits if_splits)
    (metis analyzer.surjective analyzer.update_convs(4) analyzer.update_convs(5))+

lemma convert_position_lines_only:
  "buxn_ls_convert_position utf8 f p a = Inr (q, a') \<Longrightarrow> lines_only a a'"
  by (auto simp: buxn_ls_convert_position_def Let_def ok_simps
      dest!: split_file_lines_only split: prod.splits option.splits if_splits)

lemma convert_range_lines_only:
  "buxn_ls_convert_range utf8 f r a = Inr (q, a') \<Longrightarrow> lines_only a a'"
  by (auto simp: buxn_ls_convert_range_def ok_simps
      dest!: convert_position_lines_only intro: lines_only_trans)

lemma convert_region_lines_only:
  "buxn_ls_convert_region utf8 r a = Inr (q, a') \<Longrightarrow> lines_only a a'"
  by (auto simp: buxn_ls_convert_region_def Let_def ok_simps dest!: convert_range_lines_only)

section \<open>Frames of the callbacks\<close>

lemma frame_upd_current: "same_sources (an_current a) (f (an_current a)) \<Longrightarrow> frame a (upd_current f a)"
  by (simp add: frame_def upd_current_def)

lemma frame_upd_sym [simp]: "frame a (upd_current (upd_sym n f) b) = frame a b"
  by (simp add: frame_def upd_current_def same_sources_def upd_sym_def)

lemma frame_fields [simp]:
  "frame a (b\<lparr>an_files := x\<rparr>) = frame a b"
  "frame a (b\<lparr>an_macro_defs := m\<rparr>) = frame a b"
  "frame a (b\<lparr>an_label_defs := l\<rparr>) = frame a b"
  "frame a (b\<lparr>an_references := r\<rparr>) = frame a b"
  "frame a (b\<lparr>an_diagnostics := d\<rparr>) = frame a b"
  by (simp_all add: frame_def)

lemma make_sym_node_cases:
  assumes "buxn_ls_make_sym_node utf8 sy a = Inr (n, a')"
  obtains src rng b where
    "bhash_get (cx_sources (an_current a)) (cp_text (rg_filename (as_region sy))) = Some src"
    "buxn_ls_convert_range utf8 (cp_text (rg_filename (as_region sy))) (rg_range (as_region sy)) a
      = Inr (rng, b)"
    "lines_only a b" "n = length (cx_sym_nodes (an_current a))"
    "a' = b\<lparr>an_current := snd (alloc_sym \<lparr>sy_name = as_name sy, sy_documentation = [],
       sy_signature = [], sy_source = src, sy_type = as_type sy,
       sy_semantics = BUXN_LS_SYMBOL_AS_VARIABLE,
       sy_byte_offset = ap_byte (ar_start (rg_range (as_region sy))), sy_range = rng,
       sy_address = 0\<rparr> (an_current a))\<rparr>"
proof -
  from assms obtain src where src:
    "bhash_get (cx_sources (an_current a)) (cp_text (rg_filename (as_region sy))) = Some src"
    by (auto simp: buxn_ls_make_sym_node_def Let_def split: option.splits)
  with assms obtain rng b where b: "buxn_ls_convert_range utf8 (cp_text (rg_filename (as_region sy)))
      (rg_range (as_region sy)) a = Inr (rng, b)"
    by (auto simp: buxn_ls_make_sym_node_def Let_def ok_simps)
  have lo: "lines_only a b" by (rule convert_range_lines_only [OF b])
  show thesis
    by (rule that [OF src b lo])
      (use assms src b lines_onlyD(1) [OF lo] in \<open>simp_all add: buxn_ls_make_sym_node_def Let_def alloc_sym_def\<close>)
qed

lemma alloc_sym_frame: "lines_only a b \<Longrightarrow> frame a (b\<lparr>an_current := snd (alloc_sym node (an_current a))\<rparr>)"
  by (simp add: frame_def lines_onlyD alloc_sym_def same_sources_def)

lemma make_sym_node_frame: "buxn_ls_make_sym_node utf8 sy a = Inr (n, a') \<Longrightarrow> frame a a'"
  by (elim make_sym_node_cases) (simp add: alloc_sym_frame)

lemma handle_annotation_frame:
  "buxn_ls_handle_annotation call (a, ctx) = Inr (a', ctx') \<Longrightarrow>
     frame a a' \<and> ac_entry_node ctx' = ac_entry_node ctx"
  by (auto simp: buxn_ls_handle_annotation_def Let_def ok_simps split: option.splits if_splits)

lemma handle_annotations_frame:
  assumes "ofold buxn_ls_handle_annotation calls (a, ctx) = Inr (a', ctx')"
  shows "frame a a' \<and> ac_entry_node ctx' = ac_entry_node ctx"
proof -
  have "frame a (fst (a', ctx')) \<and> ac_entry_node (snd (a', ctx')) = ac_entry_node ctx"
    by (rule ofold_inv [OF assms])
      (auto dest!: handle_annotation_frame intro: frame_trans)
  then show ?thesis by simp
qed

lemma push_definition_frame [simp]: "frame a (push_definition n a)"
  unfolding push_definition_def by (rule frame_upd_current, rule upd_src_same) simp

lemma put_label_frame: "put_label lay addr sy file n (a, ctx) = (a', ctx') \<Longrightarrow>
    frame a a' \<and> ac_entry_node ctx' = ac_entry_node ctx"
  by (auto simp: put_label_def Let_def split: if_splits)

lemma put_macro_frame: "put_macro n (a, ctx) = (a', ctx') \<Longrightarrow>
    frame a a' \<and> ac_entry_node ctx' = ac_entry_node ctx"
  by (auto simp: put_macro_def Let_def)

text \<open>The two branches of a definition: a generated name only moves the file's last symbol.\<close>

definition bump_file :: "asm_sym \<Rightarrow> ls_file \<Rightarrow> ls_file" where
  "bump_file sy fl =
     (if ap_byte (ar_start (rg_range (as_region sy))) > f_last_symbol_byte fl
      then fl\<lparr>f_last_symbol_byte := ap_byte (ar_start (rg_range (as_region sy)))\<rparr> else fl)"

definition bump_analyzer :: "asm_sym \<Rightarrow> ls_file \<Rightarrow> analyzer \<Rightarrow> analyzer" where
  "bump_analyzer sy fl a =
     a\<lparr>an_files := bhash_set (an_files a) (cp_text (rg_filename (as_region sy))) (bump_file sy fl)\<rparr>"

lemma put_definition_cases:
  assumes "put_definition api addr sy (a, ctx) = Inr (a', ctx')"
  obtains (generated) fl where
    "bhash_get (an_files a) (cp_text (rg_filename (as_region sy))) = Some fl"
    "as_name_is_generated sy" "a' = bump_analyzer sy fl a" "ctx' = ctx"
  | (named) fl n b ctx4 where
    "bhash_get (an_files a) (cp_text (rg_filename (as_region sy))) = Some fl"
    "\<not> as_name_is_generated sy"
    "buxn_ls_make_sym_node (aa_utf8 api) sy (bump_analyzer sy fl a) = Inr (n, b)"
    "(if as_type sy = BUXN_ASM_SYM_LABEL
      then put_label (aa_layout api) addr sy (bump_file sy fl) n (push_definition n b, ctx)
      else put_macro n (push_definition n b, ctx)) = (a', ctx4)"
    "ctx' = ctx4\<lparr>ac_current_sym_node := Some n\<rparr>"
proof -
  from assms obtain fl where fl: "bhash_get (an_files a) (cp_text (rg_filename (as_region sy))) = Some fl"
    by (auto simp: put_definition_def Let_def split: option.splits)
  note fold = bump_file_def [symmetric] bump_analyzer_def [symmetric]
  show thesis
  proof (cases "as_name_is_generated sy")
    case True
    with assms fl show thesis
      by (intro generated [OF fl]) (simp_all add: put_definition_def Let_def fold)
  next
    case False
    with assms fl obtain n b where
      mk: "buxn_ls_make_sym_node (aa_utf8 api) sy (bump_analyzer sy fl a) = Inr (n, b)"
      by (auto simp: put_definition_def Let_def fold ok_simps)
    obtain a4 ctx4 where put: "(if as_type sy = BUXN_ASM_SYM_LABEL
        then put_label (aa_layout api) addr sy (bump_file sy fl) n (push_definition n b, ctx)
        else put_macro n (push_definition n b, ctx)) = (a4, ctx4)"
      by (cases "if as_type sy = BUXN_ASM_SYM_LABEL
        then put_label (aa_layout api) addr sy (bump_file sy fl) n (push_definition n b, ctx)
        else put_macro n (push_definition n b, ctx)")
    with assms fl False mk have "a' = a4" "ctx' = ctx4\<lparr>ac_current_sym_node := Some n\<rparr>"
      by (simp_all add: put_definition_def Let_def fold)
    with put show thesis by (intro named [OF fl False mk]) auto
  qed
qed

lemma bump_analyzer_frame [simp]: "frame a (bump_analyzer sy fl a)"
  by (simp add: bump_analyzer_def)

lemma put_definition_frame:
  assumes "put_definition api addr sy (a, ctx) = Inr (a', ctx')"
  shows "frame a a' \<and> ac_entry_node ctx' = ac_entry_node ctx"
  using assms
proof (cases rule: put_definition_cases)
  case (named fl n b ctx4)
  then have "frame (push_definition n b) a' \<and> ac_entry_node ctx4 = ac_entry_node ctx"
    using put_label_frame put_macro_frame by (metis (full_types))
  moreover have "frame a b"
    using make_sym_node_frame [OF named(3)] bump_analyzer_frame frame_trans by blast
  then have "frame a (push_definition n b)"
    by (rule frame_trans) simp
  ultimately show ?thesis
    using named(5) frame_trans [of a "push_definition n b" a'] by simp
qed simp

lemma put_symbol_frame:
  assumes "buxn_asm_put_symbol api addr sy (a, ctx) = Inr (a', ctx')"
  shows "frame a a' \<and> ac_entry_node ctx' = ac_entry_node ctx"
proof -
  let ?ctx = "ctx\<lparr>ac_chess_syms := ac_chess_syms ctx @ [(addr, sy)]\<rparr>"
  define put where "put = (case as_type sy of
       BUXN_ASM_SYM_MACRO \<Rightarrow> put_definition api addr sy (a, ?ctx)
     | BUXN_ASM_SYM_LABEL \<Rightarrow> put_definition api addr sy (a, ?ctx)
     | BUXN_ASM_SYM_MACRO_REF \<Rightarrow> Inr (a\<lparr>an_references := an_references a @ [sy]\<rparr>, ?ctx)
     | BUXN_ASM_SYM_LABEL_REF \<Rightarrow> Inr (a\<lparr>an_references := an_references a @ [sy]\<rparr>, ?ctx)
     | Asm_sym_other t \<Rightarrow> Inr (a, ?ctx))"
  have put: "frame a b \<and> ac_entry_node c = ac_entry_node ctx" if "put = Inr (b, c)" for b c
    using that put_definition_frame [of api addr sy a ?ctx b c]
    by (auto simp: put_def split: asm_sym_type.splits)
  show ?thesis
  proof (cases "same_symbol sy (ac_previous_sym ?ctx)")
    case True
    with assms show ?thesis by (auto simp: buxn_asm_put_symbol_def Let_def)
  next
    case False
    with assms obtain b c where b: "put = Inr (b, c)"
      and an: "ofold buxn_ls_handle_annotation (aa_anno api (ac_anno_syms c @ [(addr, sy)]))
        (b, c\<lparr>ac_previous_sym := Some sy, ac_anno_syms := ac_anno_syms c @ [(addr, sy)]\<rparr>) = Inr (a', ctx')"
      by (auto simp: buxn_asm_put_symbol_def Let_def put_def [symmetric] ok_simps)
    show ?thesis
      using put [OF b] handle_annotations_frame [OF an] frame_trans by auto
  qed
qed

lemma mark_error_frame [simp]: "frame a (mark_error f a)" "frame (mark_error f a) b = frame a b"
  by (simp_all add: mark_error_def frame_def split: option.split)

lemma push_diagnostic_frame [simp]: "frame a (push_diagnostic d b) = frame a b"
  by (simp add: push_diagnostic_def)

lemma convert_region_frame: "buxn_ls_convert_region utf8 r a = Inr (q, a') \<Longrightarrow> frame a a'"
  by (blast intro: lines_only_frame convert_region_lines_only)

lemma add_related_frame: "add_related utf8 r (d, a) = Inr (d', a') \<Longrightarrow> frame a a'"
  by (auto simp: add_related_def ok_simps split: option.splits if_splits dest: convert_region_frame)

lemma asm_report_frame: "buxn_asm_report utf8 t r a = Inr a' \<Longrightarrow> frame a a'"
  by (auto simp: buxn_asm_report_def Let_def ok_simps split: if_splits
      dest!: convert_region_frame add_related_frame intro: frame_trans)

lemma chess_report_frame: "buxn_chess_report utf8 tr t r a = Inr a' \<Longrightarrow> frame a a'"
  by (auto simp: buxn_chess_report_def Let_def ok_simps split: if_splits chess_report_type.splits
      dest!: convert_region_frame add_related_frame intro: frame_trans)

lemma chess_deo_frame: "buxn_chess_deo utf8 t st v p a = Inr a' \<Longrightarrow> frame a a'"
  by (auto simp: buxn_chess_deo_def ok_simps split: if_splits dest!: convert_region_frame)

section \<open>Opening a file\<close>

text \<open>
  The state of a run that was started on the last of the entries \<open>P\<close>: the previous context and the
  queue are those it was started with, and known nodes keep their names.
\<close>

definition run_inv :: "buxn_ls_workspace \<Rightarrow> analyzer \<Rightarrow> nat list \<Rightarrow> analyzer \<times> asm_ctx \<Rightarrow> bool" where
  "run_inv ws a0 P s \<longleftrightarrow>
     an_previous (fst s) = an_previous a0 \<and> an_queue (fst s) = an_queue a0 \<and>
     src_inv (an_current (fst s)) \<and> entries_inv P (an_current (fst s)) \<and>
     src_size (an_current a0) \<le> src_size (an_current (fst s)) \<and>
     (\<forall>n < src_size (an_current a0). fname (an_current (fst s)) n = fname (an_current a0) n) \<and>
     (\<exists>P'. P = P' @ [ac_entry_node (snd s)])"

lemma run_inv_frame:
  assumes "run_inv ws a0 P (a, ctx)" and "frame a a'" and "ac_entry_node ctx' = ac_entry_node ctx"
  shows "run_inv ws a0 P (a', ctx')"
  using assms same_sources_src_inv same_sources_entries same_sources_simps [of "an_current a" "an_current a'"]
  by (auto simp: run_inv_def frame_def)

lemma entries_alloc:
  assumes "entries_inv P cx" and inv: "src_inv cx" and "src_edges cx' = src_edges cx"
    and "cx_src_nodes cx' = cx_src_nodes cx @ [node]"
  shows "entries_inv P cx'"
proof -
  have "src_size cx' = Suc (src_size cx)" using assms(4) by (simp add: src_size_def)
  then show ?thesis
    using assms src_edges_bound [OF inv]
    by (fastforce simp: entries_inv_def src_size_def nth_append)
qed

lemma entries_add_edge:
  assumes ent: "entries_inv (P @ [e]) cx" and inv: "src_inv cx" and "n < src_size cx" and "n \<noteq> e"
    and nodes: "cx_src_nodes cx' = (cx_src_nodes cx)[n := (cx_src_nodes cx ! n)\<lparr>sn_analyzed := True\<rparr>]"
    and edges: "src_edges cx' = insert (e, n) (src_edges cx)"
  shows "entries_inv (P @ [e]) cx'"
proof -
  have "src_size cx' = src_size cx" by (simp add: src_size_def nodes)
  moreover have "sn_analyzed (cx_src_nodes cx' ! y)"
    if "sn_analyzed (cx_src_nodes cx ! y) \<or> y = n" for y
    using that assms(3) by (cases "y = n") (auto simp: nodes src_size_def)
  moreover have "\<exists>us vs. P @ [e] = us @ e # vs \<and> n \<notin> set (e # vs)"
    using \<open>n \<noteq> e\<close> by (intro exI [of _ P] exI [of _ "[]"]) simp
  ultimately show ?thesis
    using ent by (fastforce simp: entries_inv_def edges)
qed

lemma entries_mark:
  assumes ent: "entries_inv P cx" and "cx_src_graph cx' = cx_src_graph cx"
    and nodes: "cx_src_nodes cx' = (cx_src_nodes cx)[n := (cx_src_nodes cx ! n)\<lparr>sn_analyzed := True\<rparr>]"
  shows "entries_inv P cx'"
proof -
  have "src_size cx' = src_size cx" "src_edges cx' = src_edges cx"
    using assms(2) by (simp_all add: src_size_def nodes src_edges_def)
  moreover have "sn_analyzed (cx_src_nodes cx' ! y)" if "sn_analyzed (cx_src_nodes cx ! y)" for y
    using that by (cases "n < length (cx_src_nodes cx)"; cases "y = n")
      (auto simp: nodes nth_list_update list_update_beyond)
  ultimately show ?thesis
    using ent by (fastforce simp: entries_inv_def)
qed

lemma upd_src_name_inv:
  assumes "\<And>sn. sn_filename (f sn) = sn_filename sn" and "src_inv cx"
  shows "src_inv (upd_src n f cx)" "src_size (upd_src n f cx) = src_size cx"
    "fname (upd_src n f cx) m = fname cx m"
    "cx_sources (upd_src n f cx) = cx_sources cx" "cx_src_graph (upd_src n f cx) = cx_src_graph cx"
proof -
  show name: "fname (upd_src n f cx) m = fname cx m" for m
    using assms(1) by (cases "n < length (cx_src_nodes cx)")
      (auto simp: fname_def upd_src_def nth_list_update list_update_beyond)
  show size: "src_size (upd_src n f cx) = src_size cx" by (simp add: src_size_def upd_src_def)
  show "cx_sources (upd_src n f cx) = cx_sources cx" "cx_src_graph (upd_src n f cx) = cx_src_graph cx"
    by (simp_all add: upd_src_def)
  then show "src_inv (upd_src n f cx)"
    using assms(2) name size by (simp add: src_inv_def src_size_def fname_def)
qed

text \<open>The source node that \<open>fopen\<close> finds or allocates.\<close>

definition open_node :: "bhash_layout \<Rightarrow> buxn_ls_workspace \<Rightarrow> string \<Rightarrow> analyzer_ctx \<Rightarrow> nat \<times> analyzer_ctx" where
  "open_node lay ws filename cx =
     (case bhash_get (cx_sources cx) filename of
        Some n \<Rightarrow> (n, cx)
      | None \<Rightarrow> (case buxn_ls_alloc_node ws filename cx of (n, cx') \<Rightarrow> (n, put_source lay n cx')))"

lemma open_node_inv:
  assumes ws: "workspace_inv ws" and inv: "src_inv cx" and ent: "entries_inv P cx"
    and open1: "open_node lay ws filename cx = (n, cx1)"
  shows "src_inv cx1 \<and> entries_inv P cx1 \<and> n < src_size cx1 \<and> fname cx1 n = filename \<and>
    src_size cx \<le> src_size cx1 \<and> (\<forall>m < src_size cx. fname cx1 m = fname cx m)"
proof (cases "bhash_get (cx_sources cx) filename")
  case None
  define node where "node = \<lparr>sn_filename = drop (length ''file://'' + root_dir_len ws) (file_uri ws filename),
    sn_uri = file_uri ws filename, sn_references = [], sn_definitions = [], sn_analyzed = False\<rparr>"
  have node: "sn_filename node = filename"
    using ws by (simp add: node_def file_uri_def workspace_inv_def)
  obtain cx' where alloc: "alloc_src node cx = (n, cx')" and cx1: "cx1 = put_source lay n cx'"
    using open1 None
    by (auto simp: open_node_def buxn_ls_alloc_node_def Let_def node_def split: prod.splits)
  have "filename \<notin> src_keys cx" using None by (simp add: src_keys_get)
  note p = alloc_put_src_inv [OF inv this node alloc cx1]
  have "fname cx1 m = (if m < src_size cx then fname cx m else filename)" if "m < src_size cx1" for m
    using that by (auto simp: fname_def p(5,6) nth_append src_size_def node less_Suc_eq)
  with p entries_alloc [OF ent inv p(3,5)] show ?thesis by auto
next
  case (Some k)
  with open1 inv ent show ?thesis by (auto simp: open_node_def src_invD(4))
qed

lemma fopen_run_inv:
  assumes ws: "workspace_inv ws" and run: "run_inv ws a0 P (a, ctx)"
    and open1: "buxn_asm_fopen api ws filename (a, ctx) = (h, a', ctx')"
  shows "run_inv ws a0 P (a', ctx')"
proof (cases "file_content api ws filename a")
  case None
  with open1 run show ?thesis by (simp add: buxn_asm_fopen_def)
next
  case (Some content)
  let ?e = "ac_entry_node ctx" and ?cx = "an_current a"
  from run obtain P' where P: "P = P' @ [?e]" by (auto simp: run_inv_def)
  have inv: "src_inv ?cx" "entries_inv P ?cx" using run by (simp_all add: run_inv_def)
  obtain n cx1 where node: "open_node (aa_layout api) ws filename ?cx = (n, cx1)"
    by (cases "open_node (aa_layout api) ws filename ?cx")
  note o = open_node_inv [OF ws inv node]
  define cx2 where "cx2 = upd_src n (\<lambda>sn. sn\<lparr>sn_analyzed := True\<rparr>) cx1"
  define cx3 where "cx3 = (if n \<noteq> ?e
    then cx2\<lparr>cx_src_graph := buxn_ls_graph_add_edge (cx_src_graph cx2) ?e n\<rparr> else cx2)"
  have cx: "an_current a' = cx3" "an_previous a' = an_previous a" "an_queue a' = an_queue a"
    "ac_entry_node ctx' = ?e"
    using open1 Some node
    by (cases "bhash_has (an_files a) filename";
        simp add: buxn_asm_fopen_def open_node_def [symmetric] cx2_def cx3_def;
        auto simp: Let_def split: if_splits)+
  have i2: "src_inv cx2" "src_size cx2 = src_size cx1" "fname cx2 m = fname cx1 m"
    "cx_src_graph cx2 = cx_src_graph cx1" for m
    using upd_src_name_inv [of "\<lambda>sn. sn\<lparr>sn_analyzed := True\<rparr>" cx1] o by (simp_all add: cx2_def)
  have nodes2: "cx_src_nodes cx2 = (cx_src_nodes cx1)[n := (cx_src_nodes cx1 ! n)\<lparr>sn_analyzed := True\<rparr>]"
    by (simp add: cx2_def upd_src_def)
  have e: "?e < src_size cx1"
    using o by (auto simp: entries_inv_def P)
  have i3: "src_size cx3 = src_size cx1 \<and> fname cx3 m = fname cx1 m \<and> src_inv cx3 \<and> entries_inv P cx3" for m
  proof (cases "n = ?e")
    case True
    then show ?thesis using i2 entries_mark [OF _ i2(4) nodes2] o by (simp add: cx3_def)
  next
    case False
    have "src_inv cx3"
      using i2(1,2) False o e
      by (simp add: cx3_def src_inv_def add_edge_inv src_size_def)
    moreover have "entries_inv P cx3"
      unfolding P
      by (rule entries_add_edge [where cx = cx1 and n = n])
        (use o False P nodes2 i2(4) in \<open>auto simp: cx3_def src_edges_def\<close>)
    ultimately show ?thesis
      using i2(2,3) False by (simp add: cx3_def src_size_def fname_def)
  qed
  show ?thesis
    using run cx i3 o P by (auto simp: run_inv_def)
qed

lemma handle_call_run_inv:
  assumes ws: "workspace_inv ws" and run: "run_inv ws a0 P s"
    and call: "handle_call api ws c s = Inr (r, s')"
  shows "run_inv ws a0 P s'"
proof -
  obtain a ctx where s: "s = (a, ctx)" by (cases s)
  obtain a' ctx' where s': "s' = (a', ctx')" by (cases s')
  have "run_inv ws a0 P s' \<or> frame a a' \<and> ac_entry_node ctx' = ac_entry_node ctx"
    using call s s' fopen_run_inv [OF ws run [unfolded s]]
    by (cases c)
      (auto simp: handle_call_def ok_simps buxn_asm_fgetc_def buxn_asm_fclose_def buxn_asm_put_rom_def
        Let_def split: prod.splits option.splits if_splits
        dest: put_symbol_frame asm_report_frame chess_report_frame chess_deo_frame)
  then show ?thesis
    using run_inv_frame run s s' by blast
qed

lemma run_calls_run_inv:
  assumes ws: "workspace_inv ws" and "run_inv ws a0 P s" and "run_calls api ws t s = Inr (r, s')"
  shows "run_inv ws a0 P s'"
  using assms(2,3)
proof (induction t arbitrary: s)
  case (Done b)
  then show ?case by simp
next
  case (Call c k)
  from Call.prems(2) obtain resp s1 where "handle_call api ws c s = Inr (resp, s1)"
    "run_calls api ws (k resp) s1 = Inr (r, s')"
    by (auto simp: ok_simps)
  with Call.IH [OF rangeI] handle_call_run_inv [OF ws Call.prems(1)] show ?case by blast
qed

section \<open>After the run\<close>

lemma copy_symbol_frame: "frame a b \<Longrightarrow> frame a (copy_symbol n sy b)"
proof -
  assume "frame a b"
  moreover have "frame b (copy_symbol n sy b)"
  proof -
    obtain m cx where al: "alloc_sym (sy\<lparr>sy_source := n\<rparr>) (an_current b) = (m, cx)"
      by (cases "alloc_sym (sy\<lparr>sy_source := n\<rparr>) (an_current b)")
    have "same_sources cx (upd_src n (\<lambda>sn. sn\<lparr>sn_definitions := m # sn_definitions sn\<rparr>) cx)"
      by (rule upd_src_same) simp
    with alloc_sym_same [OF al] al show ?thesis
      by (auto simp: copy_symbol_def frame_def same_sources_def)
  qed
  ultimately show ?thesis by (rule frame_trans)
qed

lemma fold_frame:
  "(\<And>x b. x \<in> set xs \<Longrightarrow> frame a b \<Longrightarrow> frame a (f x b)) \<Longrightarrow> frame a b \<Longrightarrow> frame a (fold f xs b)"
  by (induction xs arbitrary: b) auto

lemma bring_file_forward_frame: "frame a b \<Longrightarrow> frame a (bring_file_forward e b)"
  by (auto simp: bring_file_forward_def Let_def intro!: fold_frame copy_symbol_frame
      split: prod.splits option.splits)

lemma bring_forward_frame: "frame a (bring_forward a)"
  unfolding bring_forward_def by (rule fold_frame) (auto intro: bring_file_forward_frame)

lemma connect_reference_frame:
  assumes "connect_reference utf8 sy a = Inr a'"
  shows "frame a a'"
proof -
  from assms obtain d where d: "find_def_node sy a = Inr d" by (auto simp: connect_reference_def ok_simps)
  show ?thesis
  proof (cases d)
    case None
    with d assms show ?thesis by (simp add: connect_reference_def)
  next
    case (Some k)
    with d assms obtain n a1 where mk: "buxn_ls_make_sym_node utf8 sy a = Inr (n, a1)"
      by (auto simp: connect_reference_def ok_simps)
    let ?src = "sy_source (cx_sym_nodes (an_current a1) ! n)"
    have "same_sources (an_current a1) (upd_src ?src (\<lambda>sn. sn\<lparr>sn_references := n # sn_references sn\<rparr>) (an_current a1))"
      by (rule upd_src_same) simp
    with d Some mk assms have "frame a1 a'"
      by (auto simp: connect_reference_def Let_def frame_def same_sources_def)
    with make_sym_node_frame [OF mk] show ?thesis by (rule frame_trans)
  qed
qed

lemma connect_references_frame:
  assumes "connect_references utf8 a = Inr a'"
  shows "frame a a'"
  using assms unfolding connect_references_def
  by (rule ofold_inv) (auto dest: connect_reference_frame intro: frame_trans)

section \<open>A whole analysis\<close>

lemma entries_start:
  assumes "entries_inv P cx" and "e < src_size cx" and "e \<notin> set P"
    and "\<not> sn_analyzed (cx_src_nodes cx ! e)"
  shows "entries_inv (P @ [e]) cx"
proof -
  have "\<exists>us vs. P @ [e] = us @ x # vs \<and> y \<notin> set (x # vs)"
    if "sn_analyzed (cx_src_nodes cx ! y)" "P = us @ x # vs" "y \<notin> set (x # vs)" for x y us vs
    using that assms(4) by (intro exI [of _ us] exI [of _ "vs @ [e]"]) auto
  with assms show ?thesis by (fastforce simp: entries_inv_def)
qed

lemma run_assembler_inv:
  assumes ws: "workspace_inv ws" and run: "run_inv ws a0 P (a, init_asm_ctx n)"
    and "run_assembler api ws n a = Inr s"
  shows "run_inv ws a0 P s"
proof -
  from assms(3) obtain b a1 ctx1 where r: "run_calls api ws
      (aa_asm api (sn_filename (cx_src_nodes (an_current a) ! n))) (a, init_asm_ctx n) = Inr (b, a1, ctx1)"
    and next1: "(if b \<and> \<not> ac_rom_is_empty ctx1
      then obind (run_calls api ws (aa_chess_end api (ac_chess_syms ctx1)) (a1, ctx1)) (\<lambda>(r, s). Inr s)
      else Inr (a1, ctx1)) = Inr s"
    by (auto simp: run_assembler_def ok_simps)
  have "run_inv ws a0 P (a1, ctx1)" by (rule run_calls_run_inv [OF ws run r])
  with next1 run_calls_run_inv [OF ws] show ?thesis
    by (auto simp: ok_simps split: if_splits)
qed

text \<open>Analysing one file of the queue: the state is as in a run, and the file was an entry or not.\<close>

definition loop_inv :: "buxn_ls_workspace \<Rightarrow> analyzer \<Rightarrow> nat list \<Rightarrow> analyzer \<Rightarrow> bool" where
  "loop_inv ws a0 P a \<longleftrightarrow>
     an_previous a = an_previous a0 \<and> an_queue a = an_queue a0 \<and>
     src_inv (an_current a) \<and> entries_inv P (an_current a) \<and>
     src_size (an_current a0) \<le> src_size (an_current a) \<and>
     (\<forall>n < src_size (an_current a0). fname (an_current a) n = fname (an_current a0) n)"

lemma loop_inv_frame: "loop_inv ws a0 P a \<Longrightarrow> frame a a' \<Longrightarrow> loop_inv ws a0 P a'"
  using same_sources_src_inv same_sources_entries same_sources_simps [of "an_current a" "an_current a'"]
  by (auto simp: loop_inv_def frame_def)

lemma run_inv_loop: "run_inv ws a0 P (a, ctx) \<Longrightarrow> loop_inv ws a0 P a"
  unfolding run_inv_def loop_inv_def fst_conv snd_conv by blast

lemma analyze_node_start:
  assumes inv: "loop_inv ws a0 P a" and "n < src_size (an_current a0)" and "n \<notin> set P"
    and "\<not> sn_analyzed (cx_src_nodes (an_current a) ! n)"
  shows "run_inv ws a0 (P @ [n]) (clear_run a, init_asm_ctx n)"
proof -
  have n: "n < src_size (an_current a)" using assms(2) inv by (simp add: loop_inv_def)
  have "entries_inv (P @ [n]) (an_current a)"
    using entries_start [OF _ n assms(3,4)] inv by (simp add: loop_inv_def)
  then show ?thesis
    using inv by (simp add: run_inv_def loop_inv_def clear_run_def init_asm_ctx_def)
qed

lemma analyze_node_inv:
  assumes ws: "workspace_inv ws" and inv: "loop_inv ws a0 P a" and "n < src_size (an_current a0)"
    and "n \<notin> set P" and "analyze_node api ws n a = Inr a'"
  shows "\<exists>P'. set P' \<subseteq> insert n (set P) \<and> loop_inv ws a0 P' a'"
proof (cases "sn_analyzed (cx_src_nodes (an_current a) ! n)")
  case True
  with assms show ?thesis by (auto simp: analyze_node_def)
next
  case False
  with assms(5) obtain a1 ctx1 where r: "run_assembler api ws n (clear_run a) = Inr (a1, ctx1)"
    and c: "connect_references (aa_utf8 api) (bring_forward a1) = Inr a'"
    by (auto simp: analyze_node_def ok_simps)
  note run = analyze_node_start [OF inv assms(3,4) False]
  from run_assembler_inv [OF ws run r] have "loop_inv ws a0 (P @ [n]) a1"
    by (rule run_inv_loop)
  then have "loop_inv ws a0 (P @ [n]) a'"
    by (rule loop_inv_frame) (rule frame_trans [OF bring_forward_frame connect_references_frame [OF c]])
  then show ?thesis by (intro exI [of _ "P @ [n]"]) simp
qed

lemma analyze_nodes_inv:
  assumes ws: "workspace_inv ws" and "loop_inv ws a0 P a"
    and "set ns \<subseteq> {..<src_size (an_current a0)}" and "distinct ns" and "set ns \<inter> set P = {}"
    and "ofold (analyze_node api ws) ns a = Inr a'"
  shows "\<exists>P'. loop_inv ws a0 P' a'"
  using assms(2-)
proof (induction ns arbitrary: a P)
  case (Cons n ns)
  from Cons.prems(5) obtain b where b: "analyze_node api ws n a = Inr b"
    "ofold (analyze_node api ws) ns b = Inr a'" by (auto simp: ok_simps)
  have "n < src_size (an_current a0)" "n \<notin> set P" using Cons.prems(2,4) by auto
  from analyze_node_inv [OF ws Cons.prems(1) this b(1)] obtain P' where
    P': "set P' \<subseteq> insert n (set P)" "loop_inv ws a0 P' b" by blast
  show ?case
    by (rule Cons.IH [OF P'(2) _ _ _ b(2)]) (use Cons.prems P'(1) in auto)
qed auto

lemma loop_start:
  assumes "queue_inv ws pv a"
  shows "loop_inv ws a [] (a\<lparr>an_lines := [], an_files := [], an_diagnostics := []\<rparr>)"
  using assms by (simp add: loop_inv_def queue_inv_def entries_inv_def)

definition analyzer_inv :: "analyzer \<Rightarrow> bool" where
  "analyzer_inv a \<longleftrightarrow> src_inv (an_current a) \<and> ranked (an_current a)"

lemma sort_diagnostics_frame: "sort_diagnostics api a = Inr a' \<Longrightarrow> frame a a'"
  by (auto simp: sort_diagnostics_def split: if_splits)

lemma analyze_loop_inv:
  assumes "workspace_inv ws" and "analyzer_inv a" and "buxn_ls_analyze api ws a = Inr a'"
  shows "\<exists>a1 P. queue_docs (aa_layout api) ws (swap_contexts a) = Inr a1 \<and>
    queue_inv ws (an_current a) a1 \<and> src_keys (an_current a1) = set (bhash_keys (docs ws)) \<and>
    loop_inv ws a1 P a'"
proof -
  from assms(2) obtain a1 where a1: "queue_docs (aa_layout api) ws (swap_contexts a) = Inr a1"
    "queue_inv ws (an_current a) a1" "src_keys (an_current a1) = set (bhash_keys (docs ws))"
    using queue_docs_result [OF assms(1)] unfolding analyzer_inv_def by blast
  define a2 where "a2 = a1\<lparr>an_lines := [], an_files := [], an_diagnostics := []\<rparr>"
  from assms(3) a1(1) obtain a3 where
    a3: "ofold (analyze_node api ws) (an_queue a2) a2 = Inr a3" "sort_diagnostics api a3 = Inr a'"
    by (auto simp: buxn_ls_analyze_def Let_def ok_simps a2_def)
  have q: "an_queue a2 = [0..<src_size (an_current a1)]"
    using a1(2) by (simp add: a2_def queue_inv_def)
  have "loop_inv ws a1 [] a2" unfolding a2_def by (rule loop_start [OF a1(2)])
  moreover have "set (an_queue a2) \<subseteq> {..<src_size (an_current a1)}" "distinct (an_queue a2)"
    by (auto simp: q)
  ultimately obtain P where "loop_inv ws a1 P a3"
    using analyze_nodes_inv [OF assms(1) _ _ _ _ a3(1)] by force
  with sort_diagnostics_frame [OF a3(2)] have "loop_inv ws a1 P a'" by (blast intro: loop_inv_frame)
  with a1 show ?thesis by blast
qed

lemma analyze_keeps_inv:
  assumes "workspace_inv ws" and "analyzer_inv a" and "buxn_ls_analyze api ws a = Inr a'"
  shows "analyzer_inv a'"
proof -
  from analyze_loop_inv [OF assms] obtain a1 P where "loop_inv ws a1 P a'" by blast
  then show ?thesis
    using entries_ranked by (auto simp: analyzer_inv_def loop_inv_def ranked_def)
qed

lemma analyzer_init_inv: "analyzer_inv buxn_ls_analyzer_init"
proof -
  have "src_edges empty_ctx = {}" by (simp add: src_edges_def empty_ctx_def)
  then show ?thesis
    using ranks_empty [of empty_ctx]
    by (auto simp: analyzer_inv_def buxn_ls_analyzer_init_def ranked_def)
qed

end
