(* ===== verification/Analyze_Syms.thy ===== *)
theory Analyze_Syms
  imports Analyze_Frame
begin

text \<open>
  The invariant of the symbols of a context: the lists of definitions and references of a source
  node hold known symbols of that node, each once; every edge of the symbol graph leads from a
  reference to a definition; every reference has exactly one outgoing edge. Every callback of
  the assembler and every step after its run keeps it.
\<close>

section \<open>The invariant\<close>

definition nsyms :: "analyzer_ctx \<Rightarrow> nat" where
  "nsyms cx = length (cx_sym_nodes cx)"

definition sym_src :: "analyzer_ctx \<Rightarrow> nat \<Rightarrow> nat" where
  "sym_src cx n = sy_source (cx_sym_nodes cx ! n)"

definition src_defs :: "analyzer_ctx \<Rightarrow> nat \<Rightarrow> nat list" where
  "src_defs cx s = sn_definitions (cx_src_nodes cx ! s)"

definition src_refs :: "analyzer_ctx \<Rightarrow> nat \<Rightarrow> nat list" where
  "src_refs cx s = sn_references (cx_src_nodes cx ! s)"

definition is_def :: "analyzer_ctx \<Rightarrow> nat \<Rightarrow> bool" where
  "is_def cx n \<longleftrightarrow> n < nsyms cx \<and> sym_src cx n < src_size cx \<and> n \<in> set (src_defs cx (sym_src cx n))"

definition is_ref :: "analyzer_ctx \<Rightarrow> nat \<Rightarrow> bool" where
  "is_ref cx n \<longleftrightarrow> n < nsyms cx \<and> sym_src cx n < src_size cx \<and> n \<in> set (src_refs cx (sym_src cx n))"

definition listed_inv :: "analyzer_ctx \<Rightarrow> bool" where
  "listed_inv cx \<longleftrightarrow>
     (\<forall>s < src_size cx. distinct (src_defs cx s @ src_refs cx s) \<and>
        (\<forall>n \<in> set (src_defs cx s @ src_refs cx s). n < nsyms cx \<and> sym_src cx n = s))"

definition linked_inv :: "analyzer_ctx \<Rightarrow> bool" where
  "linked_inv cx \<longleftrightarrow>
     graph_inv (cx_sym_graph cx) \<and> g_size (cx_sym_graph cx) = nsyms cx \<and>
     (\<forall>(r, d) \<in> set (pairs (cx_sym_graph cx)). is_ref cx r \<and> is_def cx d) \<and>
     (\<forall>r. is_ref cx r \<longrightarrow> (\<exists>d. out_nodes (cx_sym_graph cx) r = [d]))"

definition sym_inv :: "analyzer_ctx \<Rightarrow> bool" where
  "sym_inv cx \<longleftrightarrow> listed_inv cx \<and> linked_inv cx"

lemma linked_invI:
  assumes "graph_inv (cx_sym_graph cx)" and "g_size (cx_sym_graph cx) = nsyms cx"
    and "\<And>r d. (r, d) \<in> set (pairs (cx_sym_graph cx)) \<Longrightarrow> is_ref cx r \<and> is_def cx d"
    and "\<And>r. is_ref cx r \<Longrightarrow> \<exists>d. out_nodes (cx_sym_graph cx) r = [d]"
  shows "linked_inv cx"
  using assms unfolding linked_inv_def by blast

lemma linked_invD:
  assumes "linked_inv cx"
  shows "graph_inv (cx_sym_graph cx)" "g_size (cx_sym_graph cx) = nsyms cx"
    "(r, d) \<in> set (pairs (cx_sym_graph cx)) \<Longrightarrow> is_ref cx r \<and> is_def cx d"
    "is_ref cx r \<Longrightarrow> \<exists>d. out_nodes (cx_sym_graph cx) r = [d]"
  using assms unfolding linked_inv_def by blast+

lemma listed_invI:
  assumes "\<And>s. s < src_size cx \<Longrightarrow> distinct (src_defs cx s @ src_refs cx s)"
    and "\<And>s n. s < src_size cx \<Longrightarrow> n \<in> set (src_defs cx s @ src_refs cx s) \<Longrightarrow>
      n < nsyms cx \<and> sym_src cx n = s"
  shows "listed_inv cx"
  using assms unfolding listed_inv_def by blast

lemma listed_invD:
  assumes "listed_inv cx" and "s < src_size cx"
  shows "distinct (src_defs cx s @ src_refs cx s)"
    "n \<in> set (src_defs cx s @ src_refs cx s) \<Longrightarrow> n < nsyms cx \<and> sym_src cx n = s"
  using assms unfolding listed_inv_def by blast+

text \<open>A symbol that no list holds yet.\<close>

definition fresh_sym :: "analyzer_ctx \<Rightarrow> nat \<Rightarrow> bool" where
  "fresh_sym cx n \<longleftrightarrow> n < nsyms cx \<and> (\<forall>s < src_size cx. n \<notin> set (src_defs cx s) \<and> n \<notin> set (src_refs cx s))"

text \<open>What every operation guarantees.\<close>

definition sym_step :: "analyzer_ctx \<Rightarrow> analyzer_ctx \<Rightarrow> bool" where
  "sym_step cx cx' \<longleftrightarrow>
     (sym_inv cx \<longrightarrow> sym_inv cx') \<and> (\<forall>n. is_def cx n \<longrightarrow> is_def cx' n) \<and> nsyms cx \<le> nsyms cx'"

lemma sym_step_refl [simp]: "sym_step cx cx"
  by (simp add: sym_step_def)

lemma sym_step_trans [trans]: "sym_step a b \<Longrightarrow> sym_step b c \<Longrightarrow> sym_step a c"
  by (auto simp: sym_step_def)

section \<open>Operations that keep sources, lists and links\<close>

definition sym_same :: "analyzer_ctx \<Rightarrow> analyzer_ctx \<Rightarrow> bool" where
  "sym_same cx cx' \<longleftrightarrow>
     map sy_source (cx_sym_nodes cx') = map sy_source (cx_sym_nodes cx) \<and>
     cx_sym_graph cx' = cx_sym_graph cx \<and>
     map sn_definitions (cx_src_nodes cx') = map sn_definitions (cx_src_nodes cx) \<and>
     map sn_references (cx_src_nodes cx') = map sn_references (cx_src_nodes cx)"

lemma sym_same_refl [simp]: "sym_same cx cx"
  by (simp add: sym_same_def)

lemma sym_same_simps:
  assumes "sym_same cx cx'"
  shows "nsyms cx' = nsyms cx" "src_size cx' = src_size cx" "cx_sym_graph cx' = cx_sym_graph cx"
    "n < nsyms cx \<Longrightarrow> sym_src cx' n = sym_src cx n"
    "s < src_size cx \<Longrightarrow> src_defs cx' s = src_defs cx s"
    "s < src_size cx \<Longrightarrow> src_refs cx' s = src_refs cx s"
    "is_def cx' n = is_def cx n" "is_ref cx' n = is_ref cx n"
proof -
  have len: "length (cx_src_nodes cx') = length (cx_src_nodes cx)"
    using assms unfolding sym_same_def by (metis length_map)
  have len2: "length (cx_sym_nodes cx') = length (cx_sym_nodes cx)"
    using assms unfolding sym_same_def by (metis length_map)
  from len len2 show a: "nsyms cx' = nsyms cx" "src_size cx' = src_size cx"
    by (simp_all add: nsyms_def src_size_def)
  show "cx_sym_graph cx' = cx_sym_graph cx" using assms by (simp add: sym_same_def)
  show b: "sym_src cx' n = sym_src cx n" if "n < nsyms cx" for n
    using assms that len2 unfolding sym_same_def sym_src_def nsyms_def by (metis nth_map)
  show c: "src_defs cx' s = src_defs cx s" if "s < src_size cx" for s
    using assms that len unfolding sym_same_def src_defs_def src_size_def by (metis nth_map)
  show d: "src_refs cx' s = src_refs cx s" if "s < src_size cx" for s
    using assms that len unfolding sym_same_def src_refs_def src_size_def by (metis nth_map)
  show "is_def cx' n = is_def cx n" "is_ref cx' n = is_ref cx n"
    by (auto simp: is_def_def is_ref_def a b c d)
qed

lemma sym_same_step: "sym_same cx cx' \<Longrightarrow> sym_step cx cx'"
proof -
  assume same: "sym_same cx cx'"
  note s = sym_same_simps [OF same]
  have "sym_inv cx \<Longrightarrow> sym_inv cx'"
    by (simp add: sym_inv_def listed_inv_def linked_inv_def s(1-3,5-8))
      (use s(4) in auto)
  with s(1,7) show ?thesis by (simp add: sym_step_def)
qed

lemma map_upd_same:
  assumes "\<And>x. g (f x) = g x"
  shows "map g (xs[n := f (xs ! n)]) = map g xs"
proof (cases "n < length xs")
  case True
  then have "g (xs ! n) = map g xs ! n" by simp
  with assms show ?thesis by (simp only: map_update list_update_id)
qed (simp add: list_update_beyond)

lemma upd_sym_sym_same: "(\<And>sy. sy_source (f sy) = sy_source sy) \<Longrightarrow> sym_same cx (upd_sym n f cx)"
  by (simp add: sym_same_def upd_sym_def map_upd_same)

lemma sym_same_upd_sym [simp]:
  "(\<And>sy. sy_source (f sy) = sy_source sy) \<Longrightarrow> sym_same cx (upd_sym n f cx') = sym_same cx cx'"
  by (simp add: sym_same_def upd_sym_def map_upd_same)

lemma upd_src_sym_same:
  "(\<And>sn. sn_definitions (f sn) = sn_definitions sn \<and> sn_references (f sn) = sn_references sn) \<Longrightarrow>
     sym_same cx (upd_src n f cx)"
  by (simp add: sym_same_def upd_src_def map_upd_same)

section \<open>Operations that add\<close>

lemma alloc_src_step:
  assumes "alloc_src node cx = (n, cx')" and "sn_definitions node = []" and "sn_references node = []"
  shows "sym_step cx cx'"
proof -
  have cx': "cx_src_nodes cx' = cx_src_nodes cx @ [node]" "cx_sym_nodes cx' = cx_sym_nodes cx"
    "cx_sym_graph cx' = cx_sym_graph cx"
    using assms(1) by (auto simp: alloc_src_def)
  have size: "src_size cx' = Suc (src_size cx)" "nsyms cx' = nsyms cx" "sym_src cx' n = sym_src cx n" for n
    by (simp_all add: src_size_def nsyms_def sym_src_def cx')
  have lists: "src_defs cx' s = (if s < src_size cx then src_defs cx s else [])"
    "src_refs cx' s = (if s < src_size cx then src_refs cx s else [])" if "s < src_size cx'" for s
    using that assms(2,3) by (auto simp: src_defs_def src_refs_def cx' src_size_def nth_append less_Suc_eq)
  have listed: "is_def cx' n = is_def cx n" "is_ref cx' n = is_ref cx n" for n
    using lists [of "sym_src cx n"] by (auto simp: is_def_def is_ref_def size)
  have "sym_inv cx'" if "sym_inv cx"
    using that by (auto simp: sym_inv_def listed_inv_def linked_inv_def size listed lists cx'(3))
  then show ?thesis by (simp add: sym_step_def listed size)
qed

lemma alloc_sym_step:
  assumes "alloc_sym node cx = (n, cx')" and "sym_inv cx"
  shows "sym_inv cx'" "fresh_sym cx' n" "sym_src cx' n = sy_source node" "n = nsyms cx"
    "nsyms cx' = Suc (nsyms cx)" "is_def cx m \<Longrightarrow> is_def cx' m" "sym_step cx cx'"
    "out_nodes (cx_sym_graph cx') n = []"
proof -
  have cx': "n = nsyms cx" "cx_sym_nodes cx' = cx_sym_nodes cx @ [node]"
    "cx_src_nodes cx' = cx_src_nodes cx" "cx_sym_graph cx' = new_node (cx_sym_graph cx)"
    using assms(1) by (auto simp: alloc_sym_def nsyms_def)
  show n: "n = nsyms cx" "nsyms cx' = Suc (nsyms cx)" "sym_src cx' n = sy_source node"
    using cx' by (simp_all add: nsyms_def sym_src_def)
  have old: "sym_src cx' m = sym_src cx m" if "m < nsyms cx" for m
    using that by (simp add: sym_src_def cx' nsyms_def nth_append)
  have same: "src_size cx' = src_size cx" "src_defs cx' = src_defs cx" "src_refs cx' = src_refs cx"
    by (simp_all add: src_size_def src_defs_def src_refs_def fun_eq_iff cx')
  have li: "listed_inv cx" "linked_inv cx" using assms(2) by (simp_all add: sym_inv_def)
  then show "fresh_sym cx' n" by (force simp: fresh_sym_def listed_inv_def n same)
  have def: "is_def cx m \<Longrightarrow> is_def cx' m" "is_ref cx m \<Longrightarrow> is_ref cx' m" for m
    by (auto simp: is_def_def is_ref_def n same old)
  show "is_def cx m \<Longrightarrow> is_def cx' m" by (rule def(1))
  have ref: "is_ref cx m" if "is_ref cx' m" for m
    using that \<open>fresh_sym cx' n\<close> old n(1,2) same
    by (cases "m = n") (auto simp: is_ref_def fresh_sym_def)
  have "listed_inv cx'"
    by (rule listed_invI) (use listed_invD [OF li(1)] old in \<open>auto simp: same n(2) less_Suc_eq\<close>)
  moreover have "linked_inv cx'"
  proof (rule linked_invI)
    note l = linked_invD [OF li(2)]
    show "graph_inv (cx_sym_graph cx')" "g_size (cx_sym_graph cx') = nsyms cx'"
      using l(1,2) by (simp_all add: cx'(4) new_node_inv n(2))
    show "is_ref cx' r \<and> is_def cx' d" if "(r, d) \<in> set (pairs (cx_sym_graph cx'))" for r d
      using that l(3) [of r d] def by (simp add: cx'(4))
    show "\<exists>d. out_nodes (cx_sym_graph cx') r = [d]" if "is_ref cx' r" for r
    proof -
      have "is_ref cx r" "r < g_size (cx_sym_graph cx)"
        using ref [OF that] l(2) by (simp_all add: is_ref_def)
      then show ?thesis using l(1,4) by (simp add: cx'(4) gr.outs_add_node)
    qed
  qed
  ultimately show "sym_inv cx'" by (simp add: sym_inv_def)
  then show "sym_step cx cx'" using def by (simp add: sym_step_def n)
  show "out_nodes (cx_sym_graph cx') n = []"
    using li(2) gr.outs_new [of "cx_sym_graph cx"] by (simp add: cx' linked_inv_def)
qed

lemma push_lists:
  fixes f :: "src_node \<Rightarrow> src_node"
  shows "src_size (upd_src s f cx) = src_size cx" "nsyms (upd_src s f cx) = nsyms cx"
    "sym_src (upd_src s f cx) n = sym_src cx n"
    "cx_sym_graph (upd_src s f cx) = cx_sym_graph cx"
    "t < src_size cx \<Longrightarrow> src_defs (upd_src s f cx) t =
       (if t = s then sn_definitions (f (cx_src_nodes cx ! s)) else src_defs cx t)"
    "t < src_size cx \<Longrightarrow> src_refs (upd_src s f cx) t =
       (if t = s then sn_references (f (cx_src_nodes cx ! s)) else src_refs cx t)"
  by (auto simp: src_size_def nsyms_def sym_src_def src_defs_def src_refs_def upd_src_def)

lemma listed_push:
  assumes "listed_inv cx" and fresh: "fresh_sym cx n"
    and same: "src_size cx' = src_size cx" "nsyms cx' = nsyms cx" "\<And>m. sym_src cx' m = sym_src cx m"
    and lists: "\<And>t. t < src_size cx \<Longrightarrow> mset (src_defs cx' t @ src_refs cx' t) =
      mset ((if t = sym_src cx n then [n] else []) @ src_defs cx t @ src_refs cx t)"
  shows "listed_inv cx'"
proof (rule listed_invI)
  fix s assume "s < src_size cx'"
  then have s: "s < src_size cx" by (simp add: same)
  note l = listed_invD [OF assms(1) s] and m = lists [OF s]
  have n: "n < nsyms cx" "n \<notin> set (src_defs cx s @ src_refs cx s)"
    using fresh s by (auto simp: fresh_sym_def)
  show "distinct (src_defs cx' s @ src_refs cx' s)"
    unfolding mset_eq_imp_distinct_iff [OF m] using l(1) n(2) by auto
  fix x assume "x \<in> set (src_defs cx' s @ src_refs cx' s)"
  then have "x \<in> set (src_defs cx s @ src_refs cx s) \<or> x = n \<and> s = sym_src cx n"
    unfolding mset_eq_setD [OF m] by (auto split: if_splits)
  with l(2) n(1) show "x < nsyms cx' \<and> sym_src cx' x = s" by (auto simp: same)
qed

lemma push_def_step:
  assumes inv: "sym_inv cx" and fresh: "fresh_sym cx n"
    and cx': "cx' = upd_src (sym_src cx n) (\<lambda>sn. sn\<lparr>sn_definitions := n # sn_definitions sn\<rparr>) cx"
  shows "sym_step cx cx'" "sym_src cx n < src_size cx \<Longrightarrow> is_def cx' n"
proof -
  let ?s = "sym_src cx n"
  have same: "src_size cx' = src_size cx" "nsyms cx' = nsyms cx" "sym_src cx' m = sym_src cx m"
    "cx_sym_graph cx' = cx_sym_graph cx" for m
    by (simp_all add: cx' push_lists)
  have lists: "src_defs cx' t = (if t = ?s then n # src_defs cx t else src_defs cx t)"
    "src_refs cx' t = src_refs cx t" if "t < src_size cx" for t
    using that by (simp_all add: cx' push_lists) (simp add: src_defs_def, simp add: src_refs_def)
  have def: "is_def cx' m \<longleftrightarrow> is_def cx m \<or> m = n \<and> ?s < src_size cx" for m
    using fresh lists(1) [of "sym_src cx m"] by (auto simp: is_def_def same fresh_sym_def split: if_splits)
  have ref: "is_ref cx' m = is_ref cx m" for m
    using lists(2) [of "sym_src cx m"] by (auto simp: is_ref_def same)
  have li: "listed_inv cx" "linked_inv cx" using inv by (simp_all add: sym_inv_def)
  have "listed_inv cx'"
    by (rule listed_push [OF li(1) fresh same(1-3)]) (simp add: lists)
  moreover have "linked_inv cx'"
    unfolding linked_inv_def same(4) ref def same(2) using li(2) by (auto simp: linked_inv_def)
  ultimately show "sym_step cx cx'" by (simp add: sym_step_def sym_inv_def same def)
  show "sym_src cx n < src_size cx \<Longrightarrow> is_def cx' n" by (simp add: def)
qed

lemma push_ref_step:
  assumes inv: "sym_inv cx" and fresh: "fresh_sym cx n" and src: "sym_src cx n < src_size cx"
    and d: "is_def cx d" and out: "out_nodes (cx_sym_graph cx) n = []"
    and cx1: "cx1 = upd_src (sym_src cx n) (\<lambda>sn. sn\<lparr>sn_references := n # sn_references sn\<rparr>) cx"
    and cx': "cx' = cx1\<lparr>cx_sym_graph := buxn_ls_graph_add_edge (cx_sym_graph cx1) n d\<rparr>"
  shows "sym_step cx cx'" "is_ref cx' n" "out_nodes (cx_sym_graph cx') n = [d]"
proof -
  let ?s = "sym_src cx n"
  have same: "src_size cx' = src_size cx" "nsyms cx' = nsyms cx" "sym_src cx' m = sym_src cx m"
    "cx_sym_graph cx' = buxn_ls_graph_add_edge (cx_sym_graph cx) n d" for m
    using push_lists(1-4) [of ?s "\<lambda>sn. sn\<lparr>sn_references := n # sn_references sn\<rparr>" cx]
    by (simp_all add: cx' cx1 src_size_def nsyms_def sym_src_def)
  have lists: "src_refs cx' t = (if t = ?s then n # src_refs cx t else src_refs cx t)"
    "src_defs cx' t = src_defs cx t" if "t < src_size cx" for t
    using that push_lists(5,6) [of t cx ?s "\<lambda>sn. sn\<lparr>sn_references := n # sn_references sn\<rparr>"]
    by (simp_all add: cx' cx1 src_defs_def src_refs_def)
  have ref: "is_ref cx' m \<longleftrightarrow> is_ref cx m \<or> m = n" for m
    using fresh src lists(1) [of "sym_src cx m"] by (auto simp: is_ref_def same fresh_sym_def split: if_splits)
  have def: "is_def cx' m = is_def cx m" for m
    using lists(2) [of "sym_src cx m"] by (auto simp: is_def_def same)
  have li: "listed_inv cx" "linked_inv cx" using inv by (simp_all add: sym_inv_def)
  have bounds: "n < g_size (cx_sym_graph cx)" "d < g_size (cx_sym_graph cx)" "graph_inv (cx_sym_graph cx)"
    using li(2) fresh d by (auto simp: linked_inv_def fresh_sym_def is_def_def)
  have outs: "out_nodes (cx_sym_graph cx') m = (if m = n then [d] else []) @ out_nodes (cx_sym_graph cx) m"
    if "m < nsyms cx" for m
    using that bounds li(2) by (simp add: same gr.outs_add_edge linked_inv_def)
  have n: "n < nsyms cx" "\<not> is_ref cx n" using fresh by (auto simp: fresh_sym_def is_ref_def)
  show o: "out_nodes (cx_sym_graph cx') n = [d]" using outs [OF n(1)] out by simp
  have "listed_inv cx'"
    by (rule listed_push [OF li(1) fresh same(1-3)]) (simp add: lists)
  moreover have one: "\<exists>e. out_nodes (cx_sym_graph cx') m = [e]" if "is_ref cx' m" for m
  proof (cases "m = n")
    case False
    with that have "is_ref cx m" by (simp add: ref)
    moreover from this have "m < nsyms cx" by (simp add: is_ref_def)
    ultimately show ?thesis using False outs li(2) by (auto simp: linked_inv_def)
  qed (use o in simp)
  moreover have "linked_inv cx'"
  proof (rule linked_invI)
    note l = linked_invD [OF li(2)]
    show "graph_inv (cx_sym_graph cx')" "g_size (cx_sym_graph cx') = nsyms cx'"
      using l(2) bounds by (simp_all add: same(2,4) add_edge_inv)
    show "is_ref cx' r \<and> is_def cx' e" if "(r, e) \<in> set (pairs (cx_sym_graph cx'))" for r e
    proof (cases "(r, e) \<in> set (pairs (cx_sym_graph cx))")
      case True
      then show ?thesis using l(3) by (simp add: ref def)
    next
      case False
      with that d show ?thesis by (simp add: same(4) ref def)
    qed
  qed (rule one)
  ultimately show "sym_step cx cx'" by (simp add: sym_step_def sym_inv_def same def)
  show "is_ref cx' n" by (simp add: ref)
qed

section \<open>The state of a run\<close>

text \<open>The definitions that references will be looked up in, and the symbol that annotations go to,
  are definitions of the current context.\<close>

definition known_defs :: "analyzer \<Rightarrow> asm_ctx \<Rightarrow> nat set" where
  "known_defs a ctx =
     set (an_macro_defs a) \<union> set (bhash_values (an_label_defs a)) \<union> set_option (ac_current_sym_node ctx)"

definition syms_ok :: "analyzer \<times> asm_ctx \<Rightarrow> bool" where
  "syms_ok s \<longleftrightarrow>
     sym_inv (an_current (fst s)) \<and> (\<forall>n \<in> known_defs (fst s) (snd s). is_def (an_current (fst s)) n)"

lemma syms_ok_step:
  assumes "syms_ok (a, ctx)" and "sym_step (an_current a) (an_current a')"
    and "known_defs a' ctx' \<subseteq> known_defs a ctx"
  shows "syms_ok (a', ctx')"
  using assms by (auto simp: syms_ok_def sym_step_def)

text \<open>Operations that touch files, lines and diagnostics only.\<close>

definition core_same :: "analyzer \<Rightarrow> analyzer \<Rightarrow> bool" where
  "core_same a a' \<longleftrightarrow>
     an_current a' = an_current a \<and> an_macro_defs a' = an_macro_defs a \<and>
     an_label_defs a' = an_label_defs a"

lemma core_same_refl [simp]: "core_same a a"
  by (simp add: core_same_def)

lemma core_same_trans: "core_same a b \<Longrightarrow> core_same b c \<Longrightarrow> core_same a c"
  by (simp add: core_same_def)

lemma lines_only_core: "lines_only a a' \<Longrightarrow> core_same a a'"
  by (simp add: core_same_def lines_onlyD)

lemma core_same_fields [simp]:
  "core_same a (b\<lparr>an_files := x\<rparr>) = core_same a b"
  "core_same a (b\<lparr>an_references := r\<rparr>) = core_same a b"
  "core_same a (push_diagnostic d b) = core_same a b"
  "core_same a (mark_error f b) = core_same a b"
  "core_same a (bump_analyzer sy fl b) = core_same a b"
  "core_same (mark_error f b) a = core_same b a"
  by (auto simp: core_same_def push_diagnostic_def mark_error_def bump_analyzer_def split: option.split)

lemma core_same_ok: "core_same a a' \<Longrightarrow> ac_current_sym_node ctx' = ac_current_sym_node ctx \<Longrightarrow>
    syms_ok (a, ctx) \<Longrightarrow> syms_ok (a', ctx')"
  by (simp add: core_same_def syms_ok_def known_defs_def)

lemma convert_region_core: "buxn_ls_convert_region utf8 r a = Inr (q, a') \<Longrightarrow> core_same a a'"
  by (blast intro: lines_only_core convert_region_lines_only)

lemma add_related_core: "add_related utf8 r (d, a) = Inr (d', a') \<Longrightarrow> core_same a a'"
  by (auto simp: add_related_def ok_simps split: option.splits if_splits dest: convert_region_core)

lemma asm_report_core: "buxn_asm_report utf8 t r a = Inr a' \<Longrightarrow> core_same a a'"
  by (auto simp: buxn_asm_report_def Let_def ok_simps split: if_splits
      dest!: convert_region_core add_related_core intro: core_same_trans)

lemma chess_report_core: "buxn_chess_report utf8 tr t r a = Inr a' \<Longrightarrow> core_same a a'"
  by (auto simp: buxn_chess_report_def Let_def ok_simps split: if_splits chess_report_type.splits
      dest!: convert_region_core add_related_core intro: core_same_trans)

lemma chess_deo_core: "buxn_chess_deo utf8 t st v p a = Inr a' \<Longrightarrow> core_same a a'"
  by (auto simp: buxn_chess_deo_def ok_simps split: if_splits dest!: convert_region_core)

section \<open>Symbols\<close>

lemma handle_annotation_ok:
  assumes "syms_ok (a, ctx)" and "buxn_ls_handle_annotation call (a, ctx) = Inr (a', ctx')"
  shows "syms_ok (a', ctx')"
proof -
  have "sym_step (an_current a) (an_current a')"
    using assms(2)
    by (auto simp: buxn_ls_handle_annotation_def Let_def ok_simps upd_current_def
        split: option.splits if_splits intro!: sym_same_step)
  moreover have "known_defs a' ctx' \<subseteq> known_defs a ctx"
    using assms(2)
    by (auto simp: buxn_ls_handle_annotation_def Let_def ok_simps upd_current_def known_defs_def
        split: option.splits if_splits)
  ultimately show ?thesis by (rule syms_ok_step [OF assms(1)])
qed

lemma handle_annotations_ok:
  assumes "syms_ok s" and "ofold buxn_ls_handle_annotation calls s = Inr s'"
  shows "syms_ok s'"
  using assms(2,1)
  by (rule ofold_inv [where P = syms_ok]) (metis handle_annotation_ok surj_pair)

lemma make_sym_node_ok:
  assumes inv: "src_inv (an_current a)" "sym_inv (an_current a)"
    and mk: "buxn_ls_make_sym_node utf8 sy a = Inr (n, a')"
  shows "sym_inv (an_current a')" "fresh_sym (an_current a') n"
    "sym_src (an_current a') n < src_size (an_current a')"
    "out_nodes (cx_sym_graph (an_current a')) n = []"
    "sym_step (an_current a) (an_current a')"
    "an_macro_defs a' = an_macro_defs a" "an_label_defs a' = an_label_defs a"
proof -
  from mk obtain src rng b where
    src: "bhash_get (cx_sources (an_current a)) (cp_text (rg_filename (as_region sy))) = Some src"
    and lo: "lines_only a b" and n: "n = length (cx_sym_nodes (an_current a))"
    and a': "a' = b\<lparr>an_current := snd (alloc_sym \<lparr>sy_name = as_name sy, sy_documentation = [],
       sy_signature = [], sy_source = src, sy_type = as_type sy,
       sy_semantics = BUXN_LS_SYMBOL_AS_VARIABLE,
       sy_byte_offset = ap_byte (ar_start (rg_range (as_region sy))), sy_range = rng,
       sy_address = 0\<rparr> (an_current a))\<rparr>"
    by (rule make_sym_node_cases)
  define node where "node = \<lparr>sy_name = as_name sy, sy_documentation = [],
       sy_signature = [], sy_source = src, sy_type = as_type sy,
       sy_semantics = BUXN_LS_SYMBOL_AS_VARIABLE,
       sy_byte_offset = ap_byte (ar_start (rg_range (as_region sy))), sy_range = rng,
       sy_address = 0\<rparr>"
  have al: "alloc_sym node (an_current a) = (n, an_current a')"
    by (simp add: a' n node_def alloc_sym_def)
  note s = alloc_sym_step [OF al inv(2)]
  show "sym_inv (an_current a')" "fresh_sym (an_current a') n"
    "out_nodes (cx_sym_graph (an_current a')) n = []" "sym_step (an_current a) (an_current a')"
    by (fact s)+
  have "src_size (an_current a') = src_size (an_current a)"
    by (simp add: a' alloc_sym_def src_size_def)
  then show "sym_src (an_current a') n < src_size (an_current a')"
    using src inv(1) by (simp add: s(3) node_def src_invD(4))
  show "an_macro_defs a' = an_macro_defs a" "an_label_defs a' = an_label_defs a"
    using lo by (simp_all add: a' lines_onlyD)
qed

lemma push_definition_ok:
  assumes "sym_inv (an_current a)" and "fresh_sym (an_current a) n"
    and "sym_src (an_current a) n < src_size (an_current a)"
  shows "sym_step (an_current a) (an_current (push_definition n a))"
    "is_def (an_current (push_definition n a)) n"
    "an_macro_defs (push_definition n a) = an_macro_defs a"
    "an_label_defs (push_definition n a) = an_label_defs a"
  using push_def_step [OF assms(1,2) refl] assms(3)
  by (simp_all add: push_definition_def upd_current_def sym_src_def)

lemma put_label_ok:
  assumes "syms_ok (a, ctx)" and "is_def (an_current a) n"
    and "put_label lay addr sy fl n (a, ctx) = (a', ctx')"
  shows "syms_ok (a', ctx') \<and> is_def (an_current a') n"
proof -
  have step: "sym_step (an_current a) (an_current a')"
    using assms(3)
    by (auto simp: put_label_def Let_def upd_current_def split: if_splits intro!: sym_same_step)
  have known: "known_defs a' ctx' \<subseteq> insert n (known_defs a ctx)"
    using assms(3) set_values_put [of lay "an_label_defs a" "word_of_nat (as_id sy)" n]
    by (auto simp: put_label_def Let_def upd_current_def known_defs_def split: if_splits)
  from assms(1,2) step known show ?thesis by (auto simp: syms_ok_def sym_step_def)
qed

lemma put_macro_ok:
  assumes "syms_ok (a, ctx)" and "is_def (an_current a) n"
    and "put_macro n (a, ctx) = (a', ctx')"
  shows "syms_ok (a', ctx') \<and> is_def (an_current a') n"
proof -
  have step: "sym_step (an_current a) (an_current a')"
    using assms(3)
    by (auto simp: put_macro_def Let_def upd_current_def intro!: sym_same_step)
  have known: "known_defs a' ctx' \<subseteq> insert n (known_defs a ctx)"
    using assms(3) by (auto simp: put_macro_def Let_def upd_current_def known_defs_def)
  from assms(1,2) step known show ?thesis by (auto simp: syms_ok_def sym_step_def)
qed

lemma put_definition_ok:
  assumes inv: "src_inv (an_current a)" and ok: "syms_ok (a, ctx)"
    and put: "put_definition api addr sy (a, ctx) = Inr (a', ctx')"
  shows "syms_ok (a', ctx')"
  using put
proof (cases rule: put_definition_cases)
  case (generated fl)
  then show ?thesis using core_same_ok [OF _ _ ok, of a' ctx'] by simp
next
  case (named fl n b ctx4)
  let ?a = "bump_analyzer sy fl a" and ?b = "push_definition n b"
  have a: "an_current ?a = an_current a" "an_macro_defs ?a = an_macro_defs a"
    "an_label_defs ?a = an_label_defs a" by (simp_all add: bump_analyzer_def)
  have "sym_inv (an_current a)" using ok by (simp add: syms_ok_def)
  then have inv': "src_inv (an_current ?a)" "sym_inv (an_current ?a)" using inv by (simp_all add: a)
  note m = make_sym_node_ok [OF inv' named(3)]
  note p = push_definition_ok [OF m(1,2,3)]
  have "sym_step (an_current a) (an_current ?b)" using sym_step_trans [OF m(5) p(1)] by (simp add: a)
  then have "syms_ok (?b, ctx)"
    by (rule syms_ok_step [OF ok]) (simp add: known_defs_def p(3,4) m(6,7) a)
  then have "syms_ok (a', ctx4) \<and> is_def (an_current a') n"
    using named(4) p(2) put_label_ok put_macro_ok by (metis (full_types))
  then show ?thesis by (auto simp: named(5) syms_ok_def known_defs_def)
qed

lemma put_symbol_ok:
  assumes inv: "src_inv (an_current a)" and ok: "syms_ok (a, ctx)"
    and put: "buxn_asm_put_symbol api addr sy (a, ctx) = Inr (a', ctx')"
  shows "syms_ok (a', ctx')"
proof -
  let ?ctx = "ctx\<lparr>ac_chess_syms := ac_chess_syms ctx @ [(addr, sy)]\<rparr>"
  have ok1: "syms_ok (a, ?ctx)" by (rule core_same_ok [OF _ _ ok]) simp_all
  show ?thesis
  proof (cases "same_symbol sy (ac_previous_sym ?ctx)")
    case True
    with put ok1 show ?thesis by (auto simp: buxn_asm_put_symbol_def Let_def)
  next
    case False
    define mid where "mid = (case as_type sy of
         BUXN_ASM_SYM_MACRO \<Rightarrow> put_definition api addr sy (a, ?ctx)
       | BUXN_ASM_SYM_LABEL \<Rightarrow> put_definition api addr sy (a, ?ctx)
       | BUXN_ASM_SYM_MACRO_REF \<Rightarrow> Inr (a\<lparr>an_references := an_references a @ [sy]\<rparr>, ?ctx)
       | BUXN_ASM_SYM_LABEL_REF \<Rightarrow> Inr (a\<lparr>an_references := an_references a @ [sy]\<rparr>, ?ctx)
       | Asm_sym_other t \<Rightarrow> Inr (a, ?ctx))"
    from False put obtain b c where b: "mid = Inr (b, c)"
      and an: "ofold buxn_ls_handle_annotation (aa_anno api (ac_anno_syms c @ [(addr, sy)]))
        (b, c\<lparr>ac_previous_sym := Some sy, ac_anno_syms := ac_anno_syms c @ [(addr, sy)]\<rparr>) = Inr (a', ctx')"
      by (auto simp: buxn_asm_put_symbol_def Let_def mid_def [symmetric] ok_simps)
    have "syms_ok (b, c)"
      using b put_definition_ok [OF inv ok1] ok1 core_same_ok [OF _ _ ok1, of "a\<lparr>an_references := r\<rparr>" ?ctx for r]
      by (auto simp: mid_def split: asm_sym_type.splits)
    then have "syms_ok (b, c\<lparr>ac_previous_sym := Some sy, ac_anno_syms := ac_anno_syms c @ [(addr, sy)]\<rparr>)"
      by (rule core_same_ok [rotated 2]) simp_all
    then show ?thesis using an by (rule handle_annotations_ok)
  qed
qed

section \<open>Files and the whole run\<close>

lemma sym_same_fields [simp]:
  "sym_same cx (cx'\<lparr>cx_sources := x\<rparr>) = sym_same cx cx'"
  "sym_same cx (cx'\<lparr>cx_src_graph := g\<rparr>) = sym_same cx cx'"
  "sym_same cx (put_source lay n cx') = sym_same cx cx'"
  by (simp_all add: sym_same_def put_source_def)

lemma sym_same_upd_src [simp]:
  "(\<And>sn. sn_definitions (f sn) = sn_definitions sn \<and> sn_references (f sn) = sn_references sn) \<Longrightarrow>
     sym_same cx (upd_src n f cx') = sym_same cx cx'"
  by (simp add: sym_same_def upd_src_def map_upd_same)

lemma alloc_node_step: "buxn_ls_alloc_node ws f cx = (n, cx') \<Longrightarrow> sym_step cx cx'"
  by (auto simp: buxn_ls_alloc_node_def Let_def intro: alloc_src_step)

lemma open_node_step: "open_node lay ws f cx = (n, cx') \<Longrightarrow> sym_step cx cx'"
  by (auto simp: open_node_def split: option.splits prod.splits
      intro: sym_step_trans [OF alloc_node_step sym_same_step])

lemma fopen_ok:
  assumes ok: "syms_ok (a, ctx)" and open1: "buxn_asm_fopen api ws f (a, ctx) = (h, a', ctx')"
  shows "syms_ok (a', ctx')"
proof (cases "file_content api ws f a")
  case None
  with open1 ok show ?thesis by (simp add: buxn_asm_fopen_def)
next
  case (Some content)
  obtain n cx1 where node: "open_node (aa_layout api) ws f (an_current a) = (n, cx1)"
    by (cases "open_node (aa_layout api) ws f (an_current a)")
  have "sym_same cx1 (an_current a') \<and> known_defs a' ctx' = known_defs a ctx"
    using open1 Some node
    by (cases "bhash_has (an_files a) f";
        simp add: buxn_asm_fopen_def open_node_def [symmetric];
        auto simp: Let_def known_defs_def)+
  then show ?thesis
    using syms_ok_step [OF ok sym_step_trans [OF open_node_step [OF node] sym_same_step]] by blast
qed

lemma handle_call_ok:
  assumes inv: "src_inv (an_current a)" and ok: "syms_ok (a, ctx)"
    and call: "handle_call api ws c (a, ctx) = Inr (r, a', ctx')"
  shows "syms_ok (a', ctx')"
proof -
  have "syms_ok (a', ctx') \<or> core_same a a' \<and> ac_current_sym_node ctx' = ac_current_sym_node ctx"
    using call fopen_ok [OF ok] put_symbol_ok [OF inv ok]
    by (cases c)
      (auto simp: handle_call_def ok_simps buxn_asm_fgetc_def buxn_asm_fclose_def buxn_asm_put_rom_def
        Let_def split: prod.splits option.splits if_splits
        dest: asm_report_core chess_report_core chess_deo_core)
  then show ?thesis using core_same_ok ok by blast
qed

lemma run_calls_ok:
  assumes ws: "workspace_inv ws" and "run_inv ws a0 P s" and "syms_ok s"
    and "run_calls api ws t s = Inr (r, s')"
  shows "syms_ok s'"
  using assms(2-)
proof (induction t arbitrary: s)
  case (Done b)
  then show ?case by simp
next
  case (Call c k)
  obtain a ctx where s: "s = (a, ctx)" by (cases s)
  from Call.prems(3) obtain resp a1 ctx1 where c: "handle_call api ws c s = Inr (resp, a1, ctx1)"
    "run_calls api ws (k resp) (a1, ctx1) = Inr (r, s')"
    by (auto simp: ok_simps)
  have "src_inv (an_current a)" using Call.prems(1) by (simp add: run_inv_def s)
  then have "syms_ok (a1, ctx1)" using handle_call_ok Call.prems(2) c(1) by (simp add: s)
  moreover have "run_inv ws a0 P (a1, ctx1)" by (rule handle_call_run_inv [OF ws Call.prems(1) c(1)])
  ultimately show ?case using Call.IH [OF rangeI] c(2) by blast
qed

lemma run_assembler_ok:
  assumes ws: "workspace_inv ws" and run: "run_inv ws a0 P (a, init_asm_ctx n)"
    and ok: "syms_ok (a, init_asm_ctx n)" and "run_assembler api ws n a = Inr s"
  shows "syms_ok s"
proof -
  from assms(4) obtain b s1 where r: "run_calls api ws
      (aa_asm api (sn_filename (cx_src_nodes (an_current a) ! n))) (a, init_asm_ctx n) = Inr (b, s1)"
    and next1: "s = s1 \<or> (\<exists>syms c. run_calls api ws (aa_chess_end api syms) s1 = Inr (c, s))"
    by (fastforce simp: run_assembler_def ok_simps split: if_splits)
  have "run_inv ws a0 P s1" "syms_ok s1"
    by (rule run_calls_run_inv [OF ws run r], rule run_calls_ok [OF ws run ok r])
  with next1 show ?thesis using run_calls_ok [OF ws] by blast
qed

section \<open>After the run\<close>

lemma copy_symbol_ok:
  assumes "syms_ok (a, ctx)"
  shows "syms_ok (copy_symbol s sy a, ctx)"
proof -
  obtain n cx where al: "alloc_sym (sy\<lparr>sy_source := s\<rparr>) (an_current a) = (n, cx)"
    by (cases "alloc_sym (sy\<lparr>sy_source := s\<rparr>) (an_current a)")
  have "sym_inv (an_current a)" using assms by (simp add: syms_ok_def)
  note st = alloc_sym_step [OF al this]
  have "an_current (copy_symbol s sy a) =
      upd_src (sym_src cx n) (\<lambda>sn. sn\<lparr>sn_definitions := n # sn_definitions sn\<rparr>) cx"
    by (simp add: copy_symbol_def al st(3))
  then have "sym_step (an_current a) (an_current (copy_symbol s sy a))"
    using sym_step_trans [OF st(7) push_def_step(1) [OF st(1,2) refl]] by simp
  then show ?thesis
    by (rule syms_ok_step [OF assms]) (simp add: copy_symbol_def al known_defs_def)
qed

lemma bring_forward_ok: "syms_ok (a, ctx) \<Longrightarrow> syms_ok (bring_forward a, ctx)"
proof -
  have fold: "syms_ok (fold f xs a, ctx)"
    if "\<And>x a. syms_ok (a, ctx) \<Longrightarrow> syms_ok (f x a, ctx)" "syms_ok (a, ctx)"
    for f :: "'x \<Rightarrow> analyzer \<Rightarrow> analyzer" and xs a
    using that by (induction xs arbitrary: a) auto
  have "syms_ok (bring_file_forward e a, ctx)" if "syms_ok (a, ctx)" for e a
    using that
    by (auto simp: bring_file_forward_def Let_def intro!: fold copy_symbol_ok
        split: prod.splits option.splits)
  then show "syms_ok (a, ctx) \<Longrightarrow> syms_ok (bring_forward a, ctx)"
    unfolding bring_forward_def by (rule fold)
qed

lemma bhash_get_value: "bhash_get t k = Some v \<Longrightarrow> v \<in> set (bhash_values t)"
  unfolding bhash_values_def by (drule bhash_get_Some) force

lemma find_def_node_known:
  assumes "find_def_node sy a = Inr (Some d)"
  shows "d \<in> known_defs a ctx"
  using assms bhash_get_value [of "an_label_defs a" "word_of_nat (as_id sy)" d]
  by (cases "as_type sy") (auto simp: find_def_node_def Let_def known_defs_def split: if_splits)

lemma connect_reference_ok:
  assumes inv: "src_inv (an_current a)" and ok: "syms_ok (a, ctx)"
    and con: "connect_reference utf8 sy a = Inr a'"
  shows "syms_ok (a', ctx)"
proof -
  from con obtain d where d: "find_def_node sy a = Inr d" by (auto simp: connect_reference_def ok_simps)
  show ?thesis
  proof (cases d)
    case None
    with d con ok show ?thesis by (simp add: connect_reference_def)
  next
    case (Some k)
    with d con obtain n a1 where mk: "buxn_ls_make_sym_node utf8 sy a = Inr (n, a1)"
      by (auto simp: connect_reference_def ok_simps)
    have "sym_inv (an_current a)" using ok by (simp add: syms_ok_def)
    note m = make_sym_node_ok [OF inv this mk]
    have "is_def (an_current a) k"
      using find_def_node_known [OF d [unfolded Some]] ok by (auto simp: syms_ok_def)
    then have k: "is_def (an_current a1) k" using m(5) by (simp add: sym_step_def)
    define cx1 where "cx1 = upd_src (sym_src (an_current a1) n)
      (\<lambda>sn. sn\<lparr>sn_references := n # sn_references sn\<rparr>) (an_current a1)"
    define cx2 where "cx2 = cx1\<lparr>cx_sym_graph := buxn_ls_graph_add_edge (cx_sym_graph cx1) n k\<rparr>"
    have a': "a' = a1\<lparr>an_current := cx2\<rparr>"
      using d Some mk con by (simp add: connect_reference_def Let_def cx1_def cx2_def sym_src_def)
    have "sym_step (an_current a) (an_current a')"
      using sym_step_trans [OF m(5) push_ref_step(1) [OF m(1,2,3) k m(4) cx1_def cx2_def]]
      by (simp add: a')
    then show ?thesis by (rule syms_ok_step [OF ok]) (simp add: a' known_defs_def m(6,7))
  qed
qed

lemma connect_references_ok:
  assumes "src_inv (an_current a)" and "syms_ok (a, ctx)" and "connect_references utf8 a = Inr a'"
  shows "syms_ok (a', ctx)"
proof -
  have "src_inv (an_current a') \<and> syms_ok (a', ctx)"
    using assms(3) [unfolded connect_references_def]
    by (rule ofold_inv [where P = "\<lambda>a. src_inv (an_current a) \<and> syms_ok (a, ctx)"])
      (use assms(1,2) connect_reference_ok connect_reference_frame same_sources_src_inv frame_def in blast)+
  then show ?thesis ..
qed

section \<open>A whole analysis\<close>

lemma analyze_node_sym_inv:
  assumes ws: "workspace_inv ws" and inv: "loop_inv ws a0 P a" and "n < src_size (an_current a0)"
    and "n \<notin> set P" and sym: "sym_inv (an_current a)" and "analyze_node api ws n a = Inr a'"
  shows "sym_inv (an_current a')"
proof (cases "sn_analyzed (cx_src_nodes (an_current a) ! n)")
  case True
  with assms show ?thesis by (auto simp: analyze_node_def)
next
  case False
  with assms(6) obtain a1 ctx1 where r: "run_assembler api ws n (clear_run a) = Inr (a1, ctx1)"
    and c: "connect_references (aa_utf8 api) (bring_forward a1) = Inr a'"
    by (auto simp: analyze_node_def ok_simps)
  have run: "run_inv ws a0 (P @ [n]) (clear_run a, init_asm_ctx n)"
    using analyze_node_start [OF inv assms(3,4) False] .
  have "syms_ok (clear_run a, init_asm_ctx n)"
    using sym by (simp add: syms_ok_def known_defs_def clear_run_def init_asm_ctx_def bhash_values_def)
  from run_assembler_ok [OF ws run this r] have ok: "syms_ok (bring_forward a1, ctx1)"
    by (rule bring_forward_ok)
  have "src_inv (an_current a1)" using run_assembler_inv [OF ws run r] by (simp add: run_inv_def)
  then have "src_inv (an_current (bring_forward a1))"
    using bring_forward_frame same_sources_src_inv by (auto simp: frame_def)
  from connect_references_ok [OF this ok c] show ?thesis by (simp add: syms_ok_def)
qed

lemma analyze_nodes_sym_inv:
  assumes ws: "workspace_inv ws" and "loop_inv ws a0 P a"
    and "set ns \<subseteq> {..<src_size (an_current a0)}" and "distinct ns" and "set ns \<inter> set P = {}"
    and "sym_inv (an_current a)" and "ofold (analyze_node api ws) ns a = Inr a'"
  shows "sym_inv (an_current a')"
  using assms(2-)
proof (induction ns arbitrary: a P)
  case (Cons n ns)
  from Cons.prems(6) obtain b where b: "analyze_node api ws n a = Inr b"
    "ofold (analyze_node api ws) ns b = Inr a'" by (auto simp: ok_simps)
  have n: "n < src_size (an_current a0)" "n \<notin> set P" using Cons.prems(2,4) by auto
  from analyze_node_inv [OF ws Cons.prems(1) n b(1)] obtain P' where
    P': "set P' \<subseteq> insert n (set P)" "loop_inv ws a0 P' b" by blast
  have "sym_inv (an_current b)" by (rule analyze_node_sym_inv [OF ws Cons.prems(1) n Cons.prems(5) b(1)])
  then show ?case
    by (rule Cons.IH [OF P'(2) _ _ _ _ b(2), rotated 3]) (use Cons.prems P'(1) in auto)
qed simp

lemma do_queue_file_sym_inv:
  "sym_inv (an_current a) \<Longrightarrow> sym_inv (an_current (buxn_ls_do_queue_file lay ws f a))"
proof -
  obtain n cx where al: "buxn_ls_alloc_node ws f (an_current a) = (n, cx)"
    by (cases "buxn_ls_alloc_node ws f (an_current a)")
  have "sym_step (an_current a) (put_source lay n cx)"
    by (rule sym_step_trans [OF alloc_node_step [OF al] sym_same_step]) simp
  with al show "sym_inv (an_current a) \<Longrightarrow> ?thesis" by (simp add: buxn_ls_do_queue_file_def sym_step_def)
qed

lemma maybe_queue_node_sym_inv:
  "buxn_ls_maybe_queue_node fuel lay ws node a = Inr a' \<Longrightarrow> sym_inv (an_current a) \<Longrightarrow>
     sym_inv (an_current a')"
proof (induction fuel arbitrary: node a a')
  case (Suc fuel)
  show ?case
  proof (cases "bhash_has (cx_sources (an_current a)) (sn_filename (cx_src_nodes (an_previous a) ! node))")
    case False
    define a1 where "a1 = (if bhash_has (docs ws) (sn_filename (cx_src_nodes (an_previous a) ! node))
      then buxn_ls_do_queue_file lay ws (sn_filename (cx_src_nodes (an_previous a) ! node)) a else a)"
    have "ofold (\<lambda>child. buxn_ls_maybe_queue_node fuel lay ws child)
        (out_nodes (cx_src_graph (an_previous a)) node) a1 = Inr a'"
      using Suc.prems(1) False by (simp add: Let_def a1_def)
    then show ?thesis
      by (rule ofold_inv [where P = "\<lambda>a. sym_inv (an_current a)"])
        (use Suc.prems(2) Suc.IH in \<open>auto simp: a1_def do_queue_file_sym_inv\<close>)
  qed (use Suc.prems in \<open>auto simp: Let_def\<close>)
qed simp

lemma queue_from_root_sym_inv:
  "buxn_ls_queue_from_root climb depth lay ws node a = Inr a' \<Longrightarrow> sym_inv (an_current a) \<Longrightarrow>
     sym_inv (an_current a')"
proof (induction climb arbitrary: node a a')
  case (Suc climb)
  show ?case
  proof (cases "in_edges (g_nodes (cx_src_graph (an_previous a)) ! node) \<noteq> None")
    case True
    with Suc.prems(1) have "ofold (\<lambda>parent. buxn_ls_queue_from_root climb depth lay ws parent)
        (in_nodes (cx_src_graph (an_previous a)) node) a = Inr a'" by simp
    then show ?thesis
      by (rule ofold_inv [where P = "\<lambda>a. sym_inv (an_current a)"]) (use Suc in auto)
  qed (use Suc.prems maybe_queue_node_sym_inv in auto)
qed simp

lemma queue_docs_sym_inv:
  assumes "queue_docs lay ws (swap_contexts a) = Inr a'"
  shows "sym_inv (an_current a')"
  using assms [unfolded queue_docs_def]
proof (rule ofold_inv [where P = "\<lambda>a. sym_inv (an_current a)"])
  show "sym_inv (an_current (swap_contexts a))"
    by (auto simp: swap_contexts_def sym_inv_def listed_inv_def linked_inv_def empty_ctx_def
        src_size_def nsyms_def is_ref_def)
qed (auto simp: queue_doc_def split: if_splits option.splits
    intro: queue_from_root_sym_inv do_queue_file_sym_inv)

lemma analyze_sym_inv:
  assumes "workspace_inv ws" and "analyzer_inv a" and "buxn_ls_analyze api ws a = Inr a'"
  shows "sym_inv (an_current a')"
proof -
  from assms(2) obtain a1 where a1: "queue_docs (aa_layout api) ws (swap_contexts a) = Inr a1"
    "queue_inv ws (an_current a) a1"
    using queue_docs_result [OF assms(1)] unfolding analyzer_inv_def by blast
  define a2 where "a2 = a1\<lparr>an_lines := [], an_files := [], an_diagnostics := []\<rparr>"
  from assms(3) a1(1) obtain a3 where
    a3: "ofold (analyze_node api ws) (an_queue a2) a2 = Inr a3" "sort_diagnostics api a3 = Inr a'"
    by (auto simp: buxn_ls_analyze_def Let_def ok_simps a2_def)
  have q: "an_queue a2 = [0..<src_size (an_current a1)]"
    using a1(2) by (simp add: a2_def queue_inv_def)
  have "loop_inv ws a1 [] a2" unfolding a2_def by (rule loop_start [OF a1(2)])
  moreover have "set (an_queue a2) \<subseteq> {..<src_size (an_current a1)}" "distinct (an_queue a2)"
    by (auto simp: q)
  moreover have "sym_inv (an_current a2)" using queue_docs_sym_inv [OF a1(1)] by (simp add: a2_def)
  ultimately have "sym_inv (an_current a3)"
    using analyze_nodes_sym_inv [OF assms(1) _ _ _ _ _ a3(1)] by force
  with a3(2) show ?thesis by (auto simp: sort_diagnostics_def split: if_splits)
qed

lemma empty_ctx_sym_inv: "sym_inv empty_ctx"
  by (auto simp: sym_inv_def listed_inv_def linked_inv_def empty_ctx_def src_size_def nsyms_def is_ref_def)

end
