(* ===== verification/Analyze_Props.thy ===== *)
theory Analyze_Props
  imports Analyze_Syms
begin

text \<open>
  The properties of the analyzer: what an analysis keeps, which files it compiles, what the
  callbacks record, and where the code does not do what its surroundings expect of it.

  The witnesses run the analyzer on one open document (\<open>demo_ws\<close>) with an assembler that opens it
  and reports a label and a reference to it (\<open>demo_run\<close>).
\<close>

section \<open>A small run\<close>

definition demo_name :: "string \<Rightarrow> cptr" where
  "demo_name s = \<lparr>cp_addr = 1, cp_text = s\<rparr>"

definition demo_region :: "int \<Rightarrow> int \<Rightarrow> asm_region" where
  "demo_region s e = \<lparr>rg_filename = demo_name ''a.tal'',
     rg_range = \<lparr>ar_start = \<lparr>ap_line = 1, ap_col = s + 1, ap_byte = s\<rparr>,
                 ar_end = \<lparr>ap_line = 1, ap_col = e + 1, ap_byte = e\<rparr>\<rparr>\<rparr>"

definition demo_sym :: "asm_sym_type \<Rightarrow> asm_region \<Rightarrow> asm_sym" where
  "demo_sym t r = \<lparr>as_type = t, as_name = ''a'', as_name_is_generated = False, as_id = 7, as_region = r\<rparr>"

definition demo_run :: asm_run where
  "demo_run = Call (Asm_fopen (demo_name ''a.tal'')) (\<lambda>_.
     Call (Asm_put_symbol 0x100 (demo_sym BUXN_ASM_SYM_LABEL (demo_region 0 2))) (\<lambda>_.
     Call (Asm_put_symbol 0x100 (demo_sym BUXN_ASM_SYM_LABEL_REF (demo_region 3 5))) (\<lambda>_.
     Done True)))"

definition demo_asm :: asm_api where
  "demo_asm = \<lparr>aa_utf8 = ref_utf8, aa_layout = append_layout, aa_read_file = (\<lambda>f. None),
     aa_asm = (\<lambda>f. demo_run), aa_chess_end = (\<lambda>s. Done True), aa_anno = (\<lambda>s. []), aa_qsort = (\<lambda>cmp d. d)\<rparr>"

definition demo_ws :: buxn_ls_workspace where
  "demo_ws = (buxn_ls_workspace_init ''/r'')\<lparr>docs := [(''a.tal'', ''@a ;a'')]\<rparr>"

lemmas demo_defs = demo_asm_def demo_ws_def demo_run_def demo_sym_def demo_region_def demo_name_def

lemmas table_defs = bhash_keys_def bhash_has_def bhash_get_def bhash_put_def bhash_set_def bhash_values_def

lemmas source_defs = buxn_ls_do_queue_file_def buxn_ls_alloc_node_def alloc_src_def put_source_def
  file_uri_def buxn_ls_workspace_init_def empty_ctx_def buxn_ls_analyzer_init_def upd_src_def
  upd_sym_def upd_current_def empty_graph_def new_node_def buxn_ls_graph_add_edge_def

lemmas position_defs = buxn_ls_convert_range_def buxn_ls_convert_position_def
  buxn_ls_analyzer_split_file_def buxn_ls_split_file_def read_line_def
  bio_lsp_utf16_offset_from_byte_offset_def utf8_turn_def ssize_def size_sub_def ref_utf8_def
  utf16_loop.simps

lemmas symbol_defs = buxn_asm_put_symbol_def same_symbol_def put_definition_def
  buxn_ls_make_sym_node_def alloc_sym_def push_definition_def put_label_def put_macro_def
  buxn_ls_label_scope_def

lemmas analysis_defs = buxn_ls_analyze_def queue_docs_def queue_doc_def swap_contexts_def
  analyze_node_def run_assembler_def clear_run_def init_asm_ctx_def handle_call_def
  buxn_asm_fopen_def file_content_def new_file_def bring_forward_def bring_file_forward_def
  connect_references_def connect_reference_def find_def_node_def sort_diagnostics_def

lemma demo_analysis_runs:
  "\<exists>a. buxn_ls_analyze demo_asm demo_ws buxn_ls_analyzer_init = Inr a \<and>
     bhash_get (cx_sources (an_current a)) ''a.tal'' = Some 0 \<and>
     map sn_uri (cx_src_nodes (an_current a)) = [''file:///r/a.tal''] \<and>
     map sn_definitions (cx_src_nodes (an_current a)) = [[0]] \<and>
     map sn_references (cx_src_nodes (an_current a)) = [[1]] \<and>
     map sy_name (cx_sym_nodes (an_current a)) = [''a'', ''a''] \<and>
     map sy_range (cx_sym_nodes (an_current a)) =
       [\<lparr>r_start = \<lparr>p_line = 0, p_character = 0\<rparr>, r_end = \<lparr>p_line = 0, p_character = 2\<rparr>\<rparr>,
        \<lparr>r_start = \<lparr>p_line = 0, p_character = 3\<rparr>, r_end = \<lparr>p_line = 0, p_character = 5\<rparr>\<rparr>] \<and>
     map sy_source (cx_sym_nodes (an_current a)) = [0, 0] \<and>
     pairs (cx_sym_graph (an_current a)) = [(1, 0)] \<and>
     an_diagnostics a = []"
  by (simp add: demo_defs table_defs source_defs position_defs symbol_defs analysis_defs
      pairs_def Let_def CR_def LF_def)

definition demo_result :: analyzer where
  "demo_result = projr (buxn_ls_analyze demo_asm demo_ws buxn_ls_analyzer_init)"

lemma demo_analysis:
  "buxn_ls_analyze demo_asm demo_ws buxn_ls_analyzer_init = Inr demo_result"
  "bhash_get (cx_sources (an_current demo_result)) ''a.tal'' = Some 0"
  "map sn_uri (cx_src_nodes (an_current demo_result)) = [''file:///r/a.tal'']"
  "map sn_definitions (cx_src_nodes (an_current demo_result)) = [[0]]"
  "map sn_references (cx_src_nodes (an_current demo_result)) = [[1]]"
  "map sy_name (cx_sym_nodes (an_current demo_result)) = [''a'', ''a'']"
  "map sy_range (cx_sym_nodes (an_current demo_result)) =
     [\<lparr>r_start = \<lparr>p_line = 0, p_character = 0\<rparr>, r_end = \<lparr>p_line = 0, p_character = 2\<rparr>\<rparr>,
      \<lparr>r_start = \<lparr>p_line = 0, p_character = 3\<rparr>, r_end = \<lparr>p_line = 0, p_character = 5\<rparr>\<rparr>]"
  "map sy_source (cx_sym_nodes (an_current demo_result)) = [0, 0]"
  "pairs (cx_sym_graph (an_current demo_result)) = [(1, 0)]"
  "an_diagnostics demo_result = []"
  by (rule exE [OF demo_analysis_runs], elim conjE, simp add: demo_result_def)+

lemma demo_ws_inv: "workspace_inv demo_ws"
  by (simp add: demo_ws_def workspace_inv_def buxn_ls_workspace_init_def bhash_inv_def bhash_keys_def)

section \<open>What an analysis keeps\<close>

definition analyzer_ok :: "analyzer \<Rightarrow> bool" where
  "analyzer_ok a \<longleftrightarrow> analyzer_inv a \<and> sym_inv (an_current a)"

lemma analyzer_init_ok: "analyzer_ok buxn_ls_analyzer_init"
  using analyzer_init_inv by (simp add: analyzer_ok_def buxn_ls_analyzer_init_def empty_ctx_sym_inv)

text \<open>C1: Whatever the assembler and the verifier do, an analysis that returns leaves a well-formed
  analyzer: the table of sources and the arena describe each other, the include graph has no cycle
  (so the walks of the next analysis and of completion end), and the lists and links of symbols are
  consistent.\<close>

theorem analysis_keeps_invariant:
  assumes "workspace_inv ws" and "analyzer_ok a" and "buxn_ls_analyze api ws a = Inr a'"
  shows "analyzer_ok a' \<and> acyclic (src_edges (an_current a'))"
proof -
  have a: "analyzer_inv a" using assms(2) by (simp add: analyzer_ok_def)
  have "analyzer_inv a'" by (rule analyze_keeps_inv [OF assms(1) a assms(3)])
  moreover have "sym_inv (an_current a')" by (rule analyze_sym_inv [OF assms(1) a assms(3)])
  moreover have "ranked (an_current a')" using calculation(1) by (simp add: analyzer_inv_def)
  ultimately show ?thesis by (simp add: analyzer_ok_def ranked_acyclic)
qed

theorem analysis_keeps_invariant_witness:
  "buxn_ls_analyze demo_asm demo_ws buxn_ls_analyzer_init = Inr demo_result \<and> analyzer_ok demo_result"
  using analysis_keeps_invariant [OF demo_ws_inv analyzer_init_ok demo_analysis(1)] demo_analysis(1)
  by simp

text \<open>C18: Queueing never faults, in particular its two recursions over the previous include graph
  end, and it queues every open document exactly once and nothing else.\<close>

theorem queue_open_documents:
  assumes "workspace_inv ws" and "analyzer_ok a"
  shows "\<exists>a'. queue_docs lay ws (swap_contexts a) = Inr a' \<and> distinct (queued_files a') \<and>
    set (queued_files a') = set (bhash_keys (docs ws))"
  using queue_docs_result [OF assms(1)] assms(2) queued_files_inv
  unfolding analyzer_ok_def analyzer_inv_def by metis

theorem queue_open_documents_witness:
  "\<exists>a'. queue_docs append_layout demo_ws (swap_contexts buxn_ls_analyzer_init) = Inr a' \<and>
     queued_files a' = [''a.tal'']"
proof -
  obtain a' where a': "queue_docs append_layout demo_ws (swap_contexts buxn_ls_analyzer_init) = Inr a'"
    "distinct (queued_files a')" "set (queued_files a') = {''a.tal''}"
    using queue_open_documents [OF demo_ws_inv analyzer_init_ok, of append_layout]
    by (auto simp: demo_ws_def bhash_keys_def)
  have "length (queued_files a') = 1" using distinct_card [OF a'(2)] a'(3) by simp
  then obtain f where "queued_files a' = [f]" by (auto simp: length_Suc_conv)
  with a'(3) have "queued_files a' = [''a.tal'']" by simp
  with a'(1) show ?thesis by blast
qed

text \<open>C2: After an analysis every reference of a file is linked to exactly one symbol, which is a
  definition of some file and lists the reference among its incoming edges; and what a definition
  lists are references linked to it.\<close>

theorem references_linked:
  assumes "workspace_inv ws" and "analyzer_ok a" and "buxn_ls_analyze api ws a = Inr a'"
    and "cx = an_current a'"
  shows "(\<forall>r. is_ref cx r \<longrightarrow> (\<exists>d. out_nodes (cx_sym_graph cx) r = [d] \<and> is_def cx d \<and>
             r \<in> set (in_nodes (cx_sym_graph cx) d))) \<and>
    (\<forall>d. is_def cx d \<longrightarrow> (\<forall>r \<in> set (in_nodes (cx_sym_graph cx) d). is_ref cx r \<and>
             out_nodes (cx_sym_graph cx) r = [d]))"
proof -
  have "analyzer_inv a" using assms(2) by (simp add: analyzer_ok_def)
  then have "sym_inv cx" unfolding assms(4) by (rule analyze_sym_inv [OF assms(1) _ assms(3)])
  then have inv: "linked_inv cx" by (simp add: sym_inv_def)
  note l = linked_invD [OF inv]
  have size: "is_def cx d \<Longrightarrow> d < g_size (cx_sym_graph cx)" "is_ref cx d \<Longrightarrow> d < g_size (cx_sym_graph cx)" for d
    by (simp_all add: l(2) is_def_def is_ref_def)
  have edge: "d \<in> set (out_nodes (cx_sym_graph cx) r) \<longleftrightarrow> r \<in> set (in_nodes (cx_sym_graph cx) d)"
    if "is_ref cx r" "is_def cx d" for r d
    using gr.duality [OF l(1)] size that by simp
  have out: "d \<in> set (out_nodes (cx_sym_graph cx) r) \<Longrightarrow> is_def cx d" if "is_ref cx r" for r d
    using gr.in_outs [OF l(1) size(2)] l(3) that by blast
  have into: "r \<in> set (in_nodes (cx_sym_graph cx) d) \<Longrightarrow> is_ref cx r" if "is_def cx d" for r d
    using gr.in_ins [OF l(1) size(1)] l(3) that by blast
  have one: "\<exists>d. out_nodes (cx_sym_graph cx) r = [d] \<and> is_def cx d \<and> r \<in> set (in_nodes (cx_sym_graph cx) d)"
    if r: "is_ref cx r" for r
  proof -
    from l(4) [OF r] obtain d where d: "out_nodes (cx_sym_graph cx) r = [d]" ..
    then have "is_def cx d" using out [OF r] by simp
    with d edge [OF r this] show ?thesis by simp
  qed
  have "is_ref cx r \<and> out_nodes (cx_sym_graph cx) r = [d]"
    if d: "is_def cx d" and r: "r \<in> set (in_nodes (cx_sym_graph cx) d)" for d r
  proof -
    have "is_ref cx r" by (rule into [OF d r])
    with one [OF this] edge [OF this d] r show ?thesis by auto
  qed
  with one show ?thesis by blast
qed

theorem references_linked_witness:
  "buxn_ls_analyze demo_asm demo_ws buxn_ls_analyzer_init = Inr demo_result \<and>
     out_nodes (cx_sym_graph (an_current demo_result)) 1 = [0]"
proof -
  let ?cx = "an_current demo_result"
  have len: "length (cx_src_nodes ?cx) = 1" "length (cx_sym_nodes ?cx) = 2"
    using arg_cong [OF demo_analysis(5), of length] arg_cong [OF demo_analysis(8), of length] by simp_all
  have "sn_references (cx_src_nodes ?cx ! 0) = [1]"
    using nth_map [of 0 "cx_src_nodes ?cx" sn_references] len demo_analysis(5) by simp
  moreover have "sy_source (cx_sym_nodes ?cx ! 1) = 0"
    using nth_map [of 1 "cx_sym_nodes ?cx" sy_source] len demo_analysis(8) by simp
  ultimately have "is_ref ?cx 1"
    by (simp add: is_ref_def nsyms_def sym_src_def src_size_def src_refs_def len)
  with references_linked [OF demo_ws_inv analyzer_init_ok demo_analysis(1) refl] obtain d where
    d: "out_nodes (cx_sym_graph ?cx) 1 = [d]" by blast
  have inv: "linked_inv ?cx"
    using analyze_sym_inv [OF demo_ws_inv analyzer_init_inv demo_analysis(1)] by (simp add: sym_inv_def)
  have "1 < g_size (cx_sym_graph ?cx)"
    using linked_invD(2) [OF inv] len by (simp add: nsyms_def)
  then have "(1, d) \<in> set (pairs (cx_sym_graph ?cx))"
    using gr.in_outs [OF linked_invD(1) [OF inv], of 1 d] d by simp
  then have "d = 0" by (simp add: demo_analysis(9))
  with d demo_analysis(1) show ?thesis by simp
qed

section \<open>What the callbacks record\<close>

lemma made_sym:
  assumes "buxn_ls_make_sym_node utf8 sy a = Inr (n, a')"
  obtains src where
    "bhash_get (cx_sources (an_current a)) (cp_text (rg_filename (as_region sy))) = Some src"
    "n = nsyms (an_current a)" "n < length (cx_sym_nodes (an_current a'))"
    "sy_source (cx_sym_nodes (an_current a') ! n) = src" "sy_name (cx_sym_nodes (an_current a') ! n) = as_name sy"
    "sy_byte_offset (cx_sym_nodes (an_current a') ! n) = ap_byte (ar_start (rg_range (as_region sy)))"
    "cx_src_nodes (an_current a') = cx_src_nodes (an_current a)"
    "cx_sym_graph (an_current a') = new_node (cx_sym_graph (an_current a))" "an_label_defs a' = an_label_defs a"
proof -
  from assms obtain src rng b where
    src: "bhash_get (cx_sources (an_current a)) (cp_text (rg_filename (as_region sy))) = Some src"
    and lo: "lines_only a b" and n: "n = nsyms (an_current a)"
    and a': "a' = b\<lparr>an_current := snd (alloc_sym \<lparr>sy_name = as_name sy, sy_documentation = [],
       sy_signature = [], sy_source = src, sy_type = as_type sy,
       sy_semantics = BUXN_LS_SYMBOL_AS_VARIABLE,
       sy_byte_offset = ap_byte (ar_start (rg_range (as_region sy))), sy_range = rng,
       sy_address = 0\<rparr> (an_current a))\<rparr>"
    by (rule make_sym_node_cases) (simp add: nsyms_def)
  show thesis
    by (rule that [OF src n]) (simp_all add: a' n alloc_sym_def nsyms_def lines_onlyD(5) [OF lo])
qed

text \<open>A label that the assembler reports, unless it repeats the previous symbol or has a generated
  name, becomes a new definition at the head of the definitions of its file, with its name, its
  address and its byte offset, and references to its id will be linked to it.\<close>

theorem label_recorded:
  assumes "src_inv (an_current a)" and "sym_inv (an_current a)" and "bhash_inv (an_label_defs a)"
    and "as_type sy = BUXN_ASM_SYM_LABEL" and "\<not> as_name_is_generated sy"
    and "\<not> same_symbol sy (ac_previous_sym ctx)"
    and "aa_anno api (ac_anno_syms ctx @ [(addr, sy)]) = []"
    and put: "buxn_asm_put_symbol api addr sy (a, ctx) = Inr (a', ctx')"
  shows "\<exists>n s. n = nsyms (an_current a) \<and>
    bhash_get (cx_sources (an_current a)) (cp_text (rg_filename (as_region sy))) = Some s \<and>
    src_defs (an_current a') s = n # src_defs (an_current a) s \<and>
    sy_name (cx_sym_nodes (an_current a') ! n) = as_name sy \<and>
    sy_address (cx_sym_nodes (an_current a') ! n) = addr \<and>
    sy_byte_offset (cx_sym_nodes (an_current a') ! n) = ap_byte (ar_start (rg_range (as_region sy))) \<and>
    ac_current_sym_node ctx' = Some n \<and>
    bhash_get (an_label_defs a') (word_of_nat (as_id sy)) = Some n"
proof -
  let ?ctx = "ctx\<lparr>ac_chess_syms := ac_chess_syms ctx @ [(addr, sy)]\<rparr>"
  from put assms(4,6) obtain b c where mid: "put_definition api addr sy (a, ?ctx) = Inr (b, c)"
    and an: "ofold buxn_ls_handle_annotation (aa_anno api (ac_anno_syms c @ [(addr, sy)]))
        (b, c\<lparr>ac_previous_sym := Some sy, ac_anno_syms := ac_anno_syms c @ [(addr, sy)]\<rparr>) = Inr (a', ctx')"
    by (auto simp: buxn_asm_put_symbol_def Let_def ok_simps)
  from mid assms(5) obtain fl n a2 c4 where
    mk: "buxn_ls_make_sym_node (aa_utf8 api) sy (bump_analyzer sy fl a) = Inr (n, a2)"
    and pl: "put_label (aa_layout api) addr sy (bump_file sy fl) n (push_definition n a2, ?ctx) = (b, c4)"
    and c: "c = c4\<lparr>ac_current_sym_node := Some n\<rparr>"
    by (cases rule: put_definition_cases) (auto simp: assms(4))
  have "ac_anno_syms c = ac_anno_syms ctx"
    using pl c by (auto simp: put_label_def Let_def split: if_splits)
  with an assms(7) have fin: "a' = b" "ac_current_sym_node ctx' = Some n" by (auto simp: c)
  have a1: "an_current (bump_analyzer sy fl a) = an_current a"
    "an_label_defs (bump_analyzer sy fl a) = an_label_defs a" by (simp_all add: bump_analyzer_def)
  obtain src where
    src: "bhash_get (cx_sources (an_current a)) (cp_text (rg_filename (as_region sy))) = Some src"
    and n: "n = nsyms (an_current a)" "n < length (cx_sym_nodes (an_current a2))"
    and sym: "sy_source (cx_sym_nodes (an_current a2) ! n) = src" "sy_name (cx_sym_nodes (an_current a2) ! n) = as_name sy"
      "sy_byte_offset (cx_sym_nodes (an_current a2) ! n) = ap_byte (ar_start (rg_range (as_region sy)))"
    and same: "cx_src_nodes (an_current a2) = cx_src_nodes (an_current a)" "an_label_defs a2 = an_label_defs a"
    by (rule made_sym [OF mk, unfolded a1]) blast
  have "src < length (cx_src_nodes (an_current a))" using src assms(1) by (simp add: src_invD(4) src_size_def)
  then have "src_defs (an_current (push_definition n a2)) src = n # src_defs (an_current a) src"
    "cx_sym_nodes (an_current (push_definition n a2)) = cx_sym_nodes (an_current a2)"
    by (simp_all add: push_definition_def upd_current_def upd_src_def src_defs_def sym same)
  moreover have "an_label_defs (push_definition n a2) = an_label_defs a"
    by (simp add: same push_definition_def upd_current_def)
  ultimately have "src_defs (an_current b) src = n # src_defs (an_current a) src \<and>
    sy_name (cx_sym_nodes (an_current b) ! n) = as_name sy \<and>
    sy_address (cx_sym_nodes (an_current b) ! n) = addr \<and>
    sy_byte_offset (cx_sym_nodes (an_current b) ! n) = ap_byte (ar_start (rg_range (as_region sy))) \<and>
    bhash_get (an_label_defs b) (word_of_nat (as_id sy)) = Some n"
    using pl assms(3) n(2) sym
    by (auto simp: put_label_def Let_def upd_current_def upd_sym_def src_defs_def bh.get_put split: if_splits)
  with src n(1) fin show ?thesis by blast
qed

definition demo_open :: analyzer where
  "demo_open = (buxn_ls_do_queue_file append_layout demo_ws ''a.tal'' buxn_ls_analyzer_init)
     \<lparr>an_files := [(''a.tal'', new_file ''@a ;a'')]\<rparr>"

lemma demo_open_inv: "src_inv (an_current demo_open)" "sym_inv (an_current demo_open)"
proof -
  have "an_current demo_open = \<lparr>cx_sources = [(''a.tal'', 0)],
      cx_src_nodes = [\<lparr>sn_filename = ''a.tal'', sn_uri = ''file:///r/a.tal'', sn_references = [],
        sn_definitions = [], sn_analyzed = False\<rparr>],
      cx_src_graph = new_node empty_graph, cx_sym_nodes = [], cx_sym_graph = empty_graph\<rparr>"
    by (simp add: demo_open_def demo_ws_def source_defs table_defs)
  then show "src_inv (an_current demo_open)"
    by (auto simp: src_inv_def new_node_inv bhash_inv_def bhash_keys_def bhash_get_def)
  show "sym_inv (an_current demo_open)"
    using do_queue_file_sym_inv [of buxn_ls_analyzer_init] empty_ctx_sym_inv
    by (simp add: demo_open_def buxn_ls_analyzer_init_def)
qed

theorem label_recorded_witness:
  "\<exists>a' ctx'. buxn_asm_put_symbol demo_asm 0x100 (demo_sym BUXN_ASM_SYM_LABEL (demo_region 0 2))
       (demo_open, init_asm_ctx 0) = Inr (a', ctx') \<and>
     src_defs (an_current a') 0 = [0] \<and> sy_address (cx_sym_nodes (an_current a') ! 0) = 0x100"
proof -
  let ?sy = "demo_sym BUXN_ASM_SYM_LABEL (demo_region 0 2)"
  have "\<exists>a' ctx'. buxn_asm_put_symbol demo_asm 0x100 ?sy (demo_open, init_asm_ctx 0) = Inr (a', ctx')"
    by (simp add: demo_open_def demo_defs table_defs source_defs position_defs symbol_defs
        init_asm_ctx_def new_file_def Let_def CR_def LF_def)
  then obtain a' ctx' where
    put: "buxn_asm_put_symbol demo_asm 0x100 ?sy (demo_open, init_asm_ctx 0) = Inr (a', ctx')" by blast
  have facts: "bhash_inv (an_label_defs demo_open)" "as_type ?sy = BUXN_ASM_SYM_LABEL"
    "\<not> as_name_is_generated ?sy" "\<not> same_symbol ?sy (ac_previous_sym (init_asm_ctx 0))"
    "aa_anno demo_asm (ac_anno_syms (init_asm_ctx 0) @ [(0x100, ?sy)]) = []"
    "nsyms (an_current demo_open) = 0" "src_defs (an_current demo_open) 0 = []"
    "bhash_get (cx_sources (an_current demo_open)) (cp_text (rg_filename (as_region ?sy))) = Some 0"
    by (simp_all add: demo_open_def demo_defs table_defs source_defs init_asm_ctx_def bhash_inv_def
        same_symbol_def nsyms_def src_defs_def)
  from label_recorded [OF demo_open_inv facts(1-5) put] facts(6-8) put show ?thesis by auto
qed

text \<open>Connecting a reference whose definition is known pushes a new symbol with its name on the
  references of its file, makes that definition its only target and the reference the first of the
  definition's incoming edges; a reference whose definition is not known changes nothing.\<close>

theorem reference_connected:
  assumes "src_inv (an_current a)" and "sym_inv (an_current a)"
    and "find_def_node sy a = Inr found"
    and "\<forall>d. found = Some d \<longrightarrow> is_def (an_current a) d"
    and con: "connect_reference utf8 sy a = Inr a'"
  shows "(found = None \<longrightarrow> a' = a) \<and>
    (\<forall>d. found = Some d \<longrightarrow>
      (\<exists>n s. n = nsyms (an_current a) \<and>
         bhash_get (cx_sources (an_current a)) (cp_text (rg_filename (as_region sy))) = Some s \<and>
         src_refs (an_current a') s = n # src_refs (an_current a) s \<and>
         sy_name (cx_sym_nodes (an_current a') ! n) = as_name sy \<and>
         out_nodes (cx_sym_graph (an_current a')) n = [d] \<and>
         in_nodes (cx_sym_graph (an_current a')) d = n # in_nodes (cx_sym_graph (an_current a)) d))"
proof (cases found)
  case None
  with assms show ?thesis by (simp add: connect_reference_def)
next
  case (Some d)
  with assms(3) con obtain n a1 where mk: "buxn_ls_make_sym_node utf8 sy a = Inr (n, a1)"
    by (auto simp: connect_reference_def ok_simps)
  note m = make_sym_node_ok [OF assms(1,2) mk]
  from made_sym [OF mk] obtain src where
    src: "bhash_get (cx_sources (an_current a)) (cp_text (rg_filename (as_region sy))) = Some src"
    and n: "n = nsyms (an_current a)"
    and sym: "sy_source (cx_sym_nodes (an_current a1) ! n) = src" "sy_name (cx_sym_nodes (an_current a1) ! n) = as_name sy"
    and same: "cx_src_nodes (an_current a1) = cx_src_nodes (an_current a)"
      "cx_sym_graph (an_current a1) = new_node (cx_sym_graph (an_current a))"
    by blast
  define cx1 where "cx1 = upd_src (sym_src (an_current a1) n)
    (\<lambda>sn. sn\<lparr>sn_references := n # sn_references sn\<rparr>) (an_current a1)"
  define cx2 where "cx2 = cx1\<lparr>cx_sym_graph := buxn_ls_graph_add_edge (cx_sym_graph cx1) n d\<rparr>"
  have a': "an_current a' = cx2"
    using assms(3) Some mk con by (auto simp: connect_reference_def Let_def cx1_def cx2_def sym_src_def)
  have d: "is_def (an_current a) d" "is_def (an_current a1) d"
    using assms(4) Some m(5) by (simp_all add: sym_step_def)
  have out: "out_nodes (cx_sym_graph cx2) n = [d]"
    by (rule push_ref_step(3) [OF m(1,2,3) d(2) m(4) cx1_def cx2_def])
  have g: "graph_inv (cx_sym_graph (an_current a))" "g_size (cx_sym_graph (an_current a)) = nsyms (an_current a)"
    using assms(2) linked_invD(1,2) by (simp_all add: sym_inv_def)
  have "d < nsyms (an_current a)" using d(1) by (simp add: is_def_def)
  then have "in_nodes (cx_sym_graph cx2) d = n # in_nodes (cx_sym_graph (an_current a)) d"
    using g same by (simp add: cx2_def cx1_def push_lists(4) gr.ins_add_edge gr.ins_add_node
        new_node_inv n)
  moreover have "src < src_size (an_current a)" using src assms(1) by (simp add: src_invD(4))
  then have "src_refs cx2 src = n # src_refs (an_current a) src \<and> sy_name (cx_sym_nodes cx2 ! n) = as_name sy"
    using sym same by (simp add: cx2_def cx1_def sym_src_def src_refs_def upd_src_def src_size_def)
  ultimately show ?thesis using Some src n out by (auto simp: a')
qed

definition demo_labelled :: "analyzer \<times> asm_ctx" where
  "demo_labelled = projr (buxn_asm_put_symbol demo_asm 0x100
     (demo_sym BUXN_ASM_SYM_LABEL (demo_region 0 2)) (demo_open, init_asm_ctx 0))"

lemma demo_labelled_runs:
  "buxn_asm_put_symbol demo_asm 0x100 (demo_sym BUXN_ASM_SYM_LABEL (demo_region 0 2))
     (demo_open, init_asm_ctx 0) = Inr demo_labelled"
  "an_label_defs (fst demo_labelled) = [(7, 0)]"
  "nsyms (an_current (fst demo_labelled)) = 1"
  "src_refs (an_current (fst demo_labelled)) 0 = []"
  "bhash_get (cx_sources (an_current (fst demo_labelled))) ''a.tal'' = Some 0"
  "\<exists>a. connect_reference ref_utf8 (demo_sym BUXN_ASM_SYM_LABEL_REF (demo_region 3 5)) (fst demo_labelled) = Inr a"
  by (simp_all add: demo_labelled_def demo_open_def demo_defs table_defs source_defs position_defs
      symbol_defs init_asm_ctx_def new_file_def connect_reference_def find_def_node_def nsyms_def
      src_refs_def Let_def CR_def LF_def)

theorem reference_connected_witness:
  "\<exists>a. connect_reference ref_utf8 (demo_sym BUXN_ASM_SYM_LABEL_REF (demo_region 3 5)) (fst demo_labelled) = Inr a \<and>
     src_refs (an_current a) 0 = [1] \<and> out_nodes (cx_sym_graph (an_current a)) 1 = [0]"
proof -
  let ?sy = "demo_sym BUXN_ASM_SYM_LABEL_REF (demo_region 3 5)" and ?a = "fst demo_labelled"
  obtain a where a: "connect_reference ref_utf8 ?sy ?a = Inr a" using demo_labelled_runs(6) ..
  have run: "buxn_asm_put_symbol demo_asm 0x100 (demo_sym BUXN_ASM_SYM_LABEL (demo_region 0 2))
     (demo_open, init_asm_ctx 0) = Inr (?a, snd demo_labelled)"
    using demo_labelled_runs(1) by simp
  have "syms_ok (demo_open, init_asm_ctx 0)"
    using demo_open_inv(2)
    by (simp add: syms_ok_def known_defs_def demo_open_def init_asm_ctx_def buxn_ls_do_queue_file_def
        buxn_ls_alloc_node_def alloc_src_def Let_def buxn_ls_analyzer_init_def bhash_values_def)
  from put_symbol_ok [OF demo_open_inv(1) this run] have ok: "syms_ok (?a, snd demo_labelled)" .
  have inv: "src_inv (an_current ?a)" "sym_inv (an_current ?a)"
    using put_symbol_frame [OF run] same_sources_src_inv [OF _ demo_open_inv(1)] ok
    by (auto simp: frame_def syms_ok_def)
  have found: "find_def_node ?sy ?a = Inr (Some 0)"
    by (simp add: find_def_node_def demo_sym_def demo_labelled_runs(2) bhash_get_def)
  moreover have "is_def (an_current ?a) 0"
    using find_def_node_known [OF found] ok by (auto simp: syms_ok_def)
  ultimately show ?thesis
    using reference_connected [OF inv found _ a] a demo_labelled_runs(3-5)
    by (auto simp: demo_sym_def demo_region_def demo_name_def)
qed

section \<open>Reading files\<close>

text \<open>Reading \<open>k\<close> characters from a handle, as the assembler does.\<close>

primrec read_chars :: "nat \<Rightarrow> nat \<Rightarrow> asm_ctx \<Rightarrow> (int list \<times> asm_ctx) outcome" where
  "read_chars 0 h ctx = Inr ([], ctx)"
| "read_chars (Suc k) h ctx =
     obind (buxn_asm_fgetc h ctx) (\<lambda>(c, ctx1).
     obind (read_chars k h ctx1) (\<lambda>(cs, ctx2). Inr (c # cs, ctx2)))"

lemma read_chars_rest:
  assumes "h < length (ac_handles ctx)" and "ac_handles ctx ! h = Some (content, i)"
    and "i \<le> length content" and "k = Suc (length content - i)"
  shows "\<exists>ctx'. read_chars k h ctx = Inr (map char_to_int (drop i content) @ [EOF], ctx')"
  using assms
proof (induction "length content - i" arbitrary: i ctx k)
  case 0
  then show ?case by (simp add: buxn_asm_fgetc_def)
next
  case (Suc m)
  define ctx1 where "ctx1 = ctx\<lparr>ac_handles := (ac_handles ctx)[h := Some (content, Suc i)]\<rparr>"
  have i: "i < length content" using Suc.hyps(2) by simp
  have get: "buxn_asm_fgetc h ctx = Inr (char_to_int (content ! i), ctx1)"
    using Suc.prems(1,2) i by (simp add: buxn_asm_fgetc_def ctx1_def)
  have m: "m = length content - Suc i" using Suc.hyps(2) by simp
  have "\<exists>ctx'. read_chars (Suc m) h ctx1 = Inr (map char_to_int (drop (Suc i) content) @ [EOF], ctx')"
    by (rule Suc.hyps(1) [OF m]) (use Suc.prems(1) i m in \<open>simp_all add: ctx1_def\<close>)
  then obtain ctx' where
    "read_chars (Suc m) h ctx1 = Inr (map char_to_int (drop (Suc i) content) @ [EOF], ctx')" ..
  moreover have "k = Suc (Suc m)" using Suc.prems(4) Suc.hyps(2) by simp
  ultimately show ?case using get i by (simp add: Cons_nth_drop_Suc [symmetric] del: read_chars.simps(1))
qed

lemma file_content_stored:
  assumes "bhash_inv (an_files a)" and "buxn_asm_fopen api ws f (a, ctx) = (Some h, a', ctx')"
  shows "\<exists>content. file_content api ws f a = Some content \<and> h = length (ac_handles ctx) \<and>
    ac_handles ctx' = ac_handles ctx @ [Some (content, 0)] \<and>
    map_option f_content (bhash_get (an_files a') f) = Some content"
proof (cases "file_content api ws f a")
  case None
  with assms(2) show ?thesis by (simp add: buxn_asm_fopen_def)
next
  case (Some content)
  obtain n cx1 where node: "open_node (aa_layout api) ws f (an_current a) = (n, cx1)"
    by (cases "open_node (aa_layout api) ws f (an_current a)")
  show ?thesis
  proof (cases "bhash_get (an_files a) f")
    case None
    with assms Some node show ?thesis
      by (simp add: buxn_asm_fopen_def open_node_def [symmetric] bhash_has_def)
        (auto simp: Let_def bh.get_put new_file_def)
  next
    case fl: (Some fl)
    with Some have "f_content fl = content" by (simp add: file_content_def)
    with assms Some node fl show ?thesis
      by (simp add: buxn_asm_fopen_def open_node_def [symmetric] bhash_has_def)
        (auto simp: Let_def)
  qed
qed

text \<open>The end-of-file value is also what the byte \<open>0xFF\<close> reads as, and no other byte: the assembler
  takes a file that holds this byte as ending there.\<close>

theorem fgetc_ff_is_eof:
  assumes "h < length (ac_handles ctx)" and "ac_handles ctx ! h = Some (content, i)"
    and "i < length content"
  shows "(\<exists>ctx'. buxn_asm_fgetc h ctx = Inr (EOF, ctx')) \<longleftrightarrow> content ! i = CHR 0xFF"
proof -
  have "char_to_int c = EOF \<longleftrightarrow> c = CHR 0xFF" for c
  proof -
    have "of_char c < (256 :: nat)" by (rule nat_of_char_less_256)
    then have "char_to_int c = EOF \<longleftrightarrow> of_char c = (255 :: nat)"
      by (auto simp: char_to_int_def EOF_def Let_def)
    also have "\<dots> \<longleftrightarrow> c = CHR 0xFF"
      using of_char_eq_iff [of c "CHR 0xFF", where 'a = nat] by simp
    finally show ?thesis .
  qed
  with assms show ?thesis by (simp add: buxn_asm_fgetc_def)
qed

theorem fgetc_ff_is_eof_witness:
  "\<exists>ctx'. buxn_asm_fgetc 0 ((init_asm_ctx 0)\<lparr>ac_handles := [Some ([CHR 0xFF, CHR ''a''], 0)]\<rparr>) = Inr (EOF, ctx')"
  using fgetc_ff_is_eof [of 0 "(init_asm_ctx 0)\<lparr>ac_handles := [Some ([CHR 0xFF, CHR ''a''], 0)]\<rparr>"
      "[CHR 0xFF, CHR ''a'']" 0] by simp

section \<open>Messages\<close>

lemma split_file_again: "buxn_ls_analyzer_split_file a f = (r, a') \<Longrightarrow> buxn_ls_analyzer_split_file a' f = (r, a')"
  by (auto simp: buxn_ls_analyzer_split_file_def Let_def get_set bhash_has_def split: option.splits if_splits)

lemma convert_position_split: "buxn_ls_convert_position utf8 f p a = Inr (q, a') \<Longrightarrow>
    \<exists>r. buxn_ls_analyzer_split_file a f = (r, a')"
  by (auto simp: buxn_ls_convert_position_def Let_def ok_simps split: prod.splits option.splits if_splits)

lemma convert_position_again:
  assumes "buxn_ls_convert_position utf8 f p a = Inr (q, a')"
    and "buxn_ls_analyzer_split_file a f = (r, a')"
  shows "buxn_ls_convert_position utf8 f p a' = Inr (q, a')"
  using assms(1) by (simp add: buxn_ls_convert_position_def assms(2) split_file_again [OF assms(2)])

lemma convert_region_again:
  assumes "buxn_ls_convert_region utf8 rg a = Inr (loc, a')"
  shows "buxn_ls_convert_region utf8 rg a' = Inr (loc, a')"
proof -
  let ?f = "cp_text (rg_filename rg)"
  from assms obtain s e a1 where
    s: "buxn_ls_convert_position utf8 ?f (ar_start (rg_range rg)) a = Inr (s, a1)"
    and e: "buxn_ls_convert_position utf8 ?f (ar_end (rg_range rg)) a1 = Inr (e, a')"
    by (auto simp: buxn_ls_convert_region_def buxn_ls_convert_range_def Let_def ok_simps)
  from convert_position_split [OF s] obtain r where r: "buxn_ls_analyzer_split_file a ?f = (r, a1)" ..
  note r1 = split_file_again [OF r]
  have "a' = a1" using convert_position_split [OF e] r1 by auto
  then have "buxn_ls_convert_position utf8 ?f (ar_start (rg_range rg)) a' = Inr (s, a')"
    "buxn_ls_convert_position utf8 ?f (ar_end (rg_range rg)) a' = Inr (e, a')"
    using convert_position_again [OF s r] e by simp_all
  with assms s e show ?thesis
    by (simp add: buxn_ls_convert_region_def buxn_ls_convert_range_def Let_def)
qed

definition added_diag :: "analyzer \<Rightarrow> analyzer \<Rightarrow> diagnostic \<Rightarrow> bool" where
  "added_diag a a' d \<longleftrightarrow> an_diagnostics a' = an_diagnostics a @ [d]"

lemma add_related_own:
  assumes "buxn_ls_convert_region utf8 (rp_region report) a1 = Inr (loc, a2)"
    and "add_related utf8 report (d, a2) = Inr (d', a3)" and "dg_location d = loc"
    and "dg_related_message d = None"
  shows "an_diagnostics a3 = an_diagnostics a1 \<and> dg_location d' = dg_location d \<and>
    dg_severity d' = dg_severity d \<and>
    (dg_related_message d' \<noteq> None \<longrightarrow> dg_related_location d' = dg_location d)"
  using assms convert_region_again [OF assms(1)] lines_onlyD(7) [OF convert_region_lines_only [OF assms(1)]]
  by (auto simp: add_related_def split: option.splits if_splits)

text \<open>C38: A report about a source region (line not 0) adds exactly one diagnostic, at the converted
  region. From the assembler it has the severity of the report. From the verifier it has severity 0,
  which is no severity of the protocol: the one that was set is lost. In both, the location of the
  related message is that of the report itself, not the related region.\<close>

theorem report_diagnostic:
  assumes "ap_line (ar_start (rg_range (rp_region report))) \<noteq> 0"
  shows "(buxn_asm_report utf8 type report a = Inr a' \<longrightarrow>
      (\<exists>d. added_diag a a' d \<and>
         dg_severity d = (case type of BUXN_ASM_REPORT_WARNING \<Rightarrow> 2 | BUXN_ASM_REPORT_ERROR \<Rightarrow> 1
           | Asm_report_other t \<Rightarrow> 3) \<and>
         (dg_related_message d \<noteq> None \<longrightarrow> dg_related_location d = dg_location d))) \<and>
    (buxn_chess_report utf8 trace ctype report a = Inr a' \<longrightarrow> (\<forall>t. ctype \<noteq> Chess_report_other t) \<longrightarrow>
      (\<exists>d. added_diag a a' d \<and> dg_severity d = 0 \<and>
         (dg_related_message d \<noteq> None \<longrightarrow> dg_related_location d = dg_location d)))"
proof -
  have mark: "an_diagnostics (mark_error f b) = an_diagnostics b" for f b
    by (simp add: mark_error_def split: option.split)
  show ?thesis
    using assms
    by (auto simp: buxn_asm_report_def buxn_chess_report_def Let_def ok_simps added_diag_def push_diagnostic_def
        BIO_LSP_DIAGNOSTIC_WARNING_def BIO_LSP_DIAGNOSTIC_ERROR_def BIO_LSP_DIAGNOSTIC_INFORMATION_def
        dest!: add_related_own simp: mark split: asm_report_type.splits chess_report_type.splits if_splits)
qed

definition demo_report :: asm_report where
  "demo_report = \<lparr>rp_message = ''m'', rp_region = demo_region 0 2, rp_related_message = Some ''r'',
     rp_related_region = Some (demo_region 3 5)\<rparr>"

theorem report_diagnostic_witness:
  "\<exists>a' d. buxn_chess_report ref_utf8 None BUXN_CHESS_REPORT_ERROR demo_report demo_open = Inr a' \<and>
     added_diag demo_open a' d \<and> dg_severity d = 0"
proof -
  obtain a' where a': "buxn_chess_report ref_utf8 None BUXN_CHESS_REPORT_ERROR demo_report demo_open = Inr a'"
    by (simp add: buxn_chess_report_def demo_report_def demo_open_def demo_region_def demo_name_def demo_ws_def
        table_defs source_defs position_defs buxn_ls_convert_region_def mark_error_def new_file_def
        add_related_def Let_def CR_def LF_def)
  have "ap_line (ar_start (rg_range (rp_region demo_report))) \<noteq> 0"
    by (simp add: demo_report_def demo_region_def)
  from report_diagnostic [OF this, of ref_utf8 undefined demo_open a' None BUXN_CHESS_REPORT_ERROR] a'
  show ?thesis by auto
qed

section \<open>The runs of an analysis\<close>

lemma run_calls_rom: "run_calls api ws t (a, ctx) = Inr (r, a', ctx') \<Longrightarrow> \<not> ac_rom_is_empty ctx \<Longrightarrow>
    \<not> ac_rom_is_empty ctx'"
proof (induction t arbitrary: a ctx)
  case (Call c k)
  from Call.prems(1) obtain resp a1 ctx1 where c: "handle_call api ws c (a, ctx) = Inr (resp, a1, ctx1)"
    "run_calls api ws (k resp) (a1, ctx1) = Inr (r, a', ctx')" by (auto simp: ok_simps)
  have anno: "ac_rom_is_empty ctx2 = ac_rom_is_empty ctx'" if
    "ofold buxn_ls_handle_annotation calls (b, ctx') = Inr (b2, ctx2)" for calls b ctx' b2 ctx2
    using ofold_inv [OF that, of "\<lambda>s. ac_rom_is_empty (snd s) = ac_rom_is_empty ctx'"]
    by (fastforce simp: buxn_ls_handle_annotation_def Let_def ok_simps split: option.splits if_splits)
  have "ac_rom_is_empty ctx4 = ac_rom_is_empty ctx'" if
    "put_definition api addr sy (b, ctx') = Inr (b4, ctx4)" for addr sy b ctx' b4 ctx4
    using that by (cases rule: put_definition_cases)
      (auto simp: put_label_def put_macro_def Let_def split: if_splits)
  then have "ac_rom_is_empty ctx1 \<longrightarrow> ac_rom_is_empty ctx"
    using c(1)
    by (cases c)
      (auto simp: handle_call_def ok_simps buxn_asm_fgetc_def buxn_asm_fclose_def buxn_asm_put_rom_def
        buxn_asm_fopen_def buxn_asm_put_symbol_def Let_def dest!: anno
        split: prod.splits option.splits if_splits asm_sym_type.splits)
  then show ?case using Call.IH [OF rangeI c(2)] Call.prems(2) by blast
qed simp

text \<open>The flag that is to keep the verifier from running on an empty ROM never does: \<open>chess_end\<close>
  runs after every assembly that succeeds, whether or not it has put a byte.\<close>

theorem chess_always_runs:
  "run_assembler api ws n a =
     obind (run_calls api ws (aa_asm api (sn_filename (cx_src_nodes (an_current a) ! n)))
         (a, init_asm_ctx n)) (\<lambda>(success, a1, ctx1).
       if success
       then obind (run_calls api ws (aa_chess_end api (ac_chess_syms ctx1)) (a1, ctx1)) (\<lambda>(r, s). Inr s)
       else Inr (a1, ctx1))"
  unfolding run_assembler_def
  by (rule obind_cong [OF refl]) (auto simp: init_asm_ctx_def dest: run_calls_rom)

section \<open>Symbols carried forward\<close>

lemma copy_symbol_previous [simp]: "an_previous (copy_symbol s sy b) = an_previous b"
  by (simp add: copy_symbol_def split: prod.split)

lemma copy_symbols_spec:
  fixes a :: analyzer and s :: nat
  defines "lookup \<equiv> \<lambda>a n. cx_sym_nodes (an_current a) ! n"
  assumes "s < src_size (an_current a)"
  shows "\<exists>ns. src_defs (an_current (fold (\<lambda>n a. let sy = g n in
           if sy_byte_offset sy \<le> last1 then a else copy_symbol s sy a) xs a)) s = ns @ src_defs (an_current a) s \<and>
     map (lookup (fold (\<lambda>n a. let sy = g n in
           if sy_byte_offset sy \<le> last1 then a else copy_symbol s sy a) xs a)) ns =
       rev (map (\<lambda>n. (g n)\<lparr>sy_source := s\<rparr>) (filter (\<lambda>n. sy_byte_offset (g n) > last1) xs)) \<and>
     (\<forall>m < nsyms (an_current a). lookup (fold (\<lambda>n a. let sy = g n in
           if sy_byte_offset sy \<le> last1 then a else copy_symbol s sy a) xs a) m = lookup a m)"
  using assms(2)
proof (induction xs arbitrary: a)
  case (Cons x xs)
  let ?f = "\<lambda>n a. let sy = g n in if sy_byte_offset sy \<le> last1 then a else copy_symbol s sy a"
  show ?case
  proof (cases "sy_byte_offset (g x) \<le> last1")
    case True
    then show ?thesis using Cons.IH [OF Cons.prems] by (simp add: Let_def)
  next
    case False
    define b where "b = copy_symbol s (g x) a"
    have b: "src_defs (an_current b) s = nsyms (an_current a) # src_defs (an_current a) s"
      "nsyms (an_current b) = Suc (nsyms (an_current a))" "src_size (an_current b) = src_size (an_current a)"
      "lookup b (nsyms (an_current a)) = (g x)\<lparr>sy_source := s\<rparr>"
      "\<forall>m < nsyms (an_current a). lookup b m = lookup a m"
      using Cons.prems
      by (simp_all add: b_def copy_symbol_def alloc_sym_def upd_src_def src_defs_def nsyms_def src_size_def
          lookup_def nth_append)
    have "s < src_size (an_current b)" using Cons.prems b(3) by simp
    from Cons.IH [OF this] obtain ns where ns:
      "src_defs (an_current (fold ?f xs b)) s = ns @ src_defs (an_current b) s"
      "map (lookup (fold ?f xs b)) ns =
         rev (map (\<lambda>n. (g n)\<lparr>sy_source := s\<rparr>) (filter (\<lambda>n. sy_byte_offset (g n) > last1) xs))"
      "\<forall>m < nsyms (an_current b). lookup (fold ?f xs b) m = lookup b m"
      by blast
    have "fold ?f (x # xs) a = fold ?f xs b" using False by (simp add: b_def Let_def)
    moreover have "filter (\<lambda>n. sy_byte_offset (g n) > last1) (x # xs) =
        x # filter (\<lambda>n. sy_byte_offset (g n) > last1) xs" using False by simp
    ultimately show ?thesis
      using ns b by (intro exI [of _ "ns @ [nsyms (an_current a)]"]) simp
  qed
qed simp

text \<open>C31: For a file with an error, the definitions that the previous analysis had after the last symbol
  of this one are copied to the front of its definitions, in reverse, with all their attributes.
  Doing it again, as the loop over all files does after every further entry file, adds the same
  copies a second time.\<close>

theorem carried_forward:
  assumes "src_inv (an_current a)" and "f_has_error fl"
    and "bhash_get (cx_sources (an_previous a)) f = Some p"
    and "bhash_get (cx_sources (an_current a)) f = Some s"
    and "old = cx_sym_nodes (an_previous a)"
    and "copies = rev (map (\<lambda>n. (old ! n)\<lparr>sy_source := s\<rparr>)
      (filter (\<lambda>n. sy_byte_offset (old ! n) > f_last_symbol_byte fl) (src_defs (an_previous a) p)))"
    and "a1 = bring_file_forward (f, fl) a" and "a2 = bring_file_forward (f, fl) a1"
  shows "\<exists>ns ms. src_defs (an_current a1) s = ns @ src_defs (an_current a) s \<and>
    map (\<lambda>n. cx_sym_nodes (an_current a1) ! n) ns = copies \<and>
    src_defs (an_current a2) s = ms @ ns @ src_defs (an_current a) s \<and>
    map (\<lambda>n. cx_sym_nodes (an_current a2) ! n) ms = copies"
proof -
  let ?g = "\<lambda>n. old ! n"
  let ?step = "\<lambda>n a. let sy = ?g n in if sy_byte_offset sy \<le> f_last_symbol_byte fl then a else copy_symbol s sy a"
  let ?xs = "src_defs (an_previous a) p"
  have prev_const: "an_previous (fold ?step xs b) = an_previous b \<and>
      cx_sources (an_current (fold ?step xs b)) = cx_sources (an_current b)" for xs b
    by (induction xs arbitrary: b)
      (auto simp: Let_def copy_symbol_def alloc_sym_def upd_src_def split: prod.splits)
  have fold_eq: "fold (\<lambda>n b. let sy = cx_sym_nodes (an_previous b) ! n in
        if sy_byte_offset sy \<le> f_last_symbol_byte fl then b else copy_symbol s sy b) xs b = fold ?step xs b"
    if "an_previous b = an_previous a" for xs b
    using that
  proof (induction xs arbitrary: b)
    case (Cons x xs)
    then show ?case
      using Cons.IH [of b] Cons.IH [of "copy_symbol s (old ! x) b"] assms(5) by (simp add: Let_def)
  qed simp
  have bring: "bring_file_forward (f, fl) b = fold ?step ?xs b"
    if "an_previous b = an_previous a" "cx_sources (an_current b) = cx_sources (an_current a)" for b
    using that assms(2-4) fold_eq [of b] by (simp add: bring_file_forward_def src_defs_def)
  have a1: "a1 = fold ?step ?xs a" using bring [of a] assms(7) by simp
  have "an_previous a1 = an_previous a" "cx_sources (an_current a1) = cx_sources (an_current a)"
    using prev_const by (simp_all add: a1)
  then have a2: "a2 = fold ?step ?xs a1" using bring [of a1] assms(8) by simp
  have s: "s < src_size (an_current a)" using assms(1,4) by (simp add: src_invD(4))
  then have s1: "s < src_size (an_current a1)"
    using bring_file_forward_frame [of a a "(f, fl)"] same_sources_simps(1) by (auto simp: assms(7) frame_def)
  show ?thesis
    using copy_symbols_spec [OF s, of ?g "f_last_symbol_byte fl" ?xs]
      copy_symbols_spec [OF s1, of ?g "f_last_symbol_byte fl" ?xs]
    unfolding a1 [symmetric] a2 [symmetric] assms(6) by metis
qed

definition demo_old_symbol :: sym_node where
  "demo_old_symbol = \<lparr>sy_name = ''b'', sy_documentation = [], sy_signature = [], sy_source = 0,
     sy_type = BUXN_ASM_SYM_LABEL, sy_semantics = BUXN_LS_SYMBOL_AS_VARIABLE, sy_byte_offset = 5,
     sy_range = \<lparr>r_start = \<lparr>p_line = 0, p_character = 5\<rparr>, r_end = \<lparr>p_line = 0, p_character = 7\<rparr>\<rparr>,
     sy_address = 0x110\<rparr>"

definition demo_carry :: analyzer where
  "demo_carry = demo_open\<lparr>an_previous :=
     \<lparr>cx_sources = [(''a.tal'', 0)],
      cx_src_nodes = [\<lparr>sn_filename = ''a.tal'', sn_uri = ''file:///r/a.tal'', sn_references = [],
        sn_definitions = [0], sn_analyzed = True\<rparr>],
      cx_src_graph = new_node empty_graph, cx_sym_nodes = [demo_old_symbol],
      cx_sym_graph = new_node empty_graph\<rparr>\<rparr>"

theorem carried_forward_witness:
  "\<exists>ns. src_defs (an_current (bring_file_forward
        (''a.tal'', (new_file ''@a ;a'')\<lparr>f_has_error := True\<rparr>) demo_carry)) 0 = ns \<and>
     map (\<lambda>n. cx_sym_nodes (an_current (bring_file_forward
        (''a.tal'', (new_file ''@a ;a'')\<lparr>f_has_error := True\<rparr>) demo_carry)) ! n) ns = [demo_old_symbol]"
proof -
  let ?fl = "(new_file ''@a ;a'')\<lparr>f_has_error := True\<rparr>"
  have inv: "src_inv (an_current demo_carry)" using demo_open_inv(1) by (simp add: demo_carry_def)
  have "bhash_get (cx_sources (an_previous demo_carry)) ''a.tal'' = Some 0"
    "bhash_get (cx_sources (an_current demo_carry)) ''a.tal'' = Some 0"
    "src_defs (an_current demo_carry) 0 = []"
    by (simp_all add: demo_carry_def demo_open_def demo_ws_def source_defs table_defs src_defs_def)
  moreover have "demo_old_symbol\<lparr>sy_source := 0\<rparr> = demo_old_symbol"
    "sy_byte_offset demo_old_symbol > f_last_symbol_byte ?fl"
    "src_defs (an_previous demo_carry) 0 = [0]"
    "cx_sym_nodes (an_previous demo_carry) ! 0 = demo_old_symbol"
    by (simp_all add: demo_old_symbol_def new_file_def src_defs_def demo_carry_def)
  ultimately show ?thesis
    using carried_forward [OF inv _ _ _ refl refl refl refl, of ?fl "''a.tal''" 0 0] by auto
qed

end
