(* ===== verification/Analyze_Steps.thy ===== *)
theory Analyze_Steps
  imports Analyze_Props
begin

text \<open>
  The analysis as a coroutine. While the assembler waits for a file, other coroutines of the session run,
  and they read the analyzer and change the workspace. So the analysis is modelled a second time, one
  callback at a time, each with the workspace as it is then: its turns add up to \<open>buxn_ls_analyze\<close> where
  the workspace does not change, and between any two of them, whatever happens to the workspace, the
  analyzer is well-formed.

  The program is suspended inside \<open>buxn_asm_fopen\<close> only. A callback is one turn here: what it reads of the
  workspace it reads before it is suspended, and the rest of it touches what nobody else writes.
\<close>

section \<open>Turns\<close>

datatype stage = Assembling | Verifying

text \<open>Where a suspended analysis is: the index \<open>i\<close> of the loop over the queue, and the run of the assembler
  or of the verifier that is under way, with its context. The queue is a field of the analyzer, and the
  loop reads its length and its entries anew every time.\<close>

record analysis =
  co_index :: nat
  co_call :: "(stage \<times> asm_run \<times> asm_ctx) option"

definition begin_analysis :: "asm_api \<Rightarrow> buxn_ls_workspace \<Rightarrow> analyzer \<Rightarrow> (analysis \<times> analyzer) outcome" where
  "begin_analysis api workspace a =
     obind (queue_docs (aa_layout api) workspace (swap_contexts a)) (\<lambda>a1.
     Inr (\<lparr>co_index = 0, co_call = None\<rparr>, a1\<lparr>an_lines := [], an_files := [], an_diagnostics := []\<rparr>))"

text \<open>One turn; \<open>None\<close> when the analysis is over.\<close>

definition analysis_turn ::
    "asm_api \<Rightarrow> buxn_ls_workspace \<Rightarrow> analysis \<Rightarrow> analyzer \<Rightarrow> (analysis option \<times> analyzer) outcome" where
  "analysis_turn api workspace co a =
     (case co_call co of
        None \<Rightarrow>
          if co_index co < length (an_queue a)
          then (let node = an_queue a ! co_index co
                in if sn_analyzed (cx_src_nodes (an_current a) ! node)
                   then Inr (Some (co\<lparr>co_index := co_index co + 1\<rparr>), a)
                   else Inr (Some (co\<lparr>co_call := Some (Assembling,
                       aa_asm api (sn_filename (cx_src_nodes (an_current a) ! node)), init_asm_ctx node)\<rparr>),
                     clear_run a))
          else obind (sort_diagnostics api a) (\<lambda>a'. Inr (None, a'))
      | Some (stage, run, ctx) \<Rightarrow>
          (case run of
             Call call k \<Rightarrow>
               obind (handle_call api workspace call (a, ctx)) (\<lambda>(resp, a', ctx').
               Inr (Some (co\<lparr>co_call := Some (stage, k resp, ctx')\<rparr>), a'))
           | Done success \<Rightarrow>
               if stage = Assembling \<and> success \<and> \<not> ac_rom_is_empty ctx
               then Inr (Some (co\<lparr>co_call := Some (Verifying, aa_chess_end api (ac_chess_syms ctx), ctx)\<rparr>), a)
               else obind (connect_references (aa_utf8 api) (bring_forward a)) (\<lambda>a'.
                 Inr (Some \<lparr>co_index = co_index co + 1, co_call = None\<rparr>, a'))))"

inductive analysis_step ::
    "asm_api \<Rightarrow> buxn_ls_workspace \<Rightarrow> analysis option \<times> analyzer \<Rightarrow> analysis option \<times> analyzer \<Rightarrow> bool"
    for api workspace where
  turn: "analysis_turn api workspace co a = Inr r \<Longrightarrow> analysis_step api workspace (Some co, a) r"

inductive_cases analysis_stepE: "analysis_step api ws (Some co, a) r"
inductive_simps analysis_step_done [simp]: "analysis_step api ws (None, a) r"

section \<open>The turns add up to the analysis\<close>

text \<open>What is left of \<open>buxn_ls_analyze\<close> at a suspended analysis.\<close>

definition finish_call ::
    "asm_api \<Rightarrow> buxn_ls_workspace \<Rightarrow> stage \<times> asm_run \<times> asm_ctx \<Rightarrow> analyzer \<Rightarrow> analyzer outcome" where
  "finish_call api ws call a =
     (case call of (stage, run, ctx) \<Rightarrow>
        obind (run_calls api ws run (a, ctx)) (\<lambda>(success, a1, ctx1).
        obind (if stage = Assembling \<and> success \<and> \<not> ac_rom_is_empty ctx1
               then obind (run_calls api ws (aa_chess_end api (ac_chess_syms ctx1)) (a1, ctx1)) (\<lambda>(r, s). Inr s)
               else Inr (a1, ctx1)) (\<lambda>(a2, ctx2).
        connect_references (aa_utf8 api) (bring_forward a2))))"

definition next_index :: "analysis \<Rightarrow> nat" where
  "next_index co = (case co_call co of None \<Rightarrow> co_index co | Some call \<Rightarrow> co_index co + 1)"

definition finish_analysis :: "asm_api \<Rightarrow> buxn_ls_workspace \<Rightarrow> analysis option \<times> analyzer \<Rightarrow> analyzer outcome" where
  "finish_analysis api ws s =
     (case s of
        (None, a) \<Rightarrow> Inr a
      | (Some co, a) \<Rightarrow>
          obind (case co_call co of None \<Rightarrow> Inr a | Some call \<Rightarrow> finish_call api ws call a) (\<lambda>a1.
          obind (ofold (analyze_node api ws) (drop (next_index co) (an_queue a)) a1) (sort_diagnostics api)))"

lemma begin_finish:
  "buxn_ls_analyze api ws a =
     obind (begin_analysis api ws a) (\<lambda>(co, a1). finish_analysis api ws (Some co, a1))"
  by (simp add: buxn_ls_analyze_def begin_analysis_def finish_analysis_def next_index_def Let_def obind_def split: sum.split)

text \<open>No turn changes the queue.\<close>

lemma fopen_queue: "buxn_asm_fopen api ws f (a, ctx) = (h, a', ctx') \<Longrightarrow> an_queue a' = an_queue a"
  by (auto simp: buxn_asm_fopen_def upd_current_def Let_def split: option.splits prod.splits if_splits)

lemma frame_queue: "frame a a' \<Longrightarrow> an_queue a' = an_queue a"
  by (simp add: frame_def)

lemma handle_call_queue:
  "handle_call api ws c (a, ctx) = Inr (resp, a', ctx') \<Longrightarrow> an_queue a' = an_queue a"
  by (cases c) (auto simp: handle_call_def ok_simps split: prod.splits
      dest!: fopen_queue put_symbol_frame [THEN conjunct1, THEN frame_queue] asm_report_frame [THEN frame_queue]
        chess_report_frame [THEN frame_queue] chess_deo_frame [THEN frame_queue])

lemma connect_queue:
  "connect_references utf8 (bring_forward a) = Inr a' \<Longrightarrow> an_queue a' = an_queue a"
  using connect_references_frame bring_forward_frame frame_queue by metis

lemma analyze_node_finish:
  "\<not> sn_analyzed (cx_src_nodes (an_current a) ! node) \<Longrightarrow>
     analyze_node api ws node a = finish_call api ws (Assembling,
       aa_asm api (sn_filename (cx_src_nodes (an_current a) ! node)), init_asm_ctx node) (clear_run a)"
  by (auto simp: analyze_node_def run_assembler_def finish_call_def clear_run_def obind_def split: sum.split)

text \<open>A turn does not change what the analysis comes to, and faults only where the analysis does.\<close>

lemma turn_finish:
  "finish_analysis api ws (Some co, a) = obind (analysis_turn api ws co a) (finish_analysis api ws)"
proof (cases "co_call co")
  case None
  show ?thesis
  proof (cases "co_index co < length (an_queue a)")
    case False
    with None show ?thesis by (simp add: finish_analysis_def analysis_turn_def next_index_def obind_def split: sum.split)
  next
    case True
    note rest = Cons_nth_drop_Suc [OF True, symmetric]
    show ?thesis
    proof (cases "sn_analyzed (cx_src_nodes (an_current a) ! (an_queue a ! co_index co))")
      case True
      with None rest \<open>co_index co < _\<close> show ?thesis
        by (simp add: finish_analysis_def analysis_turn_def next_index_def analyze_node_def Let_def)
    next
      case False
      with None rest True analyze_node_finish [OF False, of api ws] show ?thesis
        by (auto simp: finish_analysis_def analysis_turn_def next_index_def clear_run_def Let_def obind_def split: sum.split)
    qed
  qed
next
  case (Some call)
  obtain stage run ctx where call: "call = (stage, run, ctx)" by (cases call)
  show ?thesis
  proof (cases run)
    case (Call c k)
    with Some call show ?thesis
      by (auto simp: finish_analysis_def analysis_turn_def finish_call_def next_index_def obind_def
          dest: handle_call_queue split: sum.split)
  next
    case (Done r)
    with Some call show ?thesis
      by (auto simp: finish_analysis_def analysis_turn_def finish_call_def next_index_def obind_def
          dest: connect_queue split: sum.split)
  qed
qed

lemma steps_finish:
  "(analysis_step api ws)\<^sup>*\<^sup>* s t \<Longrightarrow> finish_analysis api ws s = finish_analysis api ws t"
  by (induction rule: reach_induct) (auto elim!: analysis_step.cases simp: turn_finish)


text \<open>And all of them can be made: the run of the assembler is a well-founded tree.\<close>

lemmas analysis_more = converse_rtranclp_into_rtranclp [of "analysis_step api ws" for api ws, OF turn]

lemma call_steps:
  "run_calls api ws run (a, ctx) = Inr (r, a1, ctx1) \<Longrightarrow>
     (analysis_step api ws)\<^sup>*\<^sup>* (Some \<lparr>co_index = i, co_call = Some (stage, run, ctx)\<rparr>, a)
       (Some \<lparr>co_index = i, co_call = Some (stage, Done r, ctx1)\<rparr>, a1) \<and> an_queue a1 = an_queue a"
proof (induction run arbitrary: a ctx)
  case (Call c k)
  then obtain resp b ctx2 where c: "handle_call api ws c (a, ctx) = Inr (resp, b, ctx2)"
    "run_calls api ws (k resp) (b, ctx2) = Inr (r, a1, ctx1)" by (auto simp: ok_simps)
  note ih = Call.IH [OF rangeI c(2)]
  have "(analysis_step api ws)\<^sup>*\<^sup>* (Some \<lparr>co_index = i, co_call = Some (stage, Call c k, ctx)\<rparr>, a)
       (Some \<lparr>co_index = i, co_call = Some (stage, Done r, ctx1)\<rparr>, a1)"
    by (rule analysis_more [OF _ conjunct1 [OF ih]]) (simp add: analysis_turn_def c(1))
  with ih handle_call_queue [OF c(1)] show ?case by simp
qed simp

lemma node_steps:
  assumes "analyze_node api ws (an_queue a ! i) a = Inr a'" and i: "i < length (an_queue a)"
  shows "(analysis_step api ws)\<^sup>*\<^sup>* (Some \<lparr>co_index = i, co_call = None\<rparr>, a)
    (Some \<lparr>co_index = Suc i, co_call = None\<rparr>, a') \<and> an_queue a' = an_queue a"
proof (cases "sn_analyzed (cx_src_nodes (an_current a) ! (an_queue a ! i))")
  case True
  with assms show ?thesis
    by (intro conjI reach_one turn) (simp_all add: analyze_node_def analysis_turn_def Let_def)
next
  case False
  let ?node = "an_queue a ! i"
  let ?run = "aa_asm api (sn_filename (cx_src_nodes (an_current a) ! ?node))"
  let ?at = "\<lambda>call. Some \<lparr>co_index = i, co_call = call\<rparr>"
  from assms False obtain r a1 ctx1 a2 ctx2 where
    run: "run_calls api ws ?run (clear_run a, init_asm_ctx ?node) = Inr (r, a1, ctx1)"
    and chess: "(if r \<and> \<not> ac_rom_is_empty ctx1
      then obind (run_calls api ws (aa_chess_end api (ac_chess_syms ctx1)) (a1, ctx1)) (\<lambda>(r, s). Inr s)
      else Inr (a1, ctx1)) = Inr (a2, ctx2)"
    and con: "connect_references (aa_utf8 api) (bring_forward a2) = Inr a'"
    by (auto simp: analyze_node_finish finish_call_def ok_simps)
  note start = call_steps [OF run, of i Assembling]
  have "(analysis_step api ws)\<^sup>*\<^sup>* (?at None, a) (?at (Some (Assembling, Done r, ctx1)), a1)"
    by (rule analysis_more [OF _ conjunct1 [OF start]]) (simp add: analysis_turn_def False i Let_def)
  moreover have "(analysis_step api ws)\<^sup>*\<^sup>* (?at (Some (Assembling, Done r, ctx1)), a1)
      (Some \<lparr>co_index = Suc i, co_call = None\<rparr>, a') \<and> an_queue a2 = an_queue a1"
  proof (cases "r \<and> \<not> ac_rom_is_empty ctx1")
    case False
    with chess con show ?thesis by (intro conjI reach_one turn) (auto simp: analysis_turn_def)
  next
    case True
    with chess obtain r2 where c: "run_calls api ws (aa_chess_end api (ac_chess_syms ctx1)) (a1, ctx1) = Inr (r2, a2, ctx2)"
      by (auto simp: ok_simps)
    note verify = call_steps [OF c, of i Verifying]
    have "(analysis_step api ws)\<^sup>*\<^sup>* (?at (Some (Assembling, Done r, ctx1)), a1) (?at (Some (Verifying, Done r2, ctx2)), a2)"
      by (rule analysis_more [OF _ conjunct1 [OF verify]]) (simp add: analysis_turn_def True)
    also have "(analysis_step api ws)\<^sup>*\<^sup>* (?at (Some (Verifying, Done r2, ctx2)), a2) (Some \<lparr>co_index = Suc i, co_call = None\<rparr>, a')"
      using con by (intro reach_one turn) (simp add: analysis_turn_def)
    finally show ?thesis using verify by simp
  qed
  ultimately show ?thesis using start connect_queue [OF con] by (auto simp: clear_run_def)
qed

lemma nodes_steps:
  "ofold (analyze_node api ws) (drop i (an_queue a)) a = Inr a' \<Longrightarrow> i \<le> length (an_queue a) \<Longrightarrow>
     (analysis_step api ws)\<^sup>*\<^sup>* (Some \<lparr>co_index = i, co_call = None\<rparr>, a)
       (Some \<lparr>co_index = length (an_queue a), co_call = None\<rparr>, a') \<and> an_queue a' = an_queue a"
proof (induction "length (an_queue a) - i" arbitrary: i a)
  case (Suc n)
  then have i: "i < length (an_queue a)" by simp
  with Suc.prems(1) obtain b where b: "analyze_node api ws (an_queue a ! i) a = Inr b"
    "ofold (analyze_node api ws) (drop (Suc i) (an_queue a)) b = Inr a'"
    by (auto simp: Cons_nth_drop_Suc [OF i, symmetric] ok_simps)
  note first = node_steps [OF b(1) i]
  have "(analysis_step api ws)\<^sup>*\<^sup>* (Some \<lparr>co_index = Suc i, co_call = None\<rparr>, b)
      (Some \<lparr>co_index = length (an_queue b), co_call = None\<rparr>, a') \<and> an_queue a' = an_queue b"
    by (rule Suc.hyps(1)) (use first Suc.hyps(2) b(2) i in auto)
  with first show ?case by auto
qed simp

lemma finish_steps:
  assumes "finish_analysis api ws (Some \<lparr>co_index = 0, co_call = None\<rparr>, a) = Inr a'"
  shows "(analysis_step api ws)\<^sup>*\<^sup>* (Some \<lparr>co_index = 0, co_call = None\<rparr>, a) (None, a')"
proof -
  from assms obtain b where b: "ofold (analyze_node api ws) (drop 0 (an_queue a)) a = Inr b" "sort_diagnostics api b = Inr a'"
    by (auto simp: finish_analysis_def next_index_def ok_simps)
  note loop = nodes_steps [OF b(1)]
  have "analysis_step api ws (Some \<lparr>co_index = length (an_queue a), co_call = None\<rparr>, b) (None, a')"
    by (rule turn) (use loop in \<open>simp add: analysis_turn_def b(2)\<close>)
  with loop show ?thesis by (auto intro: rtranclp.rtrancl_into_rtrancl)
qed

section \<open>Every moment is well-formed\<close>

text \<open>The invariant between two turns: \<open>a0\<close> is the analyzer when the queue was complete (its entries are the
  nodes of the queued files, in order) and \<open>P\<close> the entry files started on, all before the next index.
  The workspace is not part of it.\<close>

definition moment :: "analysis \<Rightarrow> analyzer \<Rightarrow> bool" where
  "moment co a \<longleftrightarrow>
     (\<exists>ws a0 P. an_queue a0 = [0..<src_size (an_current a0)] \<and> set P \<subseteq> {..<next_index co} \<and>
        (case co_call co of
           None \<Rightarrow> loop_inv ws a0 P a \<and> sym_inv (an_current a)
         | Some (stage, run, ctx) \<Rightarrow> run_inv ws a0 P (a, ctx) \<and> syms_ok (a, ctx)))"

lemma moment_ok: "moment co a \<Longrightarrow> analyzer_ok a"
proof -
  assume "moment co a"
  then obtain P where "src_inv (an_current a)" "entries_inv P (an_current a)" "sym_inv (an_current a)"
    by (fastforce simp: moment_def loop_inv_def run_inv_def syms_ok_def split: option.splits prod.splits)
  then show ?thesis using entries_ranked by (auto simp: analyzer_ok_def analyzer_inv_def ranked_def)
qed

lemma begin_moment:
  assumes "workspace_inv ws" and "analyzer_inv a" and "begin_analysis api ws a = Inr (co, a')"
  shows "moment co a'"
proof -
  from assms(2) obtain a1 where a1: "queue_docs (aa_layout api) ws (swap_contexts a) = Inr a1"
    "queue_inv ws (an_current a) a1"
    using queue_docs_result [OF assms(1)] unfolding analyzer_inv_def by blast
  with assms(3) have co: "co = \<lparr>co_index = 0, co_call = None\<rparr>"
    "a' = a1\<lparr>an_lines := [], an_files := [], an_diagnostics := []\<rparr>" by (simp_all add: begin_analysis_def)
  have "an_queue a1 = [0..<src_size (an_current a1)]" using a1(2) by (simp add: queue_inv_def)
  moreover have "loop_inv ws a1 [] a'" unfolding co by (rule loop_start [OF a1(2)])
  moreover have "sym_inv (an_current a')" using queue_docs_sym_inv [OF a1(1)] by (simp add: co)
  ultimately show ?thesis unfolding moment_def co
    by (intro exI [of _ ws] exI [of _ a1] exI [of _ "[]"]) auto
qed

lemma turn_moment:
  assumes ws: "workspace_inv ws" and "moment co a" and turn: "analysis_turn api ws co a = Inr (r, a')"
  shows "case r of None \<Rightarrow> analyzer_ok a' | Some co' \<Rightarrow> moment co' a'"
proof -
  from assms(2) obtain ws0 a0 P where queue: "an_queue a0 = [0..<src_size (an_current a0)]" "set P \<subseteq> {..<next_index co}"
    and inv: "case co_call co of None \<Rightarrow> loop_inv ws0 a0 P a \<and> sym_inv (an_current a)
       | Some (stage, run, ctx) \<Rightarrow> run_inv ws0 a0 P (a, ctx) \<and> syms_ok (a, ctx)"
    unfolding moment_def by blast
  show ?thesis
  proof (cases "co_call co")
    case None
    with inv have loop: "loop_inv ws0 a0 P a" "sym_inv (an_current a)" by simp_all
    from None queue(2) have P: "set P \<subseteq> {..<co_index co}" by (simp add: next_index_def)
    show ?thesis
    proof (cases "co_index co < length (an_queue a)")
      case False
      with None turn have s: "sort_diagnostics api a = Inr a'" "r = None"
        by (auto simp: analysis_turn_def ok_simps)
      from s(1) have "an_current a' = an_current a" by (auto simp: sort_diagnostics_def split: if_splits)
      with moment_ok [OF assms(2)] s(2) show ?thesis by (simp add: analyzer_ok_def analyzer_inv_def)
    next
      case next_node: True
      have "an_queue a = an_queue a0" using loop(1) by (simp add: loop_inv_def)
      with next_node queue(1) have node: "an_queue a ! co_index co = co_index co" "co_index co < src_size (an_current a0)"
        by simp_all
      show ?thesis
      proof (cases "sn_analyzed (cx_src_nodes (an_current a) ! co_index co)")
        case True
        with None next_node node turn have r: "r = Some (co\<lparr>co_index := co_index co + 1\<rparr>)" "a' = a"
          by (auto simp: analysis_turn_def Let_def)
        have "set P \<subseteq> {..<Suc (co_index co)}" using P by auto
        with None loop queue(1) have "moment (co\<lparr>co_index := co_index co + 1\<rparr>) a"
          unfolding moment_def by (intro exI [of _ ws0] exI [of _ a0] exI [of _ P]) (simp add: next_index_def)
        with r show ?thesis by simp
      next
        case False
        with None next_node node turn obtain run where
          r: "r = Some (co\<lparr>co_call := Some (Assembling, run, init_asm_ctx (co_index co))\<rparr>)" "a' = clear_run a"
          by (auto simp: analysis_turn_def Let_def)
        have "co_index co \<notin> set P" using P by auto
        note analyze_node_start [OF loop(1) node(2) this False]
        moreover have "syms_ok (clear_run a, init_asm_ctx (co_index co))"
          using loop(2) by (simp add: syms_ok_def known_defs_def clear_run_def init_asm_ctx_def bhash_values_def)
        moreover have "set (P @ [co_index co]) \<subseteq> {..<Suc (co_index co)}" using P by auto
        ultimately have "moment (co\<lparr>co_call := Some (Assembling, run, init_asm_ctx (co_index co))\<rparr>) a'"
          using r queue(1) unfolding moment_def
          by (intro exI [of _ ws0] exI [of _ a0] exI [of _ "P @ [co_index co]"]) (simp add: next_index_def)
        with r show ?thesis by simp
      qed
    qed
  next
    case (Some call)
    obtain stage run ctx where call: "call = (stage, run, ctx)" by (cases call)
    with Some inv have i: "run_inv ws0 a0 P (a, ctx)" "syms_ok (a, ctx)" by simp_all
    then have si: "src_inv (an_current a)" by (simp add: run_inv_def)
    from Some queue(2) have P: "set P \<subseteq> {..<Suc (co_index co)}" by (simp add: next_index_def)
    show ?thesis
    proof (cases run)
      case (Call c k)
      with Some call turn obtain resp ctx' where h: "handle_call api ws c (a, ctx) = Inr (resp, a', ctx')"
        and r: "r = Some (co\<lparr>co_call := Some (stage, k resp, ctx')\<rparr>)" by (auto simp: analysis_turn_def ok_simps)
      have "run_inv ws0 a0 P (a', ctx')"
        using handle_call_run_inv [OF ws _ h, of a0 P] i(1) by (simp add: run_inv_def)
      with handle_call_ok [OF si i(2) h] queue(1) P show ?thesis unfolding moment_def r by (auto simp: next_index_def)
    next
      case (Done success)
      show ?thesis
      proof (cases "stage = Assembling \<and> success \<and> \<not> ac_rom_is_empty ctx")
        case True
        with Some call Done turn obtain run' where "r = Some (co\<lparr>co_call := Some (Verifying, run', ctx)\<rparr>)" "a' = a"
          by (auto simp: analysis_turn_def)
        with i queue(1) P show ?thesis unfolding moment_def by (auto simp: next_index_def)
      next
        case False
        with Some call Done turn have c: "connect_references (aa_utf8 api) (bring_forward a) = Inr a'"
          and r: "r = Some \<lparr>co_index = co_index co + 1, co_call = None\<rparr>" by (auto simp: analysis_turn_def ok_simps)
        have "loop_inv ws0 a0 P a'"
          by (rule loop_inv_frame [OF run_inv_loop [OF i(1)]])
            (rule frame_trans [OF bring_forward_frame connect_references_frame [OF c]])
        moreover have "src_inv (an_current (bring_forward a))"
          using si bring_forward_frame same_sources_src_inv by (auto simp: frame_def)
        with connect_references_ok [OF this bring_forward_ok [OF i(2)] c] have "sym_inv (an_current a')"
          by (simp add: syms_ok_def)
        ultimately show ?thesis using queue(1) P unfolding moment_def r by (auto simp: next_index_def)
      qed
    qed
  qed
qed

section \<open>The turns come to an end\<close>

definition sub_run :: "(asm_run \<times> asm_run) set" where
  "sub_run = {(k resp, Call c k) | k resp c. True}"

lemma sub_run_simps [simp]: "(k resp, Call c k) \<in> sub_run"
  by (auto simp: sub_run_def)

lemma wf_sub_run: "wf sub_run"
proof (rule wfUNIVI)
  fix P :: "asm_run \<Rightarrow> bool" and run
  assume step: "\<forall>x. (\<forall>y. (y, x) \<in> sub_run \<longrightarrow> P y) \<longrightarrow> P x"
  show "P run"
    by (induction run) (rule step [rule_format], auto simp: sub_run_def)+
qed

definition stage_rank :: "analysis \<Rightarrow> nat" where
  "stage_rank co = (case co_call co of None \<Rightarrow> 0 | Some (Verifying, c) \<Rightarrow> 1 | Some (Assembling, c) \<Rightarrow> 2)"

definition current_run :: "analysis \<Rightarrow> asm_run" where
  "current_run co = (case co_call co of None \<Rightarrow> Done False | Some (stage, run, ctx) \<Rightarrow> run)"

lemma turn_descends:
  assumes "analysis_turn api ws co a = Inr (Some co', a')" and "length (an_queue a) \<le> n"
  shows "(co', co) \<in> inv_image (less_than <*lex*> less_than <*lex*> sub_run)
    (\<lambda>co. (n - next_index co, stage_rank co, current_run co))"
  using assms
  by (auto simp: analysis_turn_def next_index_def stage_rank_def current_run_def ok_simps Let_def
      split: option.splits asm_run.splits if_splits stage.splits)

text \<open>While the queue does not grow, which no turn makes it do, no sequence of turns is infinite, even if
  the documents and the rest of the analyzer change between them: each makes the run of the assembler or
  of the verifier shorter, goes on to the verifier, or goes on to the next file. (That each run of the
  assembler ends is part of the type \<open>asm_run\<close>.)\<close>

lemma turns_end:
  "wf {(co', co). \<exists>ws a a'. length (an_queue a) \<le> n \<and> analysis_turn api ws co a = Inr (Some co', a')}"
proof (rule wf_subset)
  show "wf (inv_image (less_than <*lex*> less_than <*lex*> sub_run)
      (\<lambda>co. (n - next_index co, stage_rank co, current_run co)))"
    by (intro wf_inv_image wf_lex_prod wf_less_than wf_sub_run)
qed (use turn_descends in auto)

section \<open>Two analyses at once\<close>

text \<open>
  Nothing keeps the timer from firing while an analysis is suspended. The second one empties the tables
  that the first goes on to use: here the assembler has opened the only document, which is closed
  while the first analysis is suspended; the second finds nothing to analyse, and at the next symbol
  that the assembler reports an assertion of the first fails.
\<close>

lemma overlapping_analyses_fault:
  "obind (begin_analysis demo_asm demo_ws buxn_ls_analyzer_init) (\<lambda>(co, a).
   obind (analysis_turn demo_asm demo_ws co a) (\<lambda>(r1, a1).
   obind (analysis_turn demo_asm demo_ws (the r1) a1) (\<lambda>(r2, a2).
   obind (begin_analysis demo_asm (demo_ws\<lparr>docs := []\<rparr>) a2) (\<lambda>(co', a3).
   analysis_turn demo_asm (demo_ws\<lparr>docs := []\<rparr>) (the r2) a3)))) = Inl Assertion_failed"
  by (simp add: begin_analysis_def analysis_turn_def demo_defs table_defs source_defs position_defs analysis_defs
      buxn_asm_put_symbol_def put_definition_def same_symbol_def Let_def)

section \<open>The whole analysis\<close>

text \<open>Run on its own, turn by turn, the analysis is \<open>buxn_ls_analyze\<close>: it can reach its end exactly with
  the analyzer that \<open>buxn_ls_analyze\<close> returns, whatever the assembler and the verifier do; and every
  state on the way comes to the same outcome, faults included, so no turn faults otherwise.\<close>

lemma turns_are_the_analysis:
  assumes "begin_analysis api ws a = Inr (co, a1)"
  shows "(analysis_step api ws)\<^sup>*\<^sup>* (Some co, a1) (None, a') \<longleftrightarrow> buxn_ls_analyze api ws a = Inr a'"
    and "(analysis_step api ws)\<^sup>*\<^sup>* (Some co, a1) (Some co2, a2) \<Longrightarrow> analysis_turn api ws co2 a2 = Inl e \<Longrightarrow>
       buxn_ls_analyze api ws a = Inl e"
proof -
  have f: "buxn_ls_analyze api ws a = finish_analysis api ws (Some co, a1)"
    using assms by (simp add: begin_finish)
  have "co = \<lparr>co_index = 0, co_call = None\<rparr>" using assms by (auto simp: begin_analysis_def ok_simps)
  then have "(analysis_step api ws)\<^sup>*\<^sup>* (Some co, a1) (None, a')" if "finish_analysis api ws (Some co, a1) = Inr a'"
    using finish_steps [of api ws a1 a'] that by simp
  moreover have "finish_analysis api ws (Some co, a1) = Inr a'" if "(analysis_step api ws)\<^sup>*\<^sup>* (Some co, a1) (None, a')"
    using steps_finish [OF that] by (simp add: finish_analysis_def)
  ultimately show "(analysis_step api ws)\<^sup>*\<^sup>* (Some co, a1) (None, a') \<longleftrightarrow> buxn_ls_analyze api ws a = Inr a'"
    using f by auto
  show "buxn_ls_analyze api ws a = Inl e"
    if "(analysis_step api ws)\<^sup>*\<^sup>* (Some co, a1) (Some co2, a2)" "analysis_turn api ws co2 a2 = Inl e"
    using steps_finish [OF that(1)] that(2) f by (simp add: turn_finish)
qed

end
