(* ===== verification/Analyze_Lines.thy ===== *)
theory Analyze_Lines
  imports Analyze_Steps
begin

text \<open>
  The files that an analysis has opened. Whatever the assembler calls in whatever order, and whatever
  becomes of the documents and of the disk meanwhile, their contents stay those of the first opening.
  Their lines are split once and kept in one array that all files share: the entries of a file stay where
  they are, and a conversion of a position gives what splitting the contents again would give.
\<close>

section \<open>The cache of lines\<close>

definition contents :: "analyzer \<Rightarrow> string \<rightharpoonup> string" where
  "contents a f = map_option f_content (bhash_get (an_files a) f)"

definition file_lines :: "string \<Rightarrow> (string \<times> line_ref) list" where
  "file_lines content = map (\<lambda>l. (content, l)) (buxn_ls_split_file content)"

definition cache_ok :: "analyzer \<Rightarrow> bool" where
  "cache_ok a \<longleftrightarrow>
     bhash_inv (an_files a) \<and>
     (\<forall>f fl. bhash_get (an_files a) f = Some fl \<longrightarrow> 0 \<le> f_first_line_index fl \<longrightarrow>
        f_num_lines fl = int (length (buxn_ls_split_file (f_content fl))) \<and>
        (\<exists>before after. an_lines a = before @ file_lines (f_content fl) @ after \<and>
           f_first_line_index fl = int (length before)))"

definition cache_step :: "analyzer \<Rightarrow> analyzer \<Rightarrow> bool" where
  "cache_step a a' \<longleftrightarrow> (cache_ok a \<longrightarrow> cache_ok a' \<and> contents a \<subseteq>\<^sub>m contents a')"

lemma cache_step_same:
  "an_files a' = an_files a \<Longrightarrow> an_lines a' = an_lines a \<Longrightarrow> cache_step a a'"
  by (simp add: cache_step_def cache_ok_def contents_def map_le_def)

lemma cache_step_refl [simp]: "cache_step a a"
  by (simp add: cache_step_same)

lemma cache_step_trans [trans]: "cache_step a b \<Longrightarrow> cache_step b c \<Longrightarrow> cache_step a c"
  unfolding cache_step_def using map_le_trans by blast

lemma cache_step_fields [simp]:
  "cache_step a (upd_current g b) = cache_step a b"
  "cache_step a (b\<lparr>an_current := x\<rparr>) = cache_step a b"
  "cache_step a (b\<lparr>an_macro_defs := m\<rparr>) = cache_step a b"
  "cache_step a (b\<lparr>an_label_defs := l\<rparr>) = cache_step a b"
  "cache_step a (b\<lparr>an_references := r\<rparr>) = cache_step a b"
  "cache_step a (b\<lparr>an_diagnostics := d\<rparr>) = cache_step a b"
  "cache_step (b\<lparr>an_references := r\<rparr>) a = cache_step b a"
  by (simp_all add: cache_step_def cache_ok_def contents_def upd_current_def map_le_def dom_def)

text \<open>Changing other fields of a known file.\<close>

definition same_lines :: "ls_file \<Rightarrow> ls_file \<Rightarrow> bool" where
  "same_lines fl fl' \<longleftrightarrow>
     f_content fl' = f_content fl \<and> f_first_line_index fl' = f_first_line_index fl \<and>
     f_num_lines fl' = f_num_lines fl"

lemma set_file_step:
  assumes "bhash_get (an_files a) f = Some fl" and "same_lines fl fl'"
  shows "cache_step a (a\<lparr>an_files := bhash_set (an_files a) f fl'\<rparr>)"
proof -
  have "bhash_has (an_files a) f" using assms(1) by (simp add: bhash_has_def)
  then have get: "bhash_get (bhash_set (an_files a) f fl') g = (if g = f then Some fl' else bhash_get (an_files a) g)" for g
    by (simp add: get_set)
  show ?thesis
    using assms by (auto simp: cache_step_def cache_ok_def contents_def get same_lines_def map_le_def)
qed

lemma new_file_lines [simp]: "f_first_line_index (new_file content) = - 1"
  by (simp add: new_file_def)

text \<open>A new file has no lines yet.\<close>

lemma put_file_step:
  assumes "\<not> bhash_has (an_files a) f" and "f_first_line_index fl < 0"
  shows "cache_step a (a\<lparr>an_files := bhash_put lay (an_files a) f fl\<rparr>)"
proof -
  have "bhash_get (an_files a) f = None" using assms(1) by (simp add: bhash_has_def)
  then show ?thesis
    using assms(2) by (auto simp: cache_step_def cache_ok_def contents_def bh.get_put bh.inv_put map_le_def)
qed

text \<open>Splitting a file for the first time appends its lines.\<close>

lemma split_file_step:
  assumes "buxn_ls_analyzer_split_file a f = (r, a')"
  shows "cache_step a a'"
proof (cases "bhash_get (an_files a) f")
  case None
  with assms show ?thesis by (simp add: buxn_ls_analyzer_split_file_def)
next
  case (Some fl)
  show ?thesis
  proof (cases "f_first_line_index fl \<ge> 0")
    case True
    with assms Some show ?thesis by (simp add: buxn_ls_analyzer_split_file_def)
  next
    case False
    define fl' where "fl' = fl\<lparr>f_first_line_index := int (length (an_lines a)),
      f_num_lines := int (length (buxn_ls_split_file (f_content fl)))\<rparr>"
    have a': "a' = a\<lparr>an_lines := an_lines a @ file_lines (f_content fl), an_files := bhash_set (an_files a) f fl'\<rparr>"
      using assms Some False by (auto simp: buxn_ls_analyzer_split_file_def Let_def file_lines_def fl'_def)
    have "bhash_has (an_files a) f" using Some by (simp add: bhash_has_def)
    then have get: "bhash_get (an_files a') g = (if g = f then Some fl' else bhash_get (an_files a) g)" for g
      by (simp add: a' get_set)
    have content: "f_content fl' = f_content fl" by (simp add: fl'_def)
    have "cache_ok a'" if ok: "cache_ok a"
      unfolding cache_ok_def
    proof (intro conjI allI impI)
      show "bhash_inv (an_files a')" using ok by (simp add: a' cache_ok_def)
      fix g gl assume g: "bhash_get (an_files a') g = Some gl" "0 \<le> f_first_line_index gl"
      show "f_num_lines gl = int (length (buxn_ls_split_file (f_content gl)))"
        using g get [of g] ok unfolding cache_ok_def by (auto simp: fl'_def split: if_splits)
      show "\<exists>before after. an_lines a' = before @ file_lines (f_content gl) @ after \<and>
          f_first_line_index gl = int (length before)"
      proof (cases "g = f")
        case True
        with g(1) get have "gl = fl'" by simp
        then show ?thesis by (intro exI [of _ "an_lines a"] exI [of _ "[]"]) (simp add: a' fl'_def)
      next
        case other: False
        with g get have "bhash_get (an_files a) g = Some gl" by simp
        with ok g(2) obtain before after where "an_lines a = before @ file_lines (f_content gl) @ after"
          "f_first_line_index gl = int (length before)" unfolding cache_ok_def by blast
        then show ?thesis
          by (intro exI [of _ before] exI [of _ "after @ file_lines (f_content fl)"]) (simp add: a')
      qed
    qed
    moreover have "contents a \<subseteq>\<^sub>m contents a'" using Some by (simp add: contents_def get content map_le_def)
    ultimately show ?thesis by (simp add: cache_step_def)
  qed
qed

section \<open>Conversions\<close>

lemma convert_position_step: "buxn_ls_convert_position utf8 f p a = Inr (q, a') \<Longrightarrow> cache_step a a'"
  by (auto simp: buxn_ls_convert_position_def Let_def ok_simps
      dest!: split_file_step split: prod.splits option.splits if_splits)

lemma convert_range_step: "buxn_ls_convert_range utf8 f r a = Inr (q, a') \<Longrightarrow> cache_step a a'"
  by (auto simp: buxn_ls_convert_range_def ok_simps dest!: convert_position_step intro: cache_step_trans)

lemma convert_region_step: "buxn_ls_convert_region utf8 r a = Inr (q, a') \<Longrightarrow> cache_step a a'"
  by (auto simp: buxn_ls_convert_region_def Let_def ok_simps dest!: convert_range_step)

text \<open>The reference: split the contents and take the line. A line below 1 is outside the array.\<close>

definition file_position :: "utf8_iterate \<Rightarrow> string \<Rightarrow> asm_pos \<Rightarrow> lsp_position outcome" where
  "file_position utf8 content pos =
     (let ls = buxn_ls_split_file content; i = ap_line pos - 1
      in if i < 0 then Inl Out_of_bounds
         else if i \<ge> int (length ls) then Inr \<lparr>p_line = 0, p_character = 0\<rparr>
         else (case ls ! nat i of (off, len) \<Rightarrow>
           obind (or_diverge (bio_lsp_utf16_offset_from_byte_offset utf8 (drop off content) len (ap_col pos - 1)))
             (\<lambda>ch. Inr \<lparr>p_line = i, p_character = ch\<rparr>)))"

lemma split_file_result:
  assumes "cache_ok a" and "bhash_get (an_files a) f = Some fl"
  obtains before after a' where
    "buxn_ls_analyzer_split_file a f =
       ((Some (int (length before)), int (length (buxn_ls_split_file (f_content fl)))), a')"
    "an_lines a' = before @ file_lines (f_content fl) @ after"
proof (cases "0 \<le> f_first_line_index fl")
  case True
  with assms obtain before after where "f_num_lines fl = int (length (buxn_ls_split_file (f_content fl)))"
    "an_lines a = before @ file_lines (f_content fl) @ after" "f_first_line_index fl = int (length before)"
    unfolding cache_ok_def by blast
  with assms(2) True show thesis by (intro that [of before a after]) (simp_all add: buxn_ls_analyzer_split_file_def)
next
  case False
  with assms(2) show thesis
    by (intro that [of "an_lines a" "snd (buxn_ls_analyzer_split_file a f)" "[]"])
      (simp_all add: buxn_ls_analyzer_split_file_def file_lines_def Let_def)
qed

lemma convert_position_reference:
  assumes "cache_ok a" and "bhash_get (an_files a) f = Some fl" and "1 \<le> ap_line pos"
  shows "buxn_ls_convert_position utf8 f pos a =
    obind (file_position utf8 (f_content fl) pos) (\<lambda>p. Inr (p, snd (buxn_ls_analyzer_split_file a f)))"
proof -
  let ?ls = "buxn_ls_split_file (f_content fl)" and ?i = "ap_line pos - 1"
  obtain before after a' where sp: "buxn_ls_analyzer_split_file a f = ((Some (int (length before)), int (length ?ls)), a')"
    and lines: "an_lines a' = before @ file_lines (f_content fl) @ after"
    by (rule split_file_result [OF assms(1,2)])
  have "read_line a' (int (length before) + ?i) = Inr (f_content fl, ?ls ! nat ?i)" if "?i < int (length ?ls)"
  proof -
    have "nat (int (length before) + ?i) = length before + nat ?i" "nat ?i < length ?ls"
      using assms(3) that by linarith+
    then show ?thesis
      using assms(3) by (simp add: read_line_def lines file_lines_def nth_append)
  qed
  then show ?thesis
    using assms(3) by (cases "?ls ! nat ?i")
      (simp add: buxn_ls_convert_position_def file_position_def sp Let_def obind_def split: sum.split)
qed

section \<open>The callbacks\<close>

lemma make_sym_node_step: "buxn_ls_make_sym_node utf8 sy a = Inr (n, a') \<Longrightarrow> cache_step a a'"
  by (elim make_sym_node_cases) (auto dest: convert_range_step)

lemma handle_annotation_step:
  "buxn_ls_handle_annotation call (a, ctx) = Inr (a', ctx') \<Longrightarrow> cache_step a a'"
  by (auto simp: buxn_ls_handle_annotation_def Let_def ok_simps same_lines_def
      intro!: set_file_step split: option.splits if_splits)

lemma handle_annotations_step:
  assumes "ofold buxn_ls_handle_annotation calls (a, ctx) = Inr (a', ctx')"
  shows "cache_step a a'"
proof -
  have "cache_step a (fst (a', ctx'))"
    by (rule ofold_inv [OF assms]) (auto dest!: handle_annotation_step intro: cache_step_trans)
  then show ?thesis by simp
qed

lemma put_label_step: "put_label lay addr sy fl n (a, ctx) = (a', ctx') \<Longrightarrow> cache_step a a'"
  by (auto simp: put_label_def Let_def split: if_splits)

lemma put_macro_step: "put_macro n (a, ctx) = (a', ctx') \<Longrightarrow> cache_step a a'"
  by (auto simp: put_macro_def Let_def)

lemma bump_step:
  "bhash_get (an_files a) (cp_text (rg_filename (as_region sy))) = Some fl \<Longrightarrow> cache_step a (bump_analyzer sy fl a)"
  unfolding bump_analyzer_def by (rule set_file_step, assumption) (simp add: bump_file_def same_lines_def)

lemma put_definition_step:
  assumes "put_definition api addr sy (a, ctx) = Inr (a', ctx')"
  shows "cache_step a a'"
  using assms
proof (cases rule: put_definition_cases)
  case (generated fl)
  then show ?thesis by (simp add: bump_step)
next
  case (named fl n b ctx4)
  have "cache_step a (bump_analyzer sy fl a)" by (rule bump_step [OF named(1)])
  also have "cache_step (bump_analyzer sy fl a) (push_definition n b)"
    using make_sym_node_step [OF named(3)] by (simp add: push_definition_def)
  also have "cache_step (push_definition n b) a'"
    using named(4) put_label_step put_macro_step by (auto split: if_splits)
  finally show ?thesis .
qed

lemma put_symbol_step:
  assumes "buxn_asm_put_symbol api addr sy (a, ctx) = Inr (a', ctx')"
  shows "cache_step a a'"
proof (cases "same_symbol sy (ac_previous_sym (ctx\<lparr>ac_chess_syms := ac_chess_syms ctx @ [(addr, sy)]\<rparr>))")
  case True
  with assms show ?thesis by (auto simp: buxn_asm_put_symbol_def Let_def)
next
  case False
  with assms show ?thesis
    by (auto simp: buxn_asm_put_symbol_def Let_def ok_simps split: asm_sym_type.splits
        dest!: handle_annotations_step put_definition_step intro: cache_step_trans)
qed

lemma mark_error_step [simp]: "cache_step a (mark_error f a)"
  by (auto simp: mark_error_def same_lines_def intro: set_file_step split: option.split)

lemma add_related_step: "add_related utf8 r (d, a) = Inr (d', a') \<Longrightarrow> cache_step a a'"
  by (auto simp: add_related_def ok_simps split: option.splits if_splits dest: convert_region_step)

lemma push_diagnostic_step [simp]: "cache_step a (push_diagnostic d b) = cache_step a b"
  by (simp add: push_diagnostic_def)

lemma asm_report_step: "buxn_asm_report utf8 t r a = Inr a' \<Longrightarrow> cache_step a a'"
  by (auto simp: buxn_asm_report_def Let_def ok_simps split: if_splits
      dest!: convert_region_step add_related_step
      intro: cache_step_trans cache_step_trans [OF cache_step_trans [OF mark_error_step]])

lemma chess_report_step: "buxn_chess_report utf8 tr t r a = Inr a' \<Longrightarrow> cache_step a a'"
  by (auto simp: buxn_chess_report_def Let_def ok_simps split: if_splits chess_report_type.splits
      dest!: convert_region_step add_related_step
      intro: cache_step_trans cache_step_trans [OF cache_step_trans [OF mark_error_step]])

lemma chess_deo_step: "buxn_chess_deo utf8 t st v p a = Inr a' \<Longrightarrow> cache_step a a'"
  by (auto simp: buxn_chess_deo_def ok_simps split: if_splits dest!: convert_region_step)

lemma fopen_step: "buxn_asm_fopen api ws f (a, ctx) = (h, a', ctx') \<Longrightarrow> cache_step a a'"
  by (auto simp: buxn_asm_fopen_def Let_def intro!: put_file_step
      split: option.splits prod.splits if_splits)

lemma handle_call_step: "handle_call api ws call (a, ctx) = Inr (resp, a', ctx') \<Longrightarrow> cache_step a a'"
  by (cases call) (auto simp: handle_call_def ok_simps split: prod.splits
      dest!: fopen_step put_symbol_step asm_report_step chess_report_step chess_deo_step)

lemma run_calls_step: "run_calls api ws run (a, ctx) = Inr (r, a', ctx') \<Longrightarrow> cache_step a a'"
proof (induction run arbitrary: a ctx)
  case (Call call k)
  then obtain resp b c where h: "handle_call api ws call (a, ctx) = Inr (resp, b, c)"
    and r: "run_calls api ws (k resp) (b, c) = Inr (r, a', ctx')"
    by (auto simp: ok_simps)
  from handle_call_step [OF h] Call.IH [OF _ r] show ?case by (auto intro: cache_step_trans)
qed simp

section \<open>The loop over the queue\<close>

lemma bring_forward_same:
  "an_files (bring_forward a) = an_files a \<and> an_lines (bring_forward a) = an_lines a"
proof -
  have copy: "an_files (copy_symbol s sy b) = an_files b \<and> an_lines (copy_symbol s sy b) = an_lines b" for s sy b
    by (simp add: copy_symbol_def alloc_sym_def)
  have syms: "an_files (fold g ns b) = an_files b \<and> an_lines (fold g ns b) = an_lines b"
    if "\<And>n c. an_files (g n c) = an_files c \<and> an_lines (g n c) = an_lines c" for g b and ns :: "'x list"
    using that by (induction ns arbitrary: b) simp_all
  have "an_files (bring_file_forward e b) = an_files b \<and> an_lines (bring_file_forward e b) = an_lines b" for e b
    by (auto simp: bring_file_forward_def copy Let_def split: prod.split option.split intro!: syms)
  then show ?thesis unfolding bring_forward_def by (rule syms)
qed

lemma connect_reference_step: "connect_reference utf8 sy a = Inr a' \<Longrightarrow> cache_step a a'"
  by (auto simp: connect_reference_def Let_def ok_simps split: option.splits dest!: make_sym_node_step)

lemma connect_references_step: "connect_references utf8 a = Inr a' \<Longrightarrow> cache_step a a'"
  unfolding connect_references_def
  by (rule ofold_inv) (auto dest: connect_reference_step intro: cache_step_trans)

lemma analyze_node_step:
  assumes "analyze_node api ws node a = Inr a'"
  shows "cache_step a a'"
proof (cases "sn_analyzed (cx_src_nodes (an_current a) ! node)")
  case False
  with assms obtain b ctx where r: "run_assembler api ws node (clear_run a) = Inr (b, ctx)"
    and c: "connect_references (aa_utf8 api) (bring_forward b) = Inr a'"
    by (auto simp: analyze_node_def ok_simps)
  have "cache_step a (clear_run a)" by (rule cache_step_same) (simp_all add: clear_run_def)
  also have "cache_step (clear_run a) b"
    using r by (auto simp: run_assembler_def ok_simps split: if_splits dest!: run_calls_step intro: cache_step_trans)
  also have "cache_step b (bring_forward b)" using bring_forward_same by (intro cache_step_same) blast+
  also have "cache_step (bring_forward b) a'" by (rule connect_references_step [OF c])
  finally show ?thesis .
qed (use assms in \<open>simp add: analyze_node_def\<close>)

section \<open>The property\<close>

text \<open>C30: At every moment of an analysis, after some entry files and in the middle of the next, a position
  is converted as if the contents of its file were split into lines again, wherever its lines lie in
  the shared array and whichever other files were split before; and files keep the contents with
  which they were first opened.\<close>

theorem positions_match_contents:
  assumes "ofold (analyze_node api ws) ns (a\<lparr>an_lines := [], an_files := [], an_diagnostics := []\<rparr>) = Inr a1"
    and "run_calls api ws run (clear_run a1, ctx) = Inr (r, a2, ctx2)"
    and "bhash_get (an_files a2) f = Some fl" and "1 \<le> ap_line pos"
  shows "buxn_ls_convert_position (aa_utf8 api) f pos a2 =
      obind (file_position (aa_utf8 api) (f_content fl) pos) (\<lambda>p. Inr (p, snd (buxn_ls_analyzer_split_file a2 f))) \<and>
    (\<forall>fl1. bhash_get (an_files a1) f = Some fl1 \<longrightarrow> f_content fl = f_content fl1)"
proof -
  let ?a0 = "a\<lparr>an_lines := [], an_files := [], an_diagnostics := []\<rparr>"
  have start: "cache_ok ?a0" by (simp add: cache_ok_def)
  have "cache_step ?a0 a1"
    by (rule ofold_inv [OF assms(1)]) (auto dest: analyze_node_step intro: cache_step_trans)
  with start have ok1: "cache_ok a1" by (simp add: cache_step_def)
  have "cache_step a1 (clear_run a1)" by (rule cache_step_same) (simp_all add: clear_run_def)
  then have "cache_step a1 a2" using run_calls_step [OF assms(2)] by (rule cache_step_trans)
  with ok1 have ok2: "cache_ok a2" and le: "contents a1 \<subseteq>\<^sub>m contents a2" by (simp_all add: cache_step_def)
  have "f_content fl = f_content fl1" if "bhash_get (an_files a1) f = Some fl1" for fl1
    using le that assms(3) unfolding map_le_def by (auto simp: contents_def dom_def)
  with convert_position_reference [OF ok2 assms(3,4)] show ?thesis by blast
qed

text \<open>In the middle of the run of the demo: after the file was opened.\<close>

theorem positions_match_contents_witness:
  "\<exists>a2 ctx2. run_calls demo_asm demo_ws (Call (Asm_fopen (demo_name ''a.tal'')) (\<lambda>_. Done True))
       (clear_run buxn_ls_analyzer_init, init_asm_ctx 0) = Inr (True, a2, ctx2) \<and>
     (\<exists>a3. buxn_ls_convert_position ref_utf8 ''a.tal'' \<lparr>ap_line = 1, ap_col = 4, ap_byte = 3\<rparr> a2 =
       Inr (\<lparr>p_line = 0, p_character = 3\<rparr>, a3))"
proof -
  have init: "buxn_ls_analyzer_init\<lparr>an_lines := [], an_files := [], an_diagnostics := []\<rparr> = buxn_ls_analyzer_init"
    by (simp add: buxn_ls_analyzer_init_def)
  have "\<exists>a2 ctx2 fl. run_calls demo_asm demo_ws (Call (Asm_fopen (demo_name ''a.tal'')) (\<lambda>_. Done True))
       (clear_run buxn_ls_analyzer_init, init_asm_ctx 0) = Inr (True, a2, ctx2) \<and>
     bhash_get (an_files a2) ''a.tal'' = Some fl \<and> f_content fl = ''@a ;a''"
    by (simp add: handle_call_def buxn_asm_fopen_def file_content_def demo_defs source_defs table_defs
        init_asm_ctx_def clear_run_def new_file_def Let_def)
  then obtain a2 ctx2 fl where run: "run_calls demo_asm demo_ws (Call (Asm_fopen (demo_name ''a.tal'')) (\<lambda>_. Done True))
       (clear_run buxn_ls_analyzer_init, init_asm_ctx 0) = Inr (True, a2, ctx2)"
    and fl: "bhash_get (an_files a2) ''a.tal'' = Some fl" "f_content fl = ''@a ;a''" by blast
  have utf8: "aa_utf8 demo_asm = ref_utf8" by (simp add: demo_asm_def)
  have "file_position ref_utf8 ''@a ;a'' \<lparr>ap_line = 1, ap_col = 4, ap_byte = 3\<rparr> = Inr \<lparr>p_line = 0, p_character = 3\<rparr>"
    by (simp add: file_position_def position_defs Let_def CR_def LF_def)
  with positions_match_contents [of demo_asm demo_ws "[]" buxn_ls_analyzer_init, unfolded init ofold.simps,
      OF refl run fl(1), of "\<lparr>ap_line = 1, ap_col = 4, ap_byte = 3\<rparr>"] run
  show ?thesis by (simp add: fl(2) utf8)
qed

section \<open>What an opened file reads as\<close>

text \<open>The turns of an analysis, with documents and files on disk that may be others in each of them.\<close>

definition changing_step :: "asm_api \<Rightarrow> analysis option \<times> analyzer \<Rightarrow> analysis option \<times> analyzer \<Rightarrow> bool" where
  "changing_step api s t \<longleftrightarrow> (\<exists>ws files. analysis_step (api\<lparr>aa_read_file := files\<rparr>) ws s t)"

lemma turn_cache_step:
  assumes "analysis_turn api ws co a = Inr (r, a')"
  shows "cache_step a a'"
proof (cases "co_call co")
  case None
  with assms show ?thesis
    by (auto simp: analysis_turn_def sort_diagnostics_def clear_run_def Let_def ok_simps
        intro: cache_step_same split: if_splits)
next
  case (Some call)
  obtain stage run ctx where call: "call = (stage, run, ctx)" by (cases call)
  show ?thesis
  proof (cases run)
    case (Call c k)
    with Some call assms show ?thesis by (auto simp: analysis_turn_def ok_simps dest: handle_call_step)
  next
    case (Done success)
    have "cache_step a a'" if c: "connect_references (aa_utf8 api) (bring_forward a) = Inr a'"
    proof -
      have "cache_step a (bring_forward a)" using bring_forward_same by (intro cache_step_same) blast+
      also have "cache_step (bring_forward a) a'" by (rule connect_references_step [OF c])
      finally show ?thesis .
    qed
    with Some call Done assms show ?thesis by (auto simp: analysis_turn_def ok_simps split: if_splits)
  qed
qed

lemma changing_cache_step: "(changing_step api)\<^sup>*\<^sup>* s t \<Longrightarrow> cache_step (snd s) (snd t)"
  by (induction rule: rtranclp_induct)
    (auto simp: changing_step_def elim!: analysis_step.cases dest!: turn_cache_step intro: cache_step_trans)

lemma fopen_reads:
  assumes "bhash_inv (an_files a)" and "file_content api ws f a = Some content"
  shows "\<exists>h a' ctx' ctx2. buxn_asm_fopen api ws f (a, ctx) = (Some h, a', ctx') \<and> contents a' f = Some content \<and>
    read_chars (Suc (length content)) h ctx' = Inr (map char_to_int content @ [EOF], ctx2)"
proof -
  have "fst (buxn_asm_fopen api ws f (a, ctx)) = Some (length (ac_handles ctx))"
    using assms(2) by (simp add: buxn_asm_fopen_def Let_def split: prod.split)
  then obtain h a' ctx' where o: "buxn_asm_fopen api ws f (a, ctx) = (Some h, a', ctx')"
    by (metis prod.collapse)
  from file_content_stored [OF assms(1) o] assms(2) have
    c: "h = length (ac_handles ctx)" "ac_handles ctx' = ac_handles ctx @ [Some (content, 0)]" "contents a' f = Some content"
    by (simp_all add: contents_def)
  have "\<exists>ctx2. read_chars (Suc (length content)) h ctx' = Inr (map char_to_int (drop 0 content) @ [EOF], ctx2)"
    by (rule read_chars_rest) (simp_all add: c)
  with o c(3) show ?thesis by auto
qed

text \<open>C29: A file that the assembler has opened is read to its end byte by byte and then gives end-of-file;
  and its contents are fixed for the rest of the analysis: after any number of further turns, in this entry
  file or in later ones, with documents and files on disk that may change before each of them, opening it
  again succeeds and reads the same bytes. An open document hides the file on disk.\<close>

theorem open_file_snapshot:
  assumes "begin_analysis api ws0 a0 = Inr (co0, a1)" and "(changing_step api)\<^sup>*\<^sup>* (Some co0, a1) (Some co, a)"
    and "buxn_asm_fopen api ws f (a, ctx) = (Some h, a', ctx')"
  shows "\<exists>content.
    (bhash_get (an_files a) f = None \<longrightarrow> bhash_has (docs ws) f \<longrightarrow> bhash_get (docs ws) f = Some content) \<and>
    (\<exists>ctx2. read_chars (Suc (length content)) h ctx' = Inr (map char_to_int content @ [EOF], ctx2)) \<and>
    (\<forall>co' later a2. (changing_step api)\<^sup>*\<^sup>* (Some co', a') (later, a2) \<longrightarrow>
       (\<forall>api2 ws2 ctx2. \<exists>h2 a3 ctx3 ctx4. buxn_asm_fopen api2 ws2 f (a2, ctx2) = (Some h2, a3, ctx3) \<and>
          read_chars (Suc (length content)) h2 ctx3 = Inr (map char_to_int content @ [EOF], ctx4)))"
proof -
  have "cache_ok a1" using assms(1) by (auto simp: begin_analysis_def cache_ok_def ok_simps)
  with changing_cache_step [OF assms(2)] have ok: "cache_ok a" by (simp add: cache_step_def)
  then have files: "bhash_inv (an_files a)" by (simp add: cache_ok_def)
  from file_content_stored [OF files assms(3)] obtain content where c: "file_content api ws f a = Some content"
    "contents a' f = Some content" by (auto simp: contents_def)
  obtain ctx2 where r: "read_chars (Suc (length content)) h ctx' = Inr (map char_to_int content @ [EOF], ctx2)"
    using fopen_reads [OF files c(1), of ctx] assms(3) by auto
  have ok': "cache_ok a'" using fopen_step [OF assms(3)] ok by (simp add: cache_step_def)
  have again: "\<exists>h2 a3 ctx3 ctx4. buxn_asm_fopen api2 ws2 f (a2, ctx2) = (Some h2, a3, ctx3) \<and>
      read_chars (Suc (length content)) h2 ctx3 = Inr (map char_to_int content @ [EOF], ctx4)"
    if later: "(changing_step api)\<^sup>*\<^sup>* (Some co', a') (later, a2)" for co' later a2 api2 ws2 ctx2
  proof -
    from changing_cache_step [OF later] ok' have "cache_ok a2" "contents a' \<subseteq>\<^sub>m contents a2" by (simp_all add: cache_step_def)
    moreover from this(2) c(2) have "contents a2 f = Some content" by (auto simp: map_le_def dom_def)
    ultimately show ?thesis
      using fopen_reads [of a2 api2 ws2 f content ctx2] by (auto simp: cache_ok_def contents_def file_content_def)
  qed
  show ?thesis
  proof (intro exI [of _ content] conjI allI impI)
    show "bhash_get (docs ws) f = Some content" if "bhash_get (an_files a) f = None" "bhash_has (docs ws) f"
      using c(1) that by (auto simp: file_content_def bhash_has_def)
  qed (use r again in blast)+
qed

text \<open>The document of the demo is opened, then closed in the editor, and opened by the assembler again.\<close>

theorem open_file_snapshot_witness:
  "\<exists>a' ctx' h2 a3 ctx3 ctx4.
     buxn_asm_fopen demo_asm demo_ws ''a.tal'' (buxn_ls_analyzer_init, init_asm_ctx 0) = (Some 0, a', ctx') \<and>
     buxn_asm_fopen demo_asm (demo_ws\<lparr>docs := []\<rparr>) ''a.tal'' (a', ctx') = (Some h2, a3, ctx3) \<and>
     read_chars 6 h2 ctx3 = Inr ([64, 97, 32, 59, 97, EOF], ctx4)"
proof -
  have b: "begin_analysis demo_asm (demo_ws\<lparr>docs := []\<rparr>) buxn_ls_analyzer_init =
      Inr (\<lparr>co_index = 0, co_call = None\<rparr>, buxn_ls_analyzer_init)"
    by (simp add: begin_analysis_def queue_docs_def swap_contexts_def buxn_ls_analyzer_init_def bhash_keys_def)
  obtain a' ctx' where o: "buxn_asm_fopen demo_asm demo_ws ''a.tal'' (buxn_ls_analyzer_init, init_asm_ctx 0) = (Some 0, a', ctx')"
    by (simp add: buxn_asm_fopen_def file_content_def demo_asm_def demo_ws_def table_defs source_defs
        init_asm_ctx_def Let_def)
  have doc: "bhash_get (an_files buxn_ls_analyzer_init) ''a.tal'' = None" "bhash_get (docs demo_ws) ''a.tal'' = Some ''@a ;a''"
    by (simp_all add: buxn_ls_analyzer_init_def demo_ws_def bhash_get_def)
  from open_file_snapshot [OF b rtranclp.rtrancl_refl o] obtain content where
    "bhash_get (an_files buxn_ls_analyzer_init) ''a.tal'' = None \<longrightarrow> bhash_has (docs demo_ws) ''a.tal'' \<longrightarrow>
       bhash_get (docs demo_ws) ''a.tal'' = Some content"
    and again: "\<forall>co' later a2. (changing_step demo_asm)\<^sup>*\<^sup>* (Some co', a') (later, a2) \<longrightarrow>
       (\<forall>api2 ws2 ctx2. \<exists>h2 a3 ctx3 ctx4. buxn_asm_fopen api2 ws2 ''a.tal'' (a2, ctx2) = (Some h2, a3, ctx3) \<and>
          read_chars (Suc (length content)) h2 ctx3 = Inr (map char_to_int content @ [EOF], ctx4))"
    by (elim exE conjE)
  with doc have c: "content = ''@a ;a''" by (simp add: bhash_has_def del: read_chars.simps)
  from again have "\<exists>h2 a3 ctx3 ctx4. buxn_asm_fopen demo_asm (demo_ws\<lparr>docs := []\<rparr>) ''a.tal'' (a', ctx') = (Some h2, a3, ctx3) \<and>
      read_chars (Suc (length content)) h2 ctx3 = Inr (map char_to_int content @ [EOF], ctx4)"
    using rtranclp.rtrancl_refl [of "changing_step demo_asm"] by meson
  moreover have "Suc (length content) = 6" "map char_to_int content @ [EOF] = [64, 97, 32, 59, 97, EOF]"
    by (simp_all add: c char_to_int_def)
  ultimately show ?thesis using o by auto
qed

end
