(* ===== verification/Analyze_Annotations.thy ===== *)
theory Analyze_Annotations
  imports Analyze_Lines
begin

text \<open>
  What becomes of a definition that the assembler reports (\<open>buxn_asm_put_symbol\<close> in
  \<open>src/src/analyze.c\<close>) together with the annotations that follow it (\<open>buxn_ls_handle_annotation\<close>):
  the specification says it in one record, and the callbacks append exactly that record.
\<close>

section \<open>The specification\<close>

text \<open>The text of an annotation in its file.\<close>

definition anno_text :: "analyzer \<Rightarrow> anno_call \<Rightarrow> string" where
  "anno_text a c =
     (case contents a (cp_text (rg_filename (ac_region c))) of
        None \<Rightarrow> []
      | Some text \<Rightarrow>
          (let s = nat (ap_byte (ar_start (rg_range (ac_region c)))); e = nat (ap_byte (ar_end (rg_range (ac_region c))))
           in take (e - s) (drop s text)))"

text \<open>The semantics of a symbol: that of its last signature or \<open>buxn:enum\<close>, and what it is without
  annotations if it has none.\<close>

fun annotated_semantics :: "anno_call list \<Rightarrow> symbol_semantics \<Rightarrow> symbol_semantics" where
  "annotated_semantics [] sem = sem"
| "annotated_semantics (c # cs) sem =
     annotated_semantics cs
       (case ac_annotation c of
          None \<Rightarrow> BUXN_LS_SYMBOL_AS_SUBROUTINE
        | Some k \<Rightarrow> if k = 3 then BUXN_LS_SYMBOL_AS_ENUM else sem)"

text \<open>The text of the last annotation of a kind.\<close>

definition last_text :: "analyzer \<Rightarrow> nat option \<Rightarrow> anno_call list \<Rightarrow> string \<Rightarrow> string" where
  "last_text a kind cs old =
     (case filter (\<lambda>c. ac_annotation c = kind) cs of [] \<Rightarrow> old | ds \<Rightarrow> anno_text a (last ds))"

definition annotated :: "analyzer \<Rightarrow> anno_call list \<Rightarrow> sym_node \<Rightarrow> sym_node" where
  "annotated a cs sy = sy\<lparr>sy_semantics := annotated_semantics cs (sy_semantics sy),
     sy_documentation := last_text a (Some 0) cs (sy_documentation sy),
     sy_signature := last_text a None cs (sy_signature sy)\<rparr>"

definition enum_scope_after :: "anno_call list \<Rightarrow> string \<Rightarrow> string \<Rightarrow> string" where
  "enum_scope_after cs name scope =
     (if Some 3 \<in> ac_annotation ` set cs then buxn_ls_label_scope name else scope)"

text \<open>What the labels on the zero page of a file are from here on.\<close>

fun zero_page_after :: "string \<Rightarrow> anno_call list \<Rightarrow> symbol_semantics \<Rightarrow> symbol_semantics" where
  "zero_page_after f [] sem = sem"
| "zero_page_after f (c # cs) sem =
     zero_page_after f cs
       (if cp_text (rg_filename (ac_region c)) = f
        then (case ac_annotation c of
                None \<Rightarrow> sem
              | Some k \<Rightarrow>
                  if k = 1 then BUXN_LS_SYMBOL_AS_DEVICE_PORT
                  else if k = 2 then BUXN_LS_SYMBOL_AS_VARIABLE else sem)
        else sem)"

text \<open>A label or macro without its annotations.\<close>

definition zero_page :: "u16 \<Rightarrow> asm_sym \<Rightarrow> bool" where
  "zero_page addr sy \<longleftrightarrow> as_type sy = BUXN_ASM_SYM_LABEL \<and> addr \<le> 0x00ff"

definition in_enum :: "string \<Rightarrow> asm_sym \<Rightarrow> bool" where
  "in_enum scope sy \<longleftrightarrow> scope \<noteq> [] \<and> buxn_ls_label_scope (as_name sy) = scope"

definition defined_semantics :: "string \<Rightarrow> symbol_semantics \<Rightarrow> u16 \<Rightarrow> asm_sym \<Rightarrow> symbol_semantics" where
  "defined_semantics scope zp addr sy =
     (if as_type sy \<noteq> BUXN_ASM_SYM_LABEL then BUXN_LS_SYMBOL_AS_SUBROUTINE
      else if \<not> zero_page addr sy then BUXN_LS_SYMBOL_AS_VARIABLE
      else if in_enum scope sy then BUXN_LS_SYMBOL_AS_ENUM else zp)"

definition defined_sym :: "string \<Rightarrow> symbol_semantics \<Rightarrow> u16 \<Rightarrow> nat \<Rightarrow> lsp_range \<Rightarrow> asm_sym \<Rightarrow> sym_node" where
  "defined_sym scope zp addr src rng sy =
     \<lparr>sy_name = as_name sy, sy_documentation = [], sy_signature = [], sy_source = src,
      sy_type = as_type sy, sy_semantics = defined_semantics scope zp addr sy,
      sy_byte_offset = ap_byte (ar_start (rg_range (as_region sy))), sy_range = rng,
      sy_address = (if as_type sy = BUXN_ASM_SYM_LABEL then addr else 0)\<rparr>"

section \<open>The annotations\<close>

lemma anno_text_contents: "contents a = contents b \<Longrightarrow> anno_text a = anno_text b"
  by (simp add: fun_eq_iff anno_text_def)

lemma slice_file_text:
  "buxn_ls_slice_file a (ac_region c) = Inr t \<Longrightarrow> t = anno_text a c"
  by (auto simp: buxn_ls_slice_file_def anno_text_def contents_def Let_def nat_diff_distrib' split: option.splits if_splits)

lemma last_text_simps:
  "last_text a k [] old = old"
  "last_text a k (c # cs) old = last_text a k cs (if ac_annotation c = k then anno_text a c else old)"
  by (auto simp: last_text_def split: list.split)

lemma annotated_simps:
  "annotated a [] sy = sy"
  "annotated a (c # cs) sy = annotated a cs (annotated a [c] sy)"
  by (simp_all add: annotated_def last_text_simps)

lemma annotated_contents: "contents a = contents b \<Longrightarrow> annotated a = annotated b"
proof -
  assume "contents a = contents b"
  from anno_text_contents [OF this] show ?thesis by (intro ext) (simp only: annotated_def last_text_def)
qed

text \<open>One annotation of the symbol \<open>n\<close>.\<close>

definition anno_file :: "anno_call list \<Rightarrow> string \<Rightarrow> ls_file \<Rightarrow> ls_file" where
  "anno_file cs f file = file\<lparr>f_zero_page_semantics := zero_page_after f cs (f_zero_page_semantics file)\<rparr>"

definition anno_effect :: "anno_call list \<Rightarrow> nat \<Rightarrow> analyzer \<times> asm_ctx \<Rightarrow> analyzer \<times> asm_ctx \<Rightarrow> bool" where
  "anno_effect cs n s t \<longleftrightarrow>
     (case (s, t) of ((a, ctx), (a', ctx')) \<Rightarrow>
        an_current a' = upd_sym n (annotated a cs) (an_current a) \<and>
        ctx' = ctx\<lparr>ac_enum_scope :=
          enum_scope_after cs (sy_name (cx_sym_nodes (an_current a) ! n)) (ac_enum_scope ctx)\<rparr> \<and>
        (\<forall>f. bhash_get (an_files a') f = map_option (anno_file cs f) (bhash_get (an_files a) f)) \<and>
        an_label_defs a' = an_label_defs a \<and> an_macro_defs a' = an_macro_defs a)"

lemma anno_file_other [simp]:
  "ac_annotation c \<noteq> Some 1 \<Longrightarrow> ac_annotation c \<noteq> Some 2 \<Longrightarrow> anno_file [c] f file = file"
  by (auto simp: anno_file_def split: option.split)

lemma has_get: "bhash_get t k = Some v \<Longrightarrow> bhash_has t k"
  by (simp add: bhash_has_def)

lemma handle_annotation_effect:
  assumes "buxn_ls_handle_annotation c (a, ctx) = Inr (a', ctx')" and "ac_current_sym_node ctx = Some n"
  shows "anno_effect [c] n (a, ctx) (a', ctx')"
proof -
  have "an_current a' = upd_sym n (annotated a [c]) (an_current a) \<and>
    ctx' = ctx\<lparr>ac_enum_scope := enum_scope_after [c] (sy_name (cx_sym_nodes (an_current a) ! n)) (ac_enum_scope ctx)\<rparr>"
    using assms
    by (auto simp: buxn_ls_handle_annotation_def current_sym_def Let_def ok_simps annotated_def upd_current_def
        upd_sym_def last_text_simps enum_scope_after_def dest!: slice_file_text split: option.splits if_splits)
  moreover have "bhash_get (an_files a') f = map_option (anno_file [c] f) (bhash_get (an_files a) f)" for f
    using assms
    by (cases "bhash_get (an_files a) f")
      (auto simp: buxn_ls_handle_annotation_def Let_def ok_simps upd_current_def get_set has_get anno_file_def
        split: option.splits if_splits)
  moreover have "an_label_defs a' = an_label_defs a \<and> an_macro_defs a' = an_macro_defs a"
    using assms(1)
    by (auto simp: buxn_ls_handle_annotation_def Let_def ok_simps upd_current_def split: option.splits if_splits)
  ultimately show ?thesis by (simp add: anno_effect_def)
qed

lemma anno_file_Cons: "anno_file (c # cs) f = (\<lambda>file. anno_file cs f (anno_file [c] f file))"
  by (simp add: fun_eq_iff anno_file_def)

lemma handle_annotations_effect:
  assumes "ofold buxn_ls_handle_annotation cs (a, ctx) = Inr t" and "ac_current_sym_node ctx = Some n"
    and "n < length (cx_sym_nodes (an_current a))"
  shows "anno_effect cs n (a, ctx) t"
  using assms
proof (induction cs arbitrary: a ctx)
  case Nil
  have "upd_sym n (annotated a []) cx = cx" for cx by (simp add: upd_sym_def annotated_simps)
  moreover have "map_option (anno_file [] f) x = x" for f x by (cases x) (simp_all add: anno_file_def)
  ultimately show ?case using Nil by (auto simp: anno_effect_def enum_scope_after_def)
next
  case (Cons c cs)
  from Cons.prems(1) obtain a1 ctx1 where one: "buxn_ls_handle_annotation c (a, ctx) = Inr (a1, ctx1)"
    and rest: "ofold buxn_ls_handle_annotation cs (a1, ctx1) = Inr t" by (auto simp: ok_simps)
  note e = handle_annotation_effect [OF one Cons.prems(2), unfolded anno_effect_def prod.case]
  have sy: "cx_sym_nodes (an_current a1) = (cx_sym_nodes (an_current a))[n := annotated a [c] (cx_sym_nodes (an_current a) ! n)]"
    using e by (simp add: upd_sym_def)
  from Cons.IH [OF rest] e Cons.prems(2,3) sy have i: "anno_effect cs n (a1, ctx1) t" by simp
  obtain a2 ctx2 where t: "t = (a2, ctx2)" by fastforce
  note i = i [unfolded t anno_effect_def prod.case]
  have "contents a1 = contents a"
    using e by (auto simp: fun_eq_iff contents_def anno_file_def option.map_comp comp_def)
  then have ann: "annotated a1 = annotated a" by (rule annotated_contents)
  have name: "sy_name (annotated a cs x) = sy_name x" for cs x by (simp add: annotated_def)
  show ?case
    using i e sy Cons.prems(3)
    by (simp add: t anno_effect_def ann upd_sym_def name enum_scope_after_def annotated_simps(2) [of a c cs]
        option.map_comp comp_def anno_file_Cons [of c cs])
qed

section \<open>The definition\<close>

text \<open>A range of a file for the editor; lines are numbered from 1.\<close>

definition range_in :: "utf8_iterate \<Rightarrow> string \<Rightarrow> asm_range \<Rightarrow> lsp_range \<Rightarrow> bool" where
  "range_in utf8 content r rng \<longleftrightarrow>
     (1 \<le> ap_line (ar_start r) \<and> 1 \<le> ap_line (ar_end r) \<longrightarrow>
        file_position utf8 content (ar_start r) = Inr (r_start rng) \<and>
        file_position utf8 content (ar_end r) = Inr (r_end rng))"

lemma convert_range_reference:
  assumes "cache_ok a" and "bhash_get (an_files a) f = Some fl" and "buxn_ls_convert_range utf8 f r a = Inr (rng, b)"
  shows "range_in utf8 (f_content fl) r rng"
proof -
  from assms(3) obtain s e a1 where s: "buxn_ls_convert_position utf8 f (ar_start r) a = Inr (s, a1)"
    and e: "buxn_ls_convert_position utf8 f (ar_end r) a1 = Inr (e, b)" and rng: "rng = \<lparr>r_start = s, r_end = e\<rparr>"
    by (auto simp: buxn_ls_convert_range_def ok_simps)
  from convert_position_step [OF s] assms(1) have ok: "cache_ok a1" and le: "contents a \<subseteq>\<^sub>m contents a1"
    by (simp_all add: cache_step_def)
  from assms(2) have "contents a f = Some (f_content fl)" by (simp add: contents_def)
  with le have "contents a1 f = Some (f_content fl)" by (metis domI map_le_def)
  then obtain fl1 where fl1: "bhash_get (an_files a1) f = Some fl1" "f_content fl1 = f_content fl"
    by (auto simp: contents_def)
  show ?thesis
    unfolding range_in_def
  proof (intro impI, elim conjE)
    assume l: "1 \<le> ap_line (ar_start r)" "1 \<le> ap_line (ar_end r)"
    from s have "file_position utf8 (f_content fl) (ar_start r) = Inr s"
      unfolding convert_position_reference [OF assms(1,2) l(1)] by (auto simp: obind_Inr_conv)
    moreover from e have "file_position utf8 (f_content fl) (ar_end r) = Inr e"
      unfolding convert_position_reference [OF ok fl1(1) l(2)] by (auto simp: obind_Inr_conv fl1(2))
    ultimately show "file_position utf8 (f_content fl) (ar_start r) = Inr (r_start rng) \<and>
      file_position utf8 (f_content fl) (ar_end r) = Inr (r_end rng)" by (simp add: rng)
  qed
qed

text \<open>The contents and the zero page of every file stay as they are.\<close>

definition file_facts :: "analyzer \<Rightarrow> string \<Rightarrow> (string \<times> symbol_semantics) option" where
  "file_facts a f = map_option (\<lambda>fl. (f_content fl, f_zero_page_semantics fl)) (bhash_get (an_files a) f)"

lemma file_facts_same: "an_files b = an_files a \<Longrightarrow> file_facts b = file_facts a"
  by (simp add: file_facts_def fun_eq_iff)

lemma file_facts_set:
  assumes "bhash_get (an_files a) f = Some fl" and "f_content fl' = f_content fl"
    and "f_zero_page_semantics fl' = f_zero_page_semantics fl" and "an_files b = bhash_set (an_files a) f fl'"
  shows "file_facts b = file_facts a"
  using assms by (auto simp: file_facts_def fun_eq_iff get_set)

lemma split_file_facts: "buxn_ls_analyzer_split_file a f = (r, a') \<Longrightarrow> file_facts a' = file_facts a"
  by (auto simp: buxn_ls_analyzer_split_file_def Let_def file_facts_def fun_eq_iff get_set
      split: option.splits if_splits)

lemma convert_position_facts: "buxn_ls_convert_position utf8 f p a = Inr (q, a') \<Longrightarrow> file_facts a' = file_facts a"
  by (auto simp: buxn_ls_convert_position_def Let_def ok_simps
      dest!: split_file_facts split: prod.splits option.splits if_splits)

lemma convert_range_facts: "buxn_ls_convert_range utf8 f r a = Inr (q, a') \<Longrightarrow> file_facts a' = file_facts a"
  by (auto simp: buxn_ls_convert_range_def ok_simps dest!: convert_position_facts)

lemma bump_facts:
  "bhash_get (an_files a) (cp_text (rg_filename (as_region sy))) = Some fl \<Longrightarrow>
     file_facts (bump_analyzer sy fl a) = file_facts a"
  by (rule file_facts_set [of a _ fl "bump_file sy fl"]) (simp_all add: bump_analyzer_def bump_file_def)

lemma put_definition_effect:
  assumes "put_definition api addr sy (a, ctx) = Inr (b, c)" and "\<not> as_name_is_generated sy"
    and "as_type sy = BUXN_ASM_SYM_LABEL \<or> as_type sy = BUXN_ASM_SYM_MACRO"
    and "src_inv (an_current a)" and "bhash_inv (an_label_defs a)"
    and "bhash_get (an_files a) (cp_text (rg_filename (as_region sy))) = Some fl" and "cache_ok a"
  obtains src rng where
    "bhash_get (cx_sources (an_current a)) (cp_text (rg_filename (as_region sy))) = Some src"
    "cx_sym_nodes (an_current b) = cx_sym_nodes (an_current a) @
       [defined_sym (ac_enum_scope ctx) (f_zero_page_semantics fl) addr src rng sy]"
    "src_defs (an_current b) src = nsyms (an_current a) # src_defs (an_current a) src"
    "c = ctx\<lparr>ac_enum_scope := (if zero_page addr sy \<and> \<not> in_enum (ac_enum_scope ctx) sy then []
         else ac_enum_scope ctx), ac_current_sym_node := Some (nsyms (an_current a))\<rparr>"
    "as_type sy = BUXN_ASM_SYM_LABEL \<Longrightarrow> bhash_get (an_label_defs b) (word_of_nat (as_id sy)) = Some (nsyms (an_current a))"
    "as_type sy = BUXN_ASM_SYM_MACRO \<Longrightarrow> an_macro_defs b = an_macro_defs a @ [nsyms (an_current a)]"
    "range_in (aa_utf8 api) (f_content fl) (rg_range (as_region sy)) rng" "file_facts b = file_facts a"
  using assms(1)
proof (cases rule: put_definition_cases)
  case generated
  with assms(2) show thesis by simp
next
  case (named fl' n a2 c4)
  let ?a1 = "bump_analyzer sy fl a"
  have fl': "fl' = fl" using named(1) assms(6) by simp
  have a1: "an_current ?a1 = an_current a" "an_label_defs ?a1 = an_label_defs a" "an_macro_defs ?a1 = an_macro_defs a"
    by (simp_all add: bump_analyzer_def)
  from named(3) [unfolded fl'] obtain src rng a3 where
    src: "bhash_get (cx_sources (an_current a)) (cp_text (rg_filename (as_region sy))) = Some src"
    and rg: "buxn_ls_convert_range (aa_utf8 api) (cp_text (rg_filename (as_region sy))) (rg_range (as_region sy)) ?a1
      = Inr (rng, a3)"
    and lo: "lines_only ?a1 a3" and n: "n = length (cx_sym_nodes (an_current a))"
    and a2: "a2 = a3\<lparr>an_current := snd (alloc_sym \<lparr>sy_name = as_name sy, sy_documentation = [],
       sy_signature = [], sy_source = src, sy_type = as_type sy,
       sy_semantics = BUXN_LS_SYMBOL_AS_VARIABLE,
       sy_byte_offset = ap_byte (ar_start (rg_range (as_region sy))), sy_range = rng,
       sy_address = 0\<rparr> (an_current a))\<rparr>"
    by (rule make_sym_node_cases) (simp add: a1)
  note same = lines_onlyD [OF lo, unfolded a1]
  have "src < length (cx_src_nodes (an_current a))" using src assms(4) by (simp add: src_invD(4) src_size_def)
  have ok1: "cache_ok ?a1" using bump_step [OF assms(6)] assms(7) by (simp add: cache_step_def)
  have "bhash_get (an_files ?a1) (cp_text (rg_filename (as_region sy))) = Some (bump_file sy fl)"
    using assms(6) by (simp add: bump_analyzer_def get_set has_get)
  from convert_range_reference [OF ok1 this rg]
  have rng: "range_in (aa_utf8 api) (f_content fl) (rg_range (as_region sy)) rng"
    by (simp add: bump_file_def split: if_splits)
  have facts3: "file_facts a3 = file_facts a" using convert_range_facts [OF rg] bump_facts [OF assms(6)] by simp
  have facts: "file_facts b = file_facts a3"
    using named(4) by (intro file_facts_same)
      (auto simp: a2 push_definition_def upd_current_def put_label_def put_macro_def Let_def split: if_splits)
  note defs = n a2 fl' alloc_sym_def push_definition_def upd_current_def upd_src_def upd_sym_def src_defs_def nsyms_def
    same defined_sym_def defined_semantics_def zero_page_def in_enum_def bump_file_def
  show thesis
  proof (cases "as_type sy = BUXN_ASM_SYM_LABEL")
    case True
    with named(4,5) \<open>src < _\<close> rng facts facts3 show thesis
      by (intro that [OF src, of rng])
        (auto simp: defs put_label_def Let_def bh.get_put assms(5) split: if_splits)
  next
    case False
    with named(4,5) \<open>src < _\<close> assms(3) rng facts facts3 show thesis
      by (intro that [OF src, of rng]) (auto simp: defs put_macro_def Let_def)
  qed
qed

section \<open>The property\<close>

lemma facts_contents: "file_facts a = file_facts b \<Longrightarrow> contents a = contents b"
proof -
  assume "file_facts a = file_facts b"
  then have "map_option fst (file_facts a f) = map_option fst (file_facts b f)" for f by simp
  then show ?thesis by (simp add: fun_eq_iff file_facts_def contents_def option.map_comp comp_def)
qed

text \<open>C19: A label or macro that the assembler reports, unless it repeats the previous symbol or has a
  generated name, becomes one new symbol, first among the definitions of its file and found under its
  id: with its name, its address, its range in the file's contents, the text of its last documentation
  and signature, and the semantics of the last annotation that sets one. Without such an annotation a
  macro is a subroutine, a label is a variable above the zero page, on it what its file says there, or an
  enum where its scope is the one that \<open>buxn:enum\<close> opened; the first zero-page label of another
  scope closes that one. No other symbol changes.\<close>

theorem definition_recorded:
  assumes "src_inv (an_current a)" and "cache_ok a" and "bhash_inv (an_label_defs a)"
    and "as_type sy = BUXN_ASM_SYM_LABEL \<or> as_type sy = BUXN_ASM_SYM_MACRO"
    and "\<not> as_name_is_generated sy" and "\<not> same_symbol sy (ac_previous_sym ctx)"
    and "bhash_get (an_files a) f = Some fl" and "f = cp_text (rg_filename (as_region sy))"
    and "buxn_asm_put_symbol api addr sy (a, ctx) = Inr (a', ctx')"
    and "cs = aa_anno api (ac_anno_syms ctx @ [(addr, sy)])" and "n = nsyms (an_current a)"
    and "scope = ac_enum_scope ctx"
  shows "\<exists>src rng fl'. bhash_get (cx_sources (an_current a)) f = Some src \<and>
    range_in (aa_utf8 api) (f_content fl) (rg_range (as_region sy)) rng \<and>
    cx_sym_nodes (an_current a') = cx_sym_nodes (an_current a) @
      [annotated a cs (defined_sym scope (f_zero_page_semantics fl) addr src rng sy)] \<and>
    src_defs (an_current a') src = n # src_defs (an_current a) src \<and>
    ac_current_sym_node ctx' = Some n \<and>
    ac_enum_scope ctx' = enum_scope_after cs (as_name sy)
      (if zero_page addr sy \<and> \<not> in_enum scope sy then [] else scope) \<and>
    (if as_type sy = BUXN_ASM_SYM_LABEL then bhash_get (an_label_defs a') (word_of_nat (as_id sy)) = Some n
     else an_macro_defs a' = an_macro_defs a @ [n]) \<and>
    bhash_get (an_files a') f = Some fl' \<and> f_content fl' = f_content fl \<and>
    f_zero_page_semantics fl' = zero_page_after f cs (f_zero_page_semantics fl)"
proof -
  let ?ctx = "ctx\<lparr>ac_chess_syms := ac_chess_syms ctx @ [(addr, sy)]\<rparr>"
  from assms(9,4,6) obtain b c where mid: "put_definition api addr sy (a, ?ctx) = Inr (b, c)"
    and an: "ofold buxn_ls_handle_annotation (aa_anno api (ac_anno_syms c @ [(addr, sy)]))
        (b, c\<lparr>ac_previous_sym := Some sy, ac_anno_syms := ac_anno_syms c @ [(addr, sy)]\<rparr>) = Inr (a', ctx')"
    by (auto simp: buxn_asm_put_symbol_def Let_def ok_simps)
  obtain src rng where d: "bhash_get (cx_sources (an_current a)) f = Some src"
    "cx_sym_nodes (an_current b) = cx_sym_nodes (an_current a) @
       [defined_sym scope (f_zero_page_semantics fl) addr src rng sy]"
    "src_defs (an_current b) src = n # src_defs (an_current a) src"
    "c = ?ctx\<lparr>ac_enum_scope := (if zero_page addr sy \<and> \<not> in_enum scope sy then [] else scope),
       ac_current_sym_node := Some n\<rparr>"
    "if as_type sy = BUXN_ASM_SYM_LABEL then bhash_get (an_label_defs b) (word_of_nat (as_id sy)) = Some n
     else an_macro_defs b = an_macro_defs a @ [n]"
    "range_in (aa_utf8 api) (f_content fl) (rg_range (as_region sy)) rng" "file_facts b = file_facts a"
  proof (rule put_definition_effect [OF mid assms(5,4,1,3) assms(7) [unfolded assms(8)] assms(2)], goal_cases)
    case (1 src rng)
    show ?case by (rule 1(1) [of src rng]) (use 1(2-) assms(4) in \<open>auto simp: assms(8,11,12)\<close>)
  qed
  have "n < length (cx_sym_nodes (an_current b))" "ac_anno_syms c = ac_anno_syms ctx"
    by (simp_all add: d assms(11) nsyms_def)
  with handle_annotations_effect [OF an, of n] d(4)
  have e: "anno_effect cs n (b, c\<lparr>ac_previous_sym := Some sy, ac_anno_syms := ac_anno_syms c @ [(addr, sy)]\<rparr>) (a', ctx')"
    by (simp add: assms(10))
  have ann: "annotated b = annotated a" by (rule annotated_contents [OF facts_contents [OF d(7)]])
  have "file_facts b f = Some (f_content fl, f_zero_page_semantics fl)" by (simp add: d(7)) (simp add: file_facts_def assms(7))
  then obtain fl1 where "bhash_get (an_files b) f = Some fl1" "f_content fl1 = f_content fl"
    "f_zero_page_semantics fl1 = f_zero_page_semantics fl" by (auto simp: file_facts_def)
  with e have "\<exists>fl'. bhash_get (an_files a') f = Some fl' \<and> f_content fl' = f_content fl \<and>
    f_zero_page_semantics fl' = zero_page_after f cs (f_zero_page_semantics fl)"
    by (auto simp: anno_effect_def anno_file_def)
  moreover have "cx_sym_nodes (an_current a') = cx_sym_nodes (an_current a) @
      [annotated a cs (defined_sym scope (f_zero_page_semantics fl) addr src rng sy)] \<and>
    src_defs (an_current a') src = n # src_defs (an_current a) src \<and>
    ac_current_sym_node ctx' = Some n \<and>
    ac_enum_scope ctx' = enum_scope_after cs (as_name sy)
      (if zero_page addr sy \<and> \<not> in_enum scope sy then [] else scope) \<and>
    (if as_type sy = BUXN_ASM_SYM_LABEL then bhash_get (an_label_defs a') (word_of_nat (as_id sy)) = Some n
     else an_macro_defs a' = an_macro_defs a @ [n])"
    using e d(2-5) unfolding anno_effect_def prod.case ann
    by (simp add: upd_sym_def src_defs_def assms(11) nsyms_def defined_sym_def)
  ultimately show ?thesis using d(1,6) by blast
qed

text \<open>A label on the zero page with a documentation and a \<open>buxn:enum\<close>, and the label after it.\<close>

definition demo_anno_asm :: asm_api where
  "demo_anno_asm = demo_asm\<lparr>aa_anno := (\<lambda>s. [\<lparr>ac_annotation = Some 0, ac_region = demo_region 0 2\<rparr>,
     \<lparr>ac_annotation = Some 3, ac_region = demo_region 0 2\<rparr>])\<rparr>"

lemma demo_open_cache: "cache_ok demo_open"
  by (auto simp: demo_open_def demo_defs source_defs cache_ok_def new_file_def bhash_inv_def table_defs)

theorem definition_recorded_witness:
  "\<exists>a' ctx'. buxn_asm_put_symbol demo_anno_asm 0x10 (demo_sym BUXN_ASM_SYM_LABEL (demo_region 0 2))
       (demo_open, init_asm_ctx 0) = Inr (a', ctx') \<and>
     map sy_semantics (cx_sym_nodes (an_current a')) = [BUXN_LS_SYMBOL_AS_ENUM] \<and>
     map sy_documentation (cx_sym_nodes (an_current a')) = [''@a''] \<and> ac_enum_scope ctx' = ''a''"
proof -
  let ?sy = "demo_sym BUXN_ASM_SYM_LABEL (demo_region 0 2)"
  have "\<exists>a' ctx'. buxn_asm_put_symbol demo_anno_asm 0x10 ?sy (demo_open, init_asm_ctx 0) = Inr (a', ctx')"
    by (simp add: demo_anno_asm_def demo_open_def demo_defs table_defs source_defs position_defs symbol_defs
        buxn_ls_handle_annotation_def current_sym_def buxn_ls_slice_file_def init_asm_ctx_def new_file_def
        Let_def CR_def LF_def)
  then obtain a' ctx' where
    put: "buxn_asm_put_symbol demo_anno_asm 0x10 ?sy (demo_open, init_asm_ctx 0) = Inr (a', ctx')" by blast
  have facts: "bhash_inv (an_label_defs demo_open)"
    "as_type ?sy = BUXN_ASM_SYM_LABEL \<or> as_type ?sy = BUXN_ASM_SYM_MACRO"
    "\<not> as_name_is_generated ?sy" "\<not> same_symbol ?sy (ac_previous_sym (init_asm_ctx 0))"
    "bhash_get (an_files demo_open) ''a.tal'' = Some (new_file ''@a ;a'')"
    "''a.tal'' = cp_text (rg_filename (as_region ?sy))"
    by (simp_all add: demo_open_def demo_defs table_defs source_defs init_asm_ctx_def bhash_inv_def same_symbol_def)
  have "cx_sym_nodes (an_current demo_open) = []"
    by (simp add: demo_open_def demo_defs table_defs source_defs)
  with definition_recorded [OF demo_open_inv(1) demo_open_cache facts put refl refl refl]
  have "map sy_semantics (cx_sym_nodes (an_current a')) = [BUXN_LS_SYMBOL_AS_ENUM] \<and>
    map sy_documentation (cx_sym_nodes (an_current a')) = [''@a''] \<and> ac_enum_scope ctx' = ''a''"
    by (auto simp: annotated_def last_text_def demo_anno_asm_def anno_text_def contents_def demo_open_def table_defs
        demo_defs new_file_def defined_sym_def enum_scope_after_def buxn_ls_label_scope_def)
  with put show ?thesis by (intro exI [of _ a'] exI [of _ ctx']) simp
qed

end
