(* ===== verification/Completion.thy ===== *)
theory Completion
  imports Analyze_Syms
begin

text \<open>
  Completion (\<open>src/src/completion.h\<close>, \<open>src/src/completion.c\<close>): which symbols match a prefix, the walk
  over the include graph that collects them, and the completion list that is sent.

  Lengths that the code casts to \<open>int\<close> for \<open>%.*s\<close> are those of texts below 2 GiB; \<open>%.*s\<close> stops
  at a NUL as well (\<open>cstr\<close>).
\<close>

section \<open>Data\<close>

datatype sym_match_type =
    BUXN_LS_MATCH_ANY_SYMBOL
  | BUXN_LS_MATCH_ANY_LABEL
  | BUXN_LS_MATCH_ZERO_LABEL
  | BUXN_LS_MATCH_LOCAL_LABEL
  | BUXN_LS_MATCH_SUB_LABEL
  | BUXN_LS_MATCH_PRECEDING_LABEL

datatype sym_format_type = BUXN_LS_FORMAT_FULL_NAME | BUXN_LS_FORMAT_LOCAL_NAME

record sym_filter =
  fl_labels_only :: bool
  fl_preceding_labels :: bool
  fl_subroutine_only :: bool
  fl_prefix_pos :: lsp_position
  fl_addr_min :: u16
  fl_addr_max :: u16
  fl_prefix :: string

record sym_visit_ctx =
  vc_filter :: sym_filter
  vc_current_scope :: string
  vc_group_symbols :: bool

text \<open>\<open>ci_sym\<close> is the index of the symbol in the current context.\<close>

record completion_item =
  ci_sym :: nat
  ci_size :: nat
  ci_is_local :: bool

type_synonym completion_map = "(string, completion_item) bhash"

text \<open>\<open>line_content\<close> is a pointer and a length: the bytes from the pointer on, and the length.\<close>

record completion_ctx =
  cc_source :: nat
  cc_line_content :: "string \<times> nat"
  cc_prefix :: string
  cc_lsp_range :: lsp_range
  cc_line_number :: int
  cc_prefix_start_byte :: int
  cc_prefix_end_byte :: int

section \<open>Matching a symbol\<close>

text \<open>Called on a non-empty string only.\<close>

definition buxn_ls_str_pop_front :: "string \<Rightarrow> string" where
  "buxn_ls_str_pop_front s = tl s"

fun slash_then_gt :: "string \<Rightarrow> bool" where
  "slash_then_gt [] = False"
| "slash_then_gt (ch # rest) =
     (if ch = CHR ''/'' then rest \<noteq> [] \<and> hd rest = CHR ''>'' else slash_then_gt rest)"

definition buxn_ls_is_subroutine :: "sym_node \<Rightarrow> bool" where
  "buxn_ls_is_subroutine def =
     (if sy_semantics def = BUXN_LS_SYMBOL_AS_SUBROUTINE then True else slash_then_gt (sy_name def))"

definition buxn_ls_match_symbol :: "sym_node \<Rightarrow> sym_filter \<Rightarrow> bool" where
  "buxn_ls_match_symbol def filt =
     (if sy_type def = BUXN_ASM_SYM_LABEL \<and>
         (fl_preceding_labels filt \<and> bio_lsp_cmp_pos (r_start (sy_range def)) (fl_prefix_pos filt) \<ge> 0 \<or>
          fl_subroutine_only filt \<and> \<not> buxn_ls_is_subroutine def \<or>
          sy_address def < fl_addr_min filt \<or> sy_address def > fl_addr_max filt)
      then False
      else if sy_type def \<noteq> BUXN_ASM_SYM_LABEL \<and>
         (fl_labels_only filt \<or>
          bio_lsp_cmp_pos (r_start (sy_range def)) (fl_prefix_pos filt) \<ge> 0)
      then False
      else length (sy_name def) \<ge> length (fl_prefix filt) \<and>
           take (length (fl_prefix filt)) (sy_name def) = fl_prefix filt)"

section \<open>Collecting candidates\<close>

definition visit_symbol ::
    "bhash_layout \<Rightarrow> analyzer_ctx \<Rightarrow> sym_visit_ctx \<Rightarrow> nat \<Rightarrow> completion_map \<Rightarrow> completion_map" where
  "visit_symbol lay cx ctx n cmap =
     (let def = cx_sym_nodes cx ! n
      in if buxn_ls_match_symbol def (vc_filter ctx) then
           (let scope = buxn_ls_label_scope (sy_name def);
                is_local = buxn_ls_cstr_eq scope (vc_current_scope ctx);
                new_item = \<lparr>ci_sym = n, ci_size = 1, ci_is_local = is_local\<rparr>
            in if vc_group_symbols ctx then
                 (let key = (if is_local then sy_name def else scope)
                  in case bhash_get cmap key of
                       None \<Rightarrow> bhash_put lay cmap key new_item
                     | Some item \<Rightarrow>
                         (let item1 = item\<lparr>ci_size := ci_size item + 1\<rparr>;
                              item2 = (if buxn_ls_cstr_eq (sy_name def) scope
                                       then item1\<lparr>ci_sym := n\<rparr> else item1)
                          in bhash_set cmap key item2))
               else bhash_put lay cmap (sy_name def) new_item)
         else cmap)"

text \<open>As in the analyzer, the fuel bounds the depth of the C recursion: one more than the number of
  nodes suffices on a graph without cycles.\<close>

fun buxn_ls_visit_symbols ::
    "nat \<Rightarrow> bhash_layout \<Rightarrow> analyzer_ctx \<Rightarrow> sym_visit_ctx \<Rightarrow> nat \<Rightarrow> completion_map \<Rightarrow>
     completion_map outcome" where
  "buxn_ls_visit_symbols 0 lay cx ctx src_node cmap = Inl Stack_overflow"
| "buxn_ls_visit_symbols (Suc depth) lay cx ctx src_node cmap =
     ofold (\<lambda>child. buxn_ls_visit_symbols depth lay cx ctx child)
       (out_nodes (cx_src_graph cx) src_node)
       (fold (visit_symbol lay cx ctx) (sn_definitions (cx_src_nodes cx ! src_node)) cmap)"

fun buxn_ls_visit_symbols_from_root ::
    "nat \<Rightarrow> nat \<Rightarrow> bhash_layout \<Rightarrow> analyzer_ctx \<Rightarrow> sym_visit_ctx \<Rightarrow> nat \<Rightarrow> completion_map \<Rightarrow>
     completion_map outcome" where
  "buxn_ls_visit_symbols_from_root 0 depth lay cx ctx src_node cmap = Inl Stack_overflow"
| "buxn_ls_visit_symbols_from_root (Suc climb) depth lay cx ctx src_node cmap =
     (if in_edges (g_nodes (cx_src_graph cx) ! src_node) \<noteq> None
      then ofold (\<lambda>parent. buxn_ls_visit_symbols_from_root climb depth lay cx ctx parent)
             (in_nodes (cx_src_graph cx) src_node) cmap
      else buxn_ls_visit_symbols depth lay cx ctx src_node cmap)"

section \<open>Reading the prefix\<close>

text \<open>What the first characters of the prefix decide.\<close>

record prefix_kind =
  pk_match :: sym_match_type
  pk_format :: sym_format_type
  pk_prefix :: string
  pk_subroutine_only :: bool
  pk_edit_start :: int
  pk_group :: bool

definition rune_kind :: "completion_ctx \<Rightarrow> prefix_kind option" where
  "rune_kind ctx =
     (let rune = hd (cc_prefix ctx);
          popped = buxn_ls_str_pop_front (cc_prefix ctx);
          after = cc_prefix_start_byte ctx + 1;
          kind = (\<lambda>m f s g. Some \<lparr>pk_match = m, pk_format = f, pk_prefix = popped,
                   pk_subroutine_only = s, pk_edit_start = after, pk_group = g\<rparr>)
      in if rune = CHR '';'' \<or> rune = CHR ''='' then
           kind BUXN_LS_MATCH_ANY_LABEL BUXN_LS_FORMAT_FULL_NAME False True
         else if rune = CHR ''!'' \<or> rune = CHR ''?'' then
           kind BUXN_LS_MATCH_ANY_LABEL BUXN_LS_FORMAT_FULL_NAME True True
         else if rune = CHR ''.'' \<or> rune = CHR ''-'' then
           kind BUXN_LS_MATCH_ZERO_LABEL BUXN_LS_FORMAT_FULL_NAME False True
         else if rune = CHR '','' \<or> rune = CHR ''_'' then
           kind BUXN_LS_MATCH_LOCAL_LABEL BUXN_LS_FORMAT_FULL_NAME False False
         else if rune = CHR ''/'' then
           kind BUXN_LS_MATCH_SUB_LABEL BUXN_LS_FORMAT_LOCAL_NAME True False
         else if rune = CHR ''&'' then None
         else if rune = CHR ''|'' \<or> rune = CHR ''$'' then
           kind BUXN_LS_MATCH_PRECEDING_LABEL BUXN_LS_FORMAT_FULL_NAME False True
         else Some \<lparr>pk_match = BUXN_LS_MATCH_ANY_SYMBOL, pk_format = BUXN_LS_FORMAT_FULL_NAME,
                pk_prefix = cc_prefix ctx, pk_subroutine_only = True,
                pk_edit_start = cc_prefix_start_byte ctx, pk_group = True\<rparr>)"

definition char_at :: "string \<Rightarrow> int \<Rightarrow> char outcome" where
  "char_at bytes i =
     (if 0 \<le> i \<and> i < int (length bytes) then Inr (bytes ! nat i) else Inl Out_of_bounds)"

text \<open>The loop that looks for a slash in the bytes \<open>i .. i + n - 1\<close> of the line.\<close>

primrec find_slash :: "nat \<Rightarrow> string \<Rightarrow> int \<Rightarrow> int option outcome" where
  "find_slash 0 bytes i = Inr None"
| "find_slash (Suc n) bytes i =
     obind (char_at bytes i) (\<lambda>ch.
       if ch = CHR ''/'' then Inr (Some i) else find_slash n bytes (i + 1))"

definition refine_kind :: "completion_ctx \<Rightarrow> prefix_kind \<Rightarrow> prefix_kind outcome" where
  "refine_kind ctx k =
     (if pk_match k \<noteq> BUXN_LS_MATCH_ANY_SYMBOL \<and> length (cc_prefix ctx) \<ge> 2 \<and>
         (cc_prefix ctx ! 1 = CHR ''&'' \<or> cc_prefix ctx ! 1 = CHR ''/'')
      then Inr (k\<lparr>pk_match := BUXN_LS_MATCH_SUB_LABEL, pk_format := BUXN_LS_FORMAT_LOCAL_NAME,
             pk_prefix := buxn_ls_str_pop_front (pk_prefix k),
             pk_edit_start := cc_prefix_start_byte ctx + 2, pk_group := False\<rparr>)
      else obind (find_slash (nat (cc_prefix_end_byte ctx - (cc_prefix_start_byte ctx + 1)))
                    (fst (cc_line_content ctx)) (cc_prefix_start_byte ctx + 1)) (\<lambda>slash.
           case slash of
             None \<Rightarrow> Inr k
           | Some i \<Rightarrow> Inr (k\<lparr>pk_format := BUXN_LS_FORMAT_LOCAL_NAME, pk_edit_start := i + 1,
                          pk_group := False\<rparr>)))"

text \<open>The label that starts last among those that start before the prefix.\<close>

definition recent_label_step ::
    "analyzer_ctx \<Rightarrow> lsp_position \<Rightarrow> nat \<Rightarrow> nat option \<times> lsp_position \<Rightarrow> nat option \<times> lsp_position" where
  "recent_label_step cx before n s =
     (case s of (recent, pos) \<Rightarrow>
        (let def = cx_sym_nodes cx ! n; sym_start = r_start (sy_range def)
         in if sy_type def \<noteq> BUXN_ASM_SYM_LABEL then s
            else if bio_lsp_cmp_pos sym_start pos > 0 \<and> bio_lsp_cmp_pos sym_start before < 0
            then (Some n, sym_start) else s))"

definition most_recent_label :: "analyzer_ctx \<Rightarrow> completion_ctx \<Rightarrow> nat option" where
  "most_recent_label cx ctx =
     fst (fold (recent_label_step cx (r_start (cc_lsp_range ctx)))
       (sn_definitions (cx_src_nodes cx ! cc_source ctx))
       (None, \<lparr>p_line = -1, p_character = -1\<rparr>))"

definition completion_scope :: "analyzer_ctx \<Rightarrow> completion_ctx \<Rightarrow> string" where
  "completion_scope cx ctx =
     (case most_recent_label cx ctx of
        None \<Rightarrow> ''RESET''
      | Some n \<Rightarrow> buxn_ls_label_scope (sy_name (cx_sym_nodes cx ! n)))"

definition completion_filter :: "completion_ctx \<Rightarrow> prefix_kind \<Rightarrow> string \<Rightarrow> sym_filter" where
  "completion_filter ctx k scope =
     (let filt = \<lparr>fl_labels_only = True, fl_preceding_labels = False,
            fl_subroutine_only = pk_subroutine_only k, fl_prefix_pos = r_start (cc_lsp_range ctx),
            fl_addr_min = 0, fl_addr_max = 0xffff, fl_prefix = pk_prefix k\<rparr>
      in case pk_match k of
           BUXN_LS_MATCH_ANY_SYMBOL \<Rightarrow> filt\<lparr>fl_labels_only := False\<rparr>
         | BUXN_LS_MATCH_LOCAL_LABEL \<Rightarrow> filt\<lparr>fl_prefix := scope\<rparr>
         | BUXN_LS_MATCH_SUB_LABEL \<Rightarrow>
             filt\<lparr>fl_prefix := cstr scope @ ''/'' @ cstr (fl_prefix filt)\<rparr>
         | BUXN_LS_MATCH_ANY_LABEL \<Rightarrow> filt
         | BUXN_LS_MATCH_ZERO_LABEL \<Rightarrow> filt\<lparr>fl_addr_max := 0x00ff\<rparr>
         | BUXN_LS_MATCH_PRECEDING_LABEL \<Rightarrow> filt\<lparr>fl_preceding_labels := True\<rparr>)"

section \<open>The completion list\<close>

text \<open>\<open>%0<w>x\<close>.\<close>

fun hex_digits :: "nat \<Rightarrow> string" where
  "hex_digits n =
     (let d = [char_of (if n mod 16 < 10 then 48 + n mod 16 else 87 + n mod 16)]
      in if n < 16 then d else hex_digits (n div 16) @ d)"

declare hex_digits.simps [simp del]

definition hex_pad :: "nat \<Rightarrow> nat \<Rightarrow> string" where
  "hex_pad w n = replicate (w - length (hex_digits n)) (CHR ''0'') @ hex_digits n"

definition completion_kind :: "symbol_semantics \<Rightarrow> int" where
  "completion_kind sem =
     (case sem of
        BUXN_LS_SYMBOL_AS_VARIABLE \<Rightarrow> 6
      | BUXN_LS_SYMBOL_AS_SUBROUTINE \<Rightarrow> 3
      | BUXN_LS_SYMBOL_AS_DEVICE_PORT \<Rightarrow> 21
      | BUXN_LS_SYMBOL_AS_ENUM \<Rightarrow> 20)"

definition sort_key :: "completion_item \<Rightarrow> u16 \<Rightarrow> string \<Rightarrow> string" where
  "sort_key item address name =
     (if ci_is_local item then ''0'' else ''1'') @ '':'' @ hex_pad 4 (unat address) @ '':'' @ cstr name"

definition text_edit :: "string \<Rightarrow> lsp_range \<Rightarrow> json" where
  "text_edit new_text edit_range =
     JObj [(''newText'', JStr new_text), (''range'', JObj (buxn_ls_serialize_lsp_range edit_range))]"

definition symbol_detail :: "sym_node \<Rightarrow> json option" where
  "symbol_detail sy =
     (if sy_semantics sy = BUXN_LS_SYMBOL_AS_SUBROUTINE then
        (if length (sy_signature sy) > 0
         then Some (JStr (''( '' @ cstr (sy_signature sy) @ '' )'')) else None)
      else if sy_address sy \<le> 0x00ff then Some (JStr (''|0x'' @ hex_pad 2 (unat (sy_address sy))))
      else Some (JStr (''|0x'' @ hex_pad 4 (unat (sy_address sy)))))"

definition documentation_of :: "sym_node \<Rightarrow> json option" where
  "documentation_of sy =
     (if length (sy_documentation sy) > 0 then Some (JStr (sy_documentation sy)) else None)"

definition buxn_ls_serialize_completion_item_as_symbol ::
    "analyzer_ctx \<Rightarrow> completion_item \<Rightarrow> string \<Rightarrow> lsp_range \<Rightarrow> json" where
  "buxn_ls_serialize_completion_item_as_symbol cx item label edit_range =
     (let sy = cx_sym_nodes cx ! ci_sym item;
          ms = [(''label'', JStr label), (''filterText'', JStr label),
                (''insertTextFormat'', JInt 1), (''insertTextMode'', JInt 1),
                (''kind'', JInt (completion_kind (sy_semantics sy)))];
          ms1 = obj_add ms ''detail'' (symbol_detail sy);
          ms2 = obj_add ms1 ''documentation'' (documentation_of sy)
      in JObj (ms2 @ [(''textEdit'', text_edit label edit_range),
                      (''sortText'', JStr (sort_key item (sy_address sy) (sy_name sy)))]))"

definition serialize_group :: "analyzer_ctx \<Rightarrow> completion_item \<Rightarrow> lsp_range \<Rightarrow> json" where
  "serialize_group cx item edit_range =
     (let sy = cx_sym_nodes cx ! ci_sym item;
          scope = buxn_ls_label_scope (sy_name sy);
          is_root = buxn_ls_cstr_eq (sy_name sy) scope;
          label = cstr scope @ ''/'';
          ms = [(''label'', JStr label), (''filterText'', JStr scope),
                (''insertTextFormat'', JInt 1), (''insertTextMode'', JInt 1), (''kind'', JInt 9),
                (''detail'', JStr (''( '' @ decimal (ci_size item - (if is_root then 1 else 0)) @ '' symbols )''))];
          ms1 = obj_add ms ''documentation'' (if is_root then documentation_of sy else None)
      in JObj (ms1 @ [(''textEdit'', text_edit scope edit_range),
                      (''sortText'', JStr (sort_key item (sy_address sy) label))]))"

text \<open>The entries of the list that one candidate gives: none, one, or a symbol and its group.\<close>

definition format_candidate ::
    "analyzer_ctx \<Rightarrow> sym_format_type \<Rightarrow> lsp_range \<Rightarrow> completion_item \<Rightarrow> json list" where
  "format_candidate cx fmt edit_range item =
     (let sy = cx_sym_nodes cx ! ci_sym item;
          scope = buxn_ls_label_scope (sy_name sy);
          is_root = buxn_ls_cstr_eq (sy_name sy) scope;
          as_symbol = (\<lambda>label. buxn_ls_serialize_completion_item_as_symbol cx item label edit_range)
      in case fmt of
           BUXN_LS_FORMAT_FULL_NAME \<Rightarrow>
             if ci_is_local item then
               [as_symbol (if is_root then sy_name sy else drop (length scope) (sy_name sy))]
             else
               (if ci_size item = 1 \<or>
                   is_root \<and> sy_semantics sy \<noteq> BUXN_LS_SYMBOL_AS_ENUM \<and>
                   sy_semantics sy \<noteq> BUXN_LS_SYMBOL_AS_DEVICE_PORT
                then [as_symbol (sy_name sy)] else []) @
               (if ci_size item > 1 then [serialize_group cx item edit_range] else [])
         | BUXN_LS_FORMAT_LOCAL_NAME \<Rightarrow>
             if length scope + 1 < length (sy_name sy)
             then [as_symbol (drop (length scope + 1) (sy_name sy))] else [])"

definition collect_candidates ::
    "bhash_layout \<Rightarrow> analyzer_ctx \<Rightarrow> sym_visit_ctx \<Rightarrow> nat \<Rightarrow> completion_map outcome" where
  "collect_candidates lay cx ctx src_node =
     buxn_ls_visit_symbols_from_root (Suc (g_size (cx_src_graph cx))) (Suc (g_size (cx_src_graph cx)))
       lay cx ctx src_node []"

text \<open>The map that is passed in is the one of the request before; it is cleared before it is used.\<close>

definition buxn_ls_build_completion_list ::
    "utf8_iterate \<Rightarrow> bhash_layout \<Rightarrow> analyzer_ctx \<Rightarrow> completion_ctx \<Rightarrow> completion_map \<Rightarrow>
     (json option \<times> completion_map) outcome" where
  "buxn_ls_build_completion_list utf8 lay cx ctx cmap =
     (if length (cc_prefix ctx) = 0 then Inr (None, cmap)
      else case rune_kind ctx of
        None \<Rightarrow> Inr (None, cmap)
      | Some k0 \<Rightarrow>
          obind (refine_kind ctx k0) (\<lambda>k.
          let scope = completion_scope cx ctx;
              visit = \<lparr>vc_filter = completion_filter ctx k scope, vc_current_scope = scope,
                       vc_group_symbols = pk_group k\<rparr>
          in obind (collect_candidates lay cx visit (cc_source ctx)) (\<lambda>candidates.
             obind (or_diverge (bio_lsp_utf16_offset_from_byte_offset utf8
                 (fst (cc_line_content ctx)) (snd (cc_line_content ctx)) (pk_edit_start k))) (\<lambda>start.
             let edit_range = \<lparr>r_start = \<lparr>p_line = cc_line_number ctx, p_character = start\<rparr>,
                               r_end = r_end (cc_lsp_range ctx)\<rparr>;
                 items = concat (map (format_candidate cx (pk_format k) edit_range)
                           (bhash_values candidates))
             in Inr (Some (JObj [(''isIncomplete'', JBool False), (''items'', JArr items)]),
                     candidates)))))"

end
