(* ===== verification/Ls.thy ===== *)
theory Ls
  imports Completion
begin

text \<open>
  The language server (\<open>src/src/ls.c\<close>): its state, the messages it builds, the request handlers
  and the dispatch of messages.

  Handlers return the JSON value of the reply (\<open>None\<close>: \<open>NULL\<close>, sent as \<open>null\<close>) and the new
  state. The timer of \<open>bio\<close> is a flag: whether it is pending.
\<close>

section \<open>State\<close>

type_synonym str_set = "(string, unit) bhash"

record buxn_ls_ctx =
  lc_out :: out_channel
  lc_should_terminate :: bool
  lc_name_buf :: string
  lc_workspace :: buxn_ls_workspace
  lc_timer_pending :: bool
  lc_analyzer :: analyzer
  lc_completion_map :: completion_map
  lc_currently_diagnosed :: str_set
  lc_previously_diagnosed :: str_set

text \<open>The libraries: \<open>yyjson\<close>, \<open>libyuarel\<close>, those of the analyzer, the root of the document
  \<open>initialize.json\<close> that the build embeds, and \<open>yyjson_read_max_memory_usage\<close> for in-situ reads.\<close>

record ls_api =
  la_yy :: json_api
  la_yuarel :: yuarel_parse
  la_asm :: asm_api
  la_initialize_json :: "json option"
  la_json_memory :: "nat \<Rightarrow> nat"

abbreviation la_layout :: "ls_api \<Rightarrow> bhash_layout" where
  "la_layout api \<equiv> aa_layout (la_asm api)"

abbreviation la_utf8 :: "ls_api \<Rightarrow> utf8_iterate" where
  "la_utf8 api \<equiv> aa_utf8 (la_asm api)"

section \<open>Messages out\<close>

definition buxn_ls_begin_msg :: "bio_lsp_msg_type \<Rightarrow> bio_lsp_in_msg option \<Rightarrow> bio_lsp_out_msg outcome" where
  "buxn_ls_begin_msg type in_msg =
     (let blank = \<lparr>out_type = type, out_id = None, out_method = None, out_value = None\<rparr>
      in if type = BIO_LSP_MSG_RESULT \<or> type = BIO_LSP_MSG_ERROR
         then (case in_msg of None \<Rightarrow> Inl Null_deref | Some m \<Rightarrow> Inr (blank\<lparr>out_id := in_id m\<rparr>))
         else Inr blank)"

definition buxn_ls_end_msg :: "ls_api \<Rightarrow> bio_lsp_out_msg \<Rightarrow> buxn_ls_ctx \<Rightarrow> (bool \<times> buxn_ls_ctx) outcome" where
  "buxn_ls_end_msg api msg ctx =
     obind (bio_lsp_send_msg (la_yy api) msg (lc_out ctx)) (\<lambda>(success, ch).
     Inr (success, ctx\<lparr>lc_out := ch\<rparr>))"

section \<open>Looking up what a request is about\<close>

text \<open>The path below the root of the document that a request names.\<close>

definition request_path :: "ls_api \<Rightarrow> buxn_ls_ctx \<Rightarrow> json option \<Rightarrow> string option outcome" where
  "request_path api ctx request =
     (let yy = la_yy api
      in case yy_get_cstr yy (yy_obj_get yy (yy_obj_get yy request ''textDocument'') ''uri'') of
           None \<Rightarrow> Inr None
         | Some uri \<Rightarrow> buxn_ls_workspace_resolve_path (la_yuarel api) (lc_workspace ctx) (Some uri))"

definition request_source :: "ls_api \<Rightarrow> buxn_ls_ctx \<Rightarrow> json option \<Rightarrow> nat option outcome" where
  "request_source api ctx request =
     obind (request_path api ctx request) (\<lambda>path.
       case path of
         None \<Rightarrow> Inr None
       | Some p \<Rightarrow> Inr (bhash_get (cx_sources (an_current (lc_analyzer ctx))) p))"

definition request_position :: "ls_api \<Rightarrow> json option \<Rightarrow> int \<times> int" where
  "request_position api request =
     (let yy = la_yy api; position = yy_obj_get yy request ''position''
      in (yy_get_int yy (yy_obj_get yy position ''line''),
          yy_get_int yy (yy_obj_get yy position ''character'')))"

definition covers_position :: "sym_node \<Rightarrow> int \<times> int \<Rightarrow> bool" where
  "covers_position sy pos \<longleftrightarrow>
     (case pos of (line, character) \<Rightarrow>
        p_line (r_start (sy_range sy)) \<le> line \<and> line \<le> p_line (r_end (sy_range sy)) \<and>
        p_character (r_start (sy_range sy)) \<le> character \<and>
        character < p_character (r_end (sy_range sy)))"

text \<open>The first symbol of a list that covers the position.\<close>

fun find_covering :: "analyzer_ctx \<Rightarrow> int \<times> int \<Rightarrow> nat list \<Rightarrow> nat option" where
  "find_covering cx pos [] = None"
| "find_covering cx pos (n # ns) =
     (if covers_position (cx_sym_nodes cx ! n) pos then Some n else find_covering cx pos ns)"

definition buxn_ls_find_definition :: "ls_api \<Rightarrow> buxn_ls_ctx \<Rightarrow> json option \<Rightarrow> nat option outcome" where
  "buxn_ls_find_definition api ctx text_document_position =
     obind (request_source api ctx text_document_position) (\<lambda>node.
       case node of
         None \<Rightarrow> Inr None
       | Some n \<Rightarrow>
           (let cx = an_current (lc_analyzer ctx)
            in case find_covering cx (request_position api text_document_position)
                      (sn_references (cx_src_nodes cx ! n)) of
                 None \<Rightarrow> Inr None
               | Some r \<Rightarrow>
                   (case out_nodes (cx_sym_graph cx) r of
                      [] \<Rightarrow> Inr None
                    | d # _ \<Rightarrow> Inr (Some d))))"

section \<open>The request handlers\<close>

type_synonym handler =
  "ls_api \<Rightarrow> json option \<Rightarrow> buxn_ls_ctx \<Rightarrow> (json option \<times> buxn_ls_ctx) outcome"

definition sym_uri :: "analyzer_ctx \<Rightarrow> sym_node \<Rightarrow> string" where
  "sym_uri cx sy = sn_uri (cx_src_nodes cx ! sy_source sy)"

definition sym_location :: "analyzer_ctx \<Rightarrow> nat \<Rightarrow> json" where
  "sym_location cx n =
     (let sy = cx_sym_nodes cx ! n
      in JObj [(''uri'', JStr (sym_uri cx sy)),
               (''range'', JObj (buxn_ls_serialize_lsp_range (sy_range sy)))])"

definition buxn_ls_handle_find_definition :: handler where
  "buxn_ls_handle_find_definition api request ctx =
     obind (buxn_ls_find_definition api ctx request) (\<lambda>def.
     Inr (map_option (sym_location (an_current (lc_analyzer ctx))) def, ctx))"

definition buxn_ls_handle_find_references :: handler where
  "buxn_ls_handle_find_references api request ctx =
     obind (request_source api ctx request) (\<lambda>node.
       case node of
         None \<Rightarrow> Inr (None, ctx)
       | Some n \<Rightarrow>
           (let cx = an_current (lc_analyzer ctx)
            in case find_covering cx (request_position api request)
                      (sn_definitions (cx_src_nodes cx ! n)) of
                 None \<Rightarrow> Inr (None, ctx)
               | Some d \<Rightarrow>
                   Inr (Some (JArr (map (sym_location cx) (in_nodes (cx_sym_graph cx) d))), ctx)))"

definition hover_text :: "analyzer_ctx \<Rightarrow> sym_node \<Rightarrow> string" where
  "hover_text cx def =
     (let signature_line =
            (if length (sy_signature def) > 0 then ''( '' @ cstr (sy_signature def) @ '' )'' else [])
      in cstr (sy_name def) @ '' '' @ signature_line @ [LF] @
         ''Defined in: '' @ sn_filename (cx_src_nodes cx ! sy_source def) @ [LF] @ [LF] @
         cstr (sy_documentation def))"

definition buxn_ls_handle_hover :: handler where
  "buxn_ls_handle_hover api request ctx =
     obind (buxn_ls_find_definition api ctx request) (\<lambda>def.
       case def of
         None \<Rightarrow> Inr (None, ctx)
       | Some d \<Rightarrow>
           (let cx = an_current (lc_analyzer ctx); sy = cx_sym_nodes cx ! d
            in obind (buxn_ls_workspace_resolve_path (la_yuarel api) (lc_workspace ctx)
                        (Some (sym_uri cx sy))) (\<lambda>path.
               case path of
                 None \<Rightarrow> Inr (None, ctx)
               | Some p \<Rightarrow>
                   Inr (Some (JObj
                     [(''contents'', JObj [(''kind'', JStr ''plaintext''), (''value'', JStr (hover_text cx sy))]),
                      (''range'', JObj (buxn_ls_serialize_lsp_range (sy_range sy)))]), ctx))))"

definition buxn_ls_convert_symbol_semantics :: "symbol_semantics \<Rightarrow> int" where
  "buxn_ls_convert_symbol_semantics semantics =
     (case semantics of
        BUXN_LS_SYMBOL_AS_VARIABLE \<Rightarrow> 8
      | BUXN_LS_SYMBOL_AS_SUBROUTINE \<Rightarrow> 12
      | BUXN_LS_SYMBOL_AS_DEVICE_PORT \<Rightarrow> 14
      | BUXN_LS_SYMBOL_AS_ENUM \<Rightarrow> 22)"

definition doc_symbol :: "analyzer_ctx \<Rightarrow> nat \<Rightarrow> json" where
  "doc_symbol cx n =
     (let sy = cx_sym_nodes cx ! n
      in JObj [(''name'', JStr (sy_name sy)),
               (''kind'', JInt (buxn_ls_convert_symbol_semantics (sy_semantics sy))),
               (''range'', JObj (buxn_ls_serialize_lsp_range (sy_range sy))),
               (''selectionRange'', JObj (buxn_ls_serialize_lsp_range (sy_range sy)))])"

definition buxn_ls_handle_list_doc_symbols :: handler where
  "buxn_ls_handle_list_doc_symbols api request ctx =
     obind (request_source api ctx request) (\<lambda>node.
       case node of
         None \<Rightarrow> Inr (None, ctx)
       | Some n \<Rightarrow>
           (let cx = an_current (lc_analyzer ctx)
            in Inr (Some (JArr (map (doc_symbol cx) (sn_definitions (cx_src_nodes cx ! n)))), ctx)))"

text \<open>\<open>strncmp(name, query, query_len)\<close>: symbol names are C strings, compared up to their NUL.\<close>

definition matches_query :: "string \<Rightarrow> sym_node \<Rightarrow> bool" where
  "matches_query query sy = strncmp_eq (cstr (sy_name sy)) query (length query)"

definition workspace_symbol :: "analyzer_ctx \<Rightarrow> nat \<Rightarrow> json" where
  "workspace_symbol cx n =
     (let sy = cx_sym_nodes cx ! n
      in JObj [(''name'', JStr (sy_name sy)),
               (''kind'', JInt (buxn_ls_convert_symbol_semantics (sy_semantics sy))),
               (''location'', sym_location cx n)])"

definition buxn_ls_handle_list_workspace_symbols :: handler where
  "buxn_ls_handle_list_workspace_symbols api request ctx =
     (let yy = la_yy api
      in case yy_get_cstr yy (yy_obj_get yy request ''query'') of
           None \<Rightarrow> Inr (None, ctx)
         | Some query \<Rightarrow>
             (let cx = an_current (lc_analyzer ctx);
                  syms = concat (map (\<lambda>src. filter (\<lambda>n. matches_query query (cx_sym_nodes cx ! n))
                           (sn_definitions (cx_src_nodes cx ! src))) (bhash_values (cx_sources cx)))
              in Inr (Some (JArr (map (workspace_symbol cx) syms)), ctx)))"

text \<open>The loop that walks back from the cursor to a blank; the result is its final
  \<open>completion_start\<close>.\<close>

fun completion_start :: "string \<Rightarrow> nat \<Rightarrow> nat outcome" where
  "completion_start bytes 0 = Inr 0"
| "completion_start bytes (Suc i) =
     obind (char_at bytes (int i)) (\<lambda>ch.
       if ch = CHR '' '' \<or> ch = TAB then Inr (Suc i) else completion_start bytes i)"

text \<open>The part of the handler that works on the line of the cursor, a pointer and a length.\<close>

definition complete_in_line ::
    "ls_api \<Rightarrow> string \<Rightarrow> int \<Rightarrow> int \<Rightarrow> string \<Rightarrow> nat \<Rightarrow> buxn_ls_ctx \<Rightarrow>
     (json option \<times> buxn_ls_ctx) outcome" where
  "complete_in_line api path line character bytes len ctx =
     obind (or_diverge (bio_lsp_byte_offset_from_utf16_offset (la_utf8 api) bytes len character))
       (\<lambda>byte_offset.
     obind (completion_start bytes (nat byte_offset)) (\<lambda>start.
     if nat byte_offset - start = 0 then Inr (None, ctx)
     else
       (case bhash_get (cx_sources (an_current (lc_analyzer ctx))) path of
          None \<Rightarrow> Inr (None, ctx)
        | Some src_node \<Rightarrow>
            obind (or_diverge (bio_lsp_utf16_offset_from_byte_offset (la_utf8 api) bytes len (int start)))
              (\<lambda>start_char.
            let cctx = \<lparr>cc_source = src_node, cc_line_content = (bytes, len),
                  cc_prefix = take (nat byte_offset - start) (drop start bytes),
                  cc_lsp_range = \<lparr>r_start = \<lparr>p_line = line, p_character = start_char\<rparr>,
                                  r_end = \<lparr>p_line = line, p_character = character\<rparr>\<rparr>,
                  cc_line_number = line, cc_prefix_start_byte = int start,
                  cc_prefix_end_byte = byte_offset\<rparr>
            in obind (buxn_ls_build_completion_list (la_utf8 api) (la_layout api)
                   (an_current (lc_analyzer ctx)) cctx (lc_completion_map ctx)) (\<lambda>(result, cmap).
               Inr (result, ctx\<lparr>lc_timer_pending := False, lc_completion_map := cmap\<rparr>))))))"

definition buxn_ls_handle_completion :: handler where
  "buxn_ls_handle_completion api request ctx =
     obind (request_path api ctx request) (\<lambda>path.
       case path of
         None \<Rightarrow> Inr (None, ctx)
       | Some p \<Rightarrow>
           (case bhash_get (docs (lc_workspace ctx)) p of
              None \<Rightarrow> Inr (None, ctx)
            | Some doc_content \<Rightarrow>
                (case request_position api request of (line, character) \<Rightarrow>
                   (let lines = buxn_ls_split_file doc_content
                    in if line \<ge> int (length lines) then Inr (None, ctx)
                       else if line < 0 then Inl Out_of_bounds
                       else (case lines ! nat line of (off, len) \<Rightarrow>
                         complete_in_line api p line character (drop off doc_content) len ctx)))))"

definition buxn_ls_handle_shutdown :: handler where
  "buxn_ls_handle_shutdown api request ctx = Inr (None, ctx\<lparr>lc_timer_pending := False\<rparr>)"

section \<open>Dispatch\<close>

definition BUXN_LS_REQUEST_HANDLERS :: "(string \<times> handler) list" where
  "BUXN_LS_REQUEST_HANDLERS =
     [(''shutdown'', buxn_ls_handle_shutdown),
      (''textDocument/definition'', buxn_ls_handle_find_definition),
      (''textDocument/references'', buxn_ls_handle_find_references),
      (''textDocument/hover'', buxn_ls_handle_hover),
      (''textDocument/documentSymbol'', buxn_ls_handle_list_doc_symbols),
      (''textDocument/completion'', buxn_ls_handle_completion),
      (''workspace/symbol'', buxn_ls_handle_list_workspace_symbols)]"

definition handle_request :: "ls_api \<Rightarrow> bio_lsp_in_msg \<Rightarrow> buxn_ls_ctx \<Rightarrow> buxn_ls_ctx outcome" where
  "handle_request api in_msg ctx =
     (case in_method in_msg of
        None \<Rightarrow> Inl Null_deref
      | Some meth \<Rightarrow>
     (case map_of BUXN_LS_REQUEST_HANDLERS meth of
        Some request_handler \<Rightarrow>
          obind (buxn_ls_begin_msg BIO_LSP_MSG_RESULT (Some in_msg)) (\<lambda>reply.
          obind (request_handler api (in_value in_msg) ctx) (\<lambda>(reply_value, ctx1).
          obind (buxn_ls_end_msg api
            (reply\<lparr>out_value := Some (case reply_value of None \<Rightarrow> JNull | Some v \<Rightarrow> v)\<rparr>) ctx1)
            (\<lambda>(success, ctx2). Inr ctx2)))
      | None \<Rightarrow>
          obind (buxn_ls_begin_msg BIO_LSP_MSG_ERROR (Some in_msg)) (\<lambda>reply.
          obind (buxn_ls_end_msg api
            (reply\<lparr>out_value := Some (JObj [(''code'', JInt (- 32601)),
                                            (''message'', JStr ''Method not found'')])\<rparr>) ctx)
            (\<lambda>(success, ctx1). Inr ctx1))))"

definition handle_notification :: "ls_api \<Rightarrow> bio_lsp_in_msg \<Rightarrow> buxn_ls_ctx \<Rightarrow> buxn_ls_ctx outcome" where
  "handle_notification api in_msg ctx =
     (case in_method in_msg of
        None \<Rightarrow> Inl Null_deref
      | Some meth \<Rightarrow>
          if meth = ''exit'' then Inr (ctx\<lparr>lc_should_terminate := True\<rparr>)
          else if strncmp_eq meth ''textDocument/'' (length ''textDocument/'') then
            obind (buxn_ls_workspace_update (la_yy api) (la_yuarel api) (la_layout api)
                (lc_workspace ctx) in_msg) (\<lambda>ws.
            Inr (ctx\<lparr>lc_workspace := ws, lc_timer_pending := True\<rparr>))
          else Inr ctx)"

definition buxn_ls_handle_msg :: "ls_api \<Rightarrow> bio_lsp_in_msg \<Rightarrow> buxn_ls_ctx \<Rightarrow> buxn_ls_ctx outcome" where
  "buxn_ls_handle_msg api in_msg ctx =
     (case in_type in_msg of
        BIO_LSP_MSG_REQUEST \<Rightarrow> handle_request api in_msg ctx
      | BIO_LSP_MSG_NOTIFICATION \<Rightarrow> handle_notification api in_msg ctx
      | _ \<Rightarrow> Inr ctx)"

end
