(* ===== verification/Ls_Main.thy ===== *)
theory Ls_Main
  imports Ls
begin

text \<open>
  The rest of \<open>src/src/ls.c\<close>: the publication of diagnostics after an analysis, the start of a
  session, the reception of messages, and the three loops of \<open>buxn_ls\<close> as a state machine.

  The timer callback runs without interruption here; in the program it is a coroutine of its own, and
  \<open>Ls_Async\<close> takes it apart.
\<close>

section \<open>Publishing diagnostics (\<open>buxn_ls_analyze_workspace\<close>)\<close>

definition opt_str :: "string option \<Rightarrow> json option" where
  "opt_str s = map_option JStr s"

definition publish_msg :: "string option \<Rightarrow> json list \<Rightarrow> bio_lsp_out_msg" where
  "publish_msg uri items =
     \<lparr>out_type = BIO_LSP_MSG_NOTIFICATION, out_id = None,
      out_method = Some ''textDocument/publishDiagnostics'',
      out_value = Some (JObj (obj_add [] ''uri'' (opt_str uri) @ [(''diagnostics'', JArr items)]))\<rparr>"

definition related_json :: "diagnostic \<Rightarrow> json option" where
  "related_json diag =
     (case dg_related_message diag of
        None \<Rightarrow> None
      | Some msg \<Rightarrow>
          Some (JArr [JObj [(''message'', JStr msg),
            (''location'', JObj (obj_add [] ''uri'' (opt_str (l_uri (dg_location diag))) @
               [(''range'', JObj (buxn_ls_serialize_lsp_range (l_range (dg_related_location diag))))]))]]))"

definition diag_json :: "diagnostic \<Rightarrow> json" where
  "diag_json diag =
     JObj (obj_add
       [(''source'', JStr (dg_source diag)), (''message'', JStr (dg_message diag)),
        (''severity'', JInt (dg_severity diag)),
        (''range'', JObj (buxn_ls_serialize_lsp_range (l_range (dg_location diag))))]
       ''relatedInformation'' (related_json diag))"

text \<open>
  The loop's state: the server, \<open>last_uri\<close>, and the message under construction (\<open>None\<close> while
  \<open>msg.method\<close> is \<open>NULL\<close>). URIs are compared by address in the code: those of the diagnostics are
  the URIs of source nodes, one string per file, so that is a comparison of their texts. A
  diagnostic without a URI while no message is under construction is added to no document.
\<close>

record publish_state =
  ps_ctx :: buxn_ls_ctx
  ps_last_uri :: "string option"
  ps_msg :: "(string option \<times> json list) option"

definition move_uri :: "bhash_layout \<Rightarrow> string \<Rightarrow> buxn_ls_ctx \<Rightarrow> buxn_ls_ctx" where
  "move_uri lay uri ctx =
     ctx\<lparr>lc_previously_diagnosed := bhash_remove lay (lc_previously_diagnosed ctx) uri,
         lc_currently_diagnosed := bhash_put lay (lc_currently_diagnosed ctx) uri ()\<rparr>"

definition flush_publish :: "ls_api \<Rightarrow> publish_state \<Rightarrow> (bool \<times> publish_state) outcome" where
  "flush_publish api ps =
     (case ps_msg ps of
        None \<Rightarrow> Inr (True, ps)
      | Some (uri, items) \<Rightarrow>
          obind (buxn_ls_end_msg api (publish_msg uri items) (ps_ctx ps)) (\<lambda>(success, ctx).
          Inr (success, ps\<lparr>ps_ctx := ctx, ps_msg := None\<rparr>)))"

definition add_diag :: "diagnostic \<Rightarrow> publish_state \<Rightarrow> publish_state" where
  "add_diag diag ps =
     (case ps_msg ps of
        None \<Rightarrow> ps
      | Some (uri, items) \<Rightarrow> ps\<lparr>ps_msg := Some (uri, items @ [diag_json diag])\<rparr>)"

fun publish_loop :: "ls_api \<Rightarrow> diagnostic list \<Rightarrow> publish_state \<Rightarrow> publish_state outcome" where
  "publish_loop api [] ps = Inr ps"
| "publish_loop api (diag # diags) ps =
     (if l_uri (dg_location diag) \<noteq> ps_last_uri ps then
        (case l_uri (dg_location diag) of
           None \<Rightarrow> Inl Null_deref
         | Some uri \<Rightarrow>
             (let ps1 = ps\<lparr>ps_ctx := move_uri (la_layout api) uri (ps_ctx ps)\<rparr>
              in obind (flush_publish api ps1) (\<lambda>(success, ps2).
                 if \<not> success then Inr ps2
                 else publish_loop api diags
                   (add_diag diag (ps2\<lparr>ps_msg := Some (Some uri, []), ps_last_uri := Some uri\<rparr>)))))
      else publish_loop api diags (add_diag diag ps))"

definition unpublish :: "ls_api \<Rightarrow> string \<Rightarrow> buxn_ls_ctx \<Rightarrow> buxn_ls_ctx outcome" where
  "unpublish api uri ctx =
     obind (buxn_ls_end_msg api (publish_msg (Some uri) []) ctx) (\<lambda>(success, ctx1). Inr ctx1)"

definition publish_diagnostics :: "ls_api \<Rightarrow> buxn_ls_ctx \<Rightarrow> buxn_ls_ctx outcome" where
  "publish_diagnostics api ctx =
     obind (publish_loop api (an_diagnostics (lc_analyzer ctx))
       \<lparr>ps_ctx = ctx, ps_last_uri = None, ps_msg = None\<rparr>) (\<lambda>ps.
     obind (flush_publish api ps) (\<lambda>(success, ps1).
     obind (ofold (unpublish api) (bhash_keys (lc_previously_diagnosed (ps_ctx ps1))) (ps_ctx ps1))
       (\<lambda>ctx1.
     Inr (ctx1\<lparr>lc_previously_diagnosed := lc_currently_diagnosed ctx1,
               lc_currently_diagnosed := []\<rparr>))))"

definition buxn_ls_analyze_workspace :: "ls_api \<Rightarrow> buxn_ls_ctx \<Rightarrow> buxn_ls_ctx outcome" where
  "buxn_ls_analyze_workspace api ctx =
     obind (buxn_ls_analyze (la_asm api) (lc_workspace ctx) (lc_analyzer ctx)) (\<lambda>a.
     publish_diagnostics api (ctx\<lparr>lc_analyzer := a\<rparr>))"

section \<open>Initialisation\<close>

text \<open>\<open>snprintf(name_buf, sizeof("ls:2147483647"), "ls:%d", pid)\<close>.\<close>

definition decimal_int :: "int \<Rightarrow> string" where
  "decimal_int i = (if i < 0 then ''-'' @ decimal (nat (- i)) else decimal (nat i))"

definition coro_name :: "int \<Rightarrow> string" where
  "coro_name pid = take 13 (''ls:'' @ decimal_int pid)"

text \<open>The path of a URI with the scheme \<open>file\<close>; the scheme is compared by \<open>strcmp\<close>. A path may be
  \<open>NULL\<close>, and then it counts as no root directory.\<close>

definition file_url_path :: "yuarel_parse \<Rightarrow> string option \<Rightarrow> string option outcome" where
  "file_url_path yuarel uri =
     (case uri of
        None \<Rightarrow> Inr None
      | Some u \<Rightarrow>
          (case yuarel (Some u) of
             None \<Rightarrow> Inr None
           | Some url \<Rightarrow>
               (case url_scheme url of
                  None \<Rightarrow> Inl Null_deref
                | Some scheme \<Rightarrow> if scheme = ''file'' then Inr (url_path url) else Inr None)))"

definition find_root_dir :: "ls_api \<Rightarrow> json option \<Rightarrow> string option outcome" where
  "find_root_dir api params =
     (let yy = la_yy api; folders = yy_obj_get yy params ''workspaceFolders''
      in obind (if yy_arr_size yy folders \<ge> 1
                then file_url_path (la_yuarel api)
                       (yy_get_cstr yy (yy_obj_get yy (yy_arr_first yy folders) ''uri''))
                else Inr None) (\<lambda>root1.
         obind (if root1 = None
                then file_url_path (la_yuarel api) (yy_get_cstr yy (yy_obj_get yy params ''rootUri''))
                else Inr root1) (\<lambda>root2.
         Inr (if root2 = None then yy_get_cstr yy (yy_obj_get yy params ''rootPath'') else root2))))"

definition buxn_ls_initialize ::
    "ls_api \<Rightarrow> bio_lsp_in_msg \<Rightarrow> buxn_ls_ctx \<Rightarrow> (bool \<times> buxn_ls_ctx) outcome" where
  "buxn_ls_initialize api msg ctx =
     (let yy = la_yy api;
          pid = yy_get_int yy (yy_obj_get yy (in_value msg) ''processId'');
          ctx1 = ctx\<lparr>lc_name_buf := coro_name pid, lc_analyzer := buxn_ls_analyzer_init,
                   lc_completion_map := [], lc_currently_diagnosed := [],
                   lc_previously_diagnosed := []\<rparr>
      in obind (find_root_dir api (in_value msg)) (\<lambda>root_dir.
         case root_dir of
           None \<Rightarrow>
             obind (buxn_ls_begin_msg BIO_LSP_MSG_ERROR (Some msg)) (\<lambda>reply.
             obind (buxn_ls_end_msg api
                (reply\<lparr>out_value := Some (JObj [(''code'', JInt (- 32602)),
                   (''message'', JStr ''Root path was not provided'')])\<rparr>) ctx1) (\<lambda>(success, ctx2).
             Inr (False, ctx2)))
         | Some root \<Rightarrow>
             (let ctx2 = ctx1\<lparr>lc_workspace := buxn_ls_workspace_init root\<rparr>
              in obind (buxn_ls_begin_msg BIO_LSP_MSG_RESULT (Some msg)) (\<lambda>reply.
                 obind (buxn_ls_end_msg api (reply\<lparr>out_value := la_initialize_json api\<rparr>) ctx2)
                   (\<lambda>(success, ctx3). Inr (True, ctx3))))))"

text \<open>What cleanup leaves: no timer, and nothing in the tables.\<close>

definition buxn_ls_cleanup :: "buxn_ls_ctx \<Rightarrow> buxn_ls_ctx" where
  "buxn_ls_cleanup ctx =
     ctx\<lparr>lc_timer_pending := False, lc_currently_diagnosed := [], lc_previously_diagnosed := [],
         lc_workspace := (lc_workspace ctx)\<lparr>docs := []\<rparr>, lc_completion_map := [],
         lc_analyzer := buxn_ls_analyzer_init\<rparr>"

section \<open>Receiving a message\<close>

text \<open>
  The buffer of the receiver has \<open>size\<close> bytes. It is replaced by one of the size that the header
  asks for where that is more than it has; sizes are added as \<open>size_t\<close>. Bytes are stored as they
  arrive, so storing more than the buffer holds is a fault even if the peer stops early.
\<close>

definition buxn_ls_recv_msg ::
    "ls_api \<Rightarrow> string \<Rightarrow> nat \<Rightarrow> bio_lsp_in_msg \<Rightarrow>
     (nat \<times> (bio_lsp_error + bio_lsp_in_msg \<times> string)) outcome" where
  "buxn_ls_recv_msg api in_buf buf_size msg =
     (case bio_lsp_recv_msg_header in_buf of
        Inl e \<Rightarrow> Inr (buf_size, Inl e)
      | Inr (content_length, rest) \<Rightarrow>
          (let required = (la_json_memory api content_length + content_length) mod 2 ^ 64;
               size = (if required > buf_size then required else buf_size)
           in if min (length rest) content_length > size then Inl Out_of_bounds
              else if length rest < content_length then Inr (size, Inl Bio_io_error)
              else case bio_lsp_parse_msg (la_yy api) (take content_length rest) msg of
                     Inl e \<Rightarrow> Inr (size, Inl e)
                   | Inr msg' \<Rightarrow> Inr (size, Inr (msg', drop content_length rest))))"

section \<open>The server as a state machine (\<open>buxn_ls\<close>)\<close>

datatype phase =
    Await_initialize
  | Await_initialized
  | Serving
  | Ended int  \<comment> \<open>the exit code\<close>

record server =
  sv_phase :: phase
  sv_in :: string
  sv_buf_size :: nat
  sv_msg :: bio_lsp_in_msg
  sv_ctx :: buxn_ls_ctx

definition server_start :: "string \<Rightarrow> out_channel \<Rightarrow> server" where
  "server_start input out =
     \<lparr>sv_phase = Await_initialize, sv_in = input, sv_buf_size = 0,
      sv_msg = \<lparr>in_type = BIO_LSP_MSG_REQUEST, in_id = None, in_method = None, in_value = None\<rparr>,
      sv_ctx = \<lparr>lc_out = out, lc_should_terminate = False, lc_name_buf = [],
        lc_workspace = \<lparr>root_dir = [], root_dir_len = 0, docs = []\<rparr>, lc_timer_pending = False,
        lc_analyzer = buxn_ls_analyzer_init, lc_completion_map = [], lc_currently_diagnosed = [],
        lc_previously_diagnosed = []\<rparr>\<rparr>"

text \<open>The label \<open>end\<close>: \<open>initialized\<close> is set in the third loop, and where the second is left for it.\<close>

definition end_session :: "bool \<Rightarrow> int \<Rightarrow> server \<Rightarrow> server" where
  "end_session initialized exit_code sv =
     sv\<lparr>sv_phase := Ended exit_code,
        sv_ctx := (if initialized then buxn_ls_cleanup (sv_ctx sv) else sv_ctx sv)\<rparr>"

definition await_initialize_turn :: "ls_api \<Rightarrow> server \<Rightarrow> server outcome" where
  "await_initialize_turn api sv =
     (let msg = sv_msg sv
      in case in_type msg of
           BIO_LSP_MSG_NOTIFICATION \<Rightarrow>
             Inr (if in_method msg = Some ''exit'' then end_session False 0 sv else sv)
         | BIO_LSP_MSG_REQUEST \<Rightarrow>
             if in_method msg = Some ''initialize'' then
               obind (buxn_ls_initialize api msg (sv_ctx sv)) (\<lambda>(success, ctx).
               let sv1 = sv\<lparr>sv_ctx := ctx\<rparr>
               in Inr (if success then sv1\<lparr>sv_phase := Await_initialized\<rparr> else end_session False 1 sv1))
             else Inr (end_session False 1 sv)
         | _ \<Rightarrow> Inr (end_session False 1 sv))"

definition await_initialized_turn :: "server \<Rightarrow> server" where
  "await_initialized_turn sv =
     (let msg = sv_msg sv
      in case in_type msg of
           BIO_LSP_MSG_NOTIFICATION \<Rightarrow>
             if in_method msg = Some ''exit'' then end_session False 0 sv
             else if in_method msg = Some ''initialized'' then sv\<lparr>sv_phase := Serving\<rparr>
             else sv
         | _ \<Rightarrow> end_session False 1 sv)"

definition serving_turn :: "ls_api \<Rightarrow> server \<Rightarrow> server outcome" where
  "serving_turn api sv =
     obind (buxn_ls_handle_msg api (sv_msg sv) (sv_ctx sv)) (\<lambda>ctx.
     let sv1 = sv\<lparr>sv_ctx := ctx\<rparr>
     in Inr (if lc_should_terminate ctx then end_session True 0 sv1 else sv1))"

text \<open>One turn of whichever loop the server is in.\<close>

definition message_turn :: "ls_api \<Rightarrow> server \<Rightarrow> server outcome" where
  "message_turn api sv =
     (case sv_phase sv of
        Ended code \<Rightarrow> Inr sv
      | _ \<Rightarrow>
          obind (buxn_ls_recv_msg api (sv_in sv) (sv_buf_size sv) (sv_msg sv)) (\<lambda>(size, received).
          let sv1 = sv\<lparr>sv_buf_size := size\<rparr>
          in case received of
               Inl e \<Rightarrow> Inr (end_session (sv_phase sv = Serving) 1 sv1)
             | Inr (msg, rest) \<Rightarrow>
                 (let sv2 = sv1\<lparr>sv_msg := msg, sv_in := rest\<rparr>
                  in case sv_phase sv of
                       Await_initialize \<Rightarrow> await_initialize_turn api sv2
                     | Await_initialized \<Rightarrow> Inr (await_initialized_turn sv2)
                     | _ \<Rightarrow> serving_turn api sv2)))"

definition timer_turn :: "ls_api \<Rightarrow> server \<Rightarrow> server outcome" where
  "timer_turn api sv =
     obind (buxn_ls_analyze_workspace api ((sv_ctx sv)\<lparr>lc_timer_pending := False\<rparr>)) (\<lambda>ctx.
     Inr (sv\<lparr>sv_ctx := ctx\<rparr>))"

text \<open>A session: at any time the next thing is a message, or the timer if it is pending.\<close>

inductive ls_step :: "ls_api \<Rightarrow> server \<Rightarrow> server \<Rightarrow> bool" for api where
  step_message: "message_turn api sv = Inr sv' \<Longrightarrow> (\<forall>code. sv_phase sv \<noteq> Ended code) \<Longrightarrow> ls_step api sv sv'"
| step_timer: "lc_timer_pending (sv_ctx sv) \<Longrightarrow> timer_turn api sv = Inr sv' \<Longrightarrow> ls_step api sv sv'"

abbreviation ls_reach :: "ls_api \<Rightarrow> server \<Rightarrow> server \<Rightarrow> bool" where
  "ls_reach api \<equiv> (ls_step api)\<^sup>*\<^sup>*"

end
