(* ===== verification/Completion_Props.thy ===== *)
theory Completion_Props
  imports Completion Analyze_Props
begin

text \<open>
  The properties of completion: the walks over the include graph end, what they collect is exactly
  the matching symbols of the visible files, and the list that is built edits the text between the
  prefix and the cursor.
\<close>

section \<open>The visible files\<close>

text \<open>A file sees what the roots above it include, themselves among it.\<close>

definition below :: "analyzer_ctx \<Rightarrow> nat \<Rightarrow> nat set" where
  "below cx n = {m. (n, m) \<in> (src_edges cx)\<^sup>*}"

definition roots_above :: "analyzer_ctx \<Rightarrow> nat \<Rightarrow> nat set" where
  "roots_above cx n = {r. (r, n) \<in> (src_edges cx)\<^sup>* \<and> (\<forall>p. (p, r) \<notin> src_edges cx)}"

definition visible :: "analyzer_ctx \<Rightarrow> nat \<Rightarrow> nat set" where
  "visible cx n = (\<Union>r \<in> roots_above cx n. below cx r)"

definition matching :: "analyzer_ctx \<Rightarrow> sym_visit_ctx \<Rightarrow> nat set \<Rightarrow> nat set" where
  "matching cx ctx srcs =
     {m. \<exists>s \<in> srcs. m \<in> set (src_defs cx s) \<and> buxn_ls_match_symbol (cx_sym_nodes cx ! m) (vc_filter ctx)}"

text \<open>The key under which a symbol is collected.\<close>

definition is_local_sym :: "analyzer_ctx \<Rightarrow> sym_visit_ctx \<Rightarrow> nat \<Rightarrow> bool" where
  "is_local_sym cx ctx m = (buxn_ls_label_scope (sy_name (cx_sym_nodes cx ! m)) = vc_current_scope ctx)"

definition key_of :: "analyzer_ctx \<Rightarrow> sym_visit_ctx \<Rightarrow> nat \<Rightarrow> string" where
  "key_of cx ctx m =
     (if vc_group_symbols ctx \<and> \<not> is_local_sym cx ctx m
      then buxn_ls_label_scope (sy_name (cx_sym_nodes cx ! m)) else sy_name (cx_sym_nodes cx ! m))"

lemma below_step: "below cx n = insert n (\<Union>m \<in> {m. (n, m) \<in> src_edges cx}. below cx m)"
  by (auto simp: below_def intro: converse_rtrancl_into_rtrancl elim: converse_rtranclE)

lemma roots_above_step:
  "roots_above cx n = (if \<exists>p. (p, n) \<in> src_edges cx
     then (\<Union>p \<in> {p. (p, n) \<in> src_edges cx}. roots_above cx p) else {n})"
proof (cases "\<exists>p. (p, n) \<in> src_edges cx")
  case True
  then show ?thesis
    by (auto simp: roots_above_def intro: rtrancl_into_rtrancl elim: rtranclE)
next
  case False
  then show ?thesis by (auto simp: roots_above_def elim: rtranclE)
qed

section \<open>One file\<close>

definition cmap_ok :: "analyzer_ctx \<Rightarrow> sym_visit_ctx \<Rightarrow> nat set \<Rightarrow> completion_map \<Rightarrow> bool" where
  "cmap_ok cx ctx ms cmap \<longleftrightarrow>
     bhash_inv cmap \<and> set (bhash_keys cmap) = key_of cx ctx ` ms \<and>
     (\<forall>k item. bhash_get cmap k = Some item \<longrightarrow>
        ci_sym item \<in> ms \<and> key_of cx ctx (ci_sym item) = k \<and> 1 \<le> ci_size item \<and>
        ci_is_local item = is_local_sym cx ctx (ci_sym item))"

definition fresh_item :: "analyzer_ctx \<Rightarrow> sym_visit_ctx \<Rightarrow> nat \<Rightarrow> completion_item" where
  "fresh_item cx ctx n = \<lparr>ci_sym = n, ci_size = 1, ci_is_local = is_local_sym cx ctx n\<rparr>"

definition merged_item :: "analyzer_ctx \<Rightarrow> nat \<Rightarrow> completion_item \<Rightarrow> completion_item" where
  "merged_item cx n it =
     (if sy_name (cx_sym_nodes cx ! n) = buxn_ls_label_scope (sy_name (cx_sym_nodes cx ! n))
      then it\<lparr>ci_size := ci_size it + 1, ci_sym := n\<rparr> else it\<lparr>ci_size := ci_size it + 1\<rparr>)"

lemma visit_symbol_eq:
  assumes "buxn_ls_match_symbol (cx_sym_nodes cx ! n) (vc_filter ctx)"
  shows "visit_symbol lay cx ctx n cmap =
    (case (if vc_group_symbols ctx then bhash_get cmap (key_of cx ctx n) else None) of
       None \<Rightarrow> bhash_put lay cmap (key_of cx ctx n) (fresh_item cx ctx n)
     | Some it \<Rightarrow> bhash_set cmap (key_of cx ctx n) (merged_item cx n it))"
  using assms
  by (cases "is_local_sym cx ctx n"; cases "vc_group_symbols ctx")
    (simp_all add: visit_symbol_def Let_def key_of_def is_local_sym_def fresh_item_def merged_item_def
      split: option.split)

lemma visit_symbol_ok:
  assumes ok: "cmap_ok cx ctx ms cmap"
  shows "cmap_ok cx ctx (if buxn_ls_match_symbol (cx_sym_nodes cx ! n) (vc_filter ctx) then insert n ms else ms)
    (visit_symbol lay cx ctx n cmap)"
proof (cases "buxn_ls_match_symbol (cx_sym_nodes cx ! n) (vc_filter ctx)")
  case False
  with ok show ?thesis by (simp add: visit_symbol_def)
next
  case True
  show ?thesis
  proof (cases "if vc_group_symbols ctx then bhash_get cmap (key_of cx ctx n) else None")
    case None
    have "cmap_ok cx ctx (insert n ms) (bhash_put lay cmap (key_of cx ctx n) (fresh_item cx ctx n))"
      using ok by (auto simp: cmap_ok_def set_keys_put bh.inv_put bh.get_put fresh_item_def)
    with True show ?thesis unfolding visit_symbol_eq [OF True] None by simp
  next
    case (Some it)
    then have old: "vc_group_symbols ctx" "bhash_get cmap (key_of cx ctx n) = Some it"
      by (simp_all split: if_splits)
    have it: "ci_sym it \<in> ms" "key_of cx ctx (ci_sym it) = key_of cx ctx n" "1 \<le> ci_size it"
      "ci_is_local it = is_local_sym cx ctx (ci_sym it)"
      using ok old(2) by (auto simp: cmap_ok_def)
    define it2 where "it2 = merged_item cx n it"
    have "ci_is_local it2 = is_local_sym cx ctx (ci_sym it2)"
      using it(2,4) old(1) by (auto simp: it2_def merged_item_def key_of_def is_local_sym_def split: if_splits)
    moreover have "ci_sym it2 \<in> insert n ms" "key_of cx ctx (ci_sym it2) = key_of cx ctx n" "1 \<le> ci_size it2"
      using it by (auto simp: it2_def merged_item_def)
    moreover have "key_of cx ctx n \<in> key_of cx ctx ` ms"
      using ok old(2) bhash_has_iff [of cmap "key_of cx ctx n"] by (auto simp: cmap_ok_def bhash_has_def)
    ultimately have "cmap_ok cx ctx (insert n ms) (bhash_set cmap (key_of cx ctx n) it2)"
      using ok by (auto simp: cmap_ok_def get_set split: if_splits)
    with True show ?thesis unfolding visit_symbol_eq [OF True] Some it2_def by simp
  qed
qed

lemma visit_symbols_fold_ok:
  assumes "cmap_ok cx ctx ms cmap"
  shows "cmap_ok cx ctx (ms \<union> {m \<in> set ns. buxn_ls_match_symbol (cx_sym_nodes cx ! m) (vc_filter ctx)})
    (fold (visit_symbol lay cx ctx) ns cmap)"
  using assms
proof (induction ns arbitrary: ms cmap)
  case (Cons n ns)
  have "(if buxn_ls_match_symbol (cx_sym_nodes cx ! n) (vc_filter ctx) then insert n ms else ms) \<union>
      {m \<in> set ns. buxn_ls_match_symbol (cx_sym_nodes cx ! m) (vc_filter ctx)} =
      ms \<union> {m \<in> set (n # ns). buxn_ls_match_symbol (cx_sym_nodes cx ! m) (vc_filter ctx)}" by auto
  with Cons.IH [OF visit_symbol_ok [OF Cons.prems, of n lay]] show ?case by simp
qed simp

section \<open>The walks\<close>

lemma matching_Un: "matching cx ctx (A \<union> B) = matching cx ctx A \<union> matching cx ctx B"
  by (auto simp: matching_def)

lemma ofold_collect:
  assumes "\<And>x cmap ms. x \<in> set xs \<Longrightarrow> cmap_ok cx ctx ms cmap \<Longrightarrow>
      \<exists>cmap'. f x cmap = Inr cmap' \<and> cmap_ok cx ctx (ms \<union> g x) cmap'"
    and "cmap_ok cx ctx ms cmap"
  shows "\<exists>cmap'. ofold f xs cmap = Inr cmap' \<and> cmap_ok cx ctx (ms \<union> (\<Union>x \<in> set xs. g x)) cmap'"
  using assms
proof (induction xs arbitrary: ms cmap)
  case (Cons x xs)
  from Cons.prems(1) [of x, OF _ Cons.prems(2)] obtain c1 where
    c1: "f x cmap = Inr c1" "cmap_ok cx ctx (ms \<union> g x) c1" by auto
  have "\<exists>cmap'. ofold f xs c1 = Inr cmap' \<and> cmap_ok cx ctx ((ms \<union> g x) \<union> (\<Union>x \<in> set xs. g x)) cmap'"
    by (rule Cons.IH) (use Cons.prems(1) c1(2) in auto)
  with c1(1) show ?case by (simp add: Un_assoc)
qed simp

lemma visit_symbols_ok:
  assumes inv: "src_inv cx" and rk: "ranks rk cx"
  shows "n < src_size cx \<Longrightarrow> rk n < depth \<Longrightarrow> cmap_ok cx ctx ms cmap \<Longrightarrow>
    \<exists>cmap'. buxn_ls_visit_symbols depth lay cx ctx n cmap = Inr cmap' \<and>
      cmap_ok cx ctx (ms \<union> matching cx ctx (below cx n)) cmap'"
proof (induction depth arbitrary: n ms cmap)
  case (Suc depth)
  define c0 where "c0 = fold (visit_symbol lay cx ctx) (sn_definitions (cx_src_nodes cx ! n)) cmap"
  have c0: "cmap_ok cx ctx (ms \<union> matching cx ctx {n}) c0"
    using visit_symbols_fold_ok [OF Suc.prems(3)] by (simp add: c0_def matching_def src_defs_def)
  have child: "\<exists>cmap'. buxn_ls_visit_symbols depth lay cx ctx x c = Inr cmap' \<and>
      cmap_ok cx ctx (ms' \<union> matching cx ctx (below cx x)) cmap'"
    if "x \<in> set (out_nodes (cx_src_graph cx) n)" "cmap_ok cx ctx ms' c" for x c ms'
  proof (rule Suc.IH [OF _ _ that(2)])
    have e: "(n, x) \<in> src_edges cx" using that(1) src_out_nodes [OF inv Suc.prems(1)] by simp
    then show "x < src_size cx" using src_edges_bound [OF inv] by blast
    show "rk x < depth" using e rk Suc.prems(2) by (fastforce simp: ranks_def)
  qed
  have "ms \<union> matching cx ctx {n} \<union> (\<Union>x \<in> set (out_nodes (cx_src_graph cx) n). matching cx ctx (below cx x)) =
      ms \<union> matching cx ctx (below cx n)"
    using src_out_nodes [OF inv Suc.prems(1)] by (subst (2) below_step) (auto simp: matching_def)
  moreover have "\<exists>cmap'. ofold (buxn_ls_visit_symbols depth lay cx ctx) (out_nodes (cx_src_graph cx) n) c0 =
      Inr cmap' \<and> cmap_ok cx ctx (ms \<union> matching cx ctx {n} \<union>
        (\<Union>x \<in> set (out_nodes (cx_src_graph cx) n). matching cx ctx (below cx x))) cmap'"
    by (rule ofold_collect [OF _ c0]) (rule child)
  ultimately show ?case by (simp add: c0_def)
qed simp

lemma visit_symbols_from_root_ok:
  assumes inv: "src_inv cx" and rk: "ranks rk cx"
  shows "n < src_size cx \<Longrightarrow> src_size cx - rk n < climb \<Longrightarrow> src_size cx < depth \<Longrightarrow> cmap_ok cx ctx ms cmap \<Longrightarrow>
    \<exists>cmap'. buxn_ls_visit_symbols_from_root climb depth lay cx ctx n cmap = Inr cmap' \<and>
      cmap_ok cx ctx (ms \<union> matching cx ctx (visible cx n)) cmap'"
proof (induction climb arbitrary: n ms cmap)
  case (Suc climb)
  have up: "in_edges (g_nodes (cx_src_graph cx) ! n) \<noteq> None \<longleftrightarrow> (\<exists>p. (p, n) \<in> src_edges cx)"
    using in_edges_iff [of "cx_src_graph cx" n] src_in_nodes [OF inv Suc.prems(1)] inv Suc.prems(1)
    by (cases "in_nodes (cx_src_graph cx) n") (auto simp: src_invD)
  show ?case
  proof (cases "\<exists>p. (p, n) \<in> src_edges cx")
    case True
    have parent: "\<exists>cmap'. buxn_ls_visit_symbols_from_root climb depth lay cx ctx x c = Inr cmap' \<and>
        cmap_ok cx ctx (ms' \<union> matching cx ctx (visible cx x)) cmap'"
      if "x \<in> set (in_nodes (cx_src_graph cx) n)" "cmap_ok cx ctx ms' c" for x c ms'
    proof (rule Suc.IH [OF _ _ Suc.prems(3) that(2)])
      have e: "(x, n) \<in> src_edges cx" using that(1) src_in_nodes [OF inv Suc.prems(1)] by simp
      then show "x < src_size cx" using src_edges_bound [OF inv] by blast
      have "rk n < rk x" "rk x \<le> src_size cx" using e rk by (auto simp: ranks_def)
      then show "src_size cx - rk x < climb" using Suc.prems(2) by simp
    qed
    have "matching cx ctx (visible cx n) = (\<Union>x \<in> set (in_nodes (cx_src_graph cx) n). matching cx ctx (visible cx x))"
      using src_in_nodes [OF inv Suc.prems(1)] True
      by (subst visible_def, subst roots_above_step) (auto simp: matching_def visible_def)
    moreover have "\<exists>cmap'. ofold (buxn_ls_visit_symbols_from_root climb depth lay cx ctx)
        (in_nodes (cx_src_graph cx) n) cmap = Inr cmap' \<and>
        cmap_ok cx ctx (ms \<union> (\<Union>x \<in> set (in_nodes (cx_src_graph cx) n). matching cx ctx (visible cx x))) cmap'"
      by (rule ofold_collect [OF _ Suc.prems(4)]) (rule parent)
    ultimately show ?thesis using up True by simp
  next
    case False
    then have "visible cx n = below cx n" by (simp add: visible_def roots_above_step [of cx n])
    moreover have "rk n < depth" using rk Suc.prems(3) by (auto simp: ranks_def intro: le_less_trans)
    ultimately show ?thesis
      using visit_symbols_ok [OF inv rk Suc.prems(1) _ Suc.prems(4)] up False by simp
  qed
qed simp

section \<open>What is collected\<close>

lemma collect_candidates_ok:
  assumes "src_inv cx" and "ranked cx" and "n < src_size cx"
  shows "\<exists>cmap. collect_candidates lay cx ctx n = Inr cmap \<and>
    cmap_ok cx ctx (matching cx ctx (visible cx n)) cmap"
proof -
  from assms(2) obtain rk where rk: "ranks rk cx" by (auto simp: ranked_def)
  have "cmap_ok cx ctx {} []" by (simp add: cmap_ok_def bhash_keys_def)
  from visit_symbols_from_root_ok [OF assms(1) rk assms(3) _ _ this,
      of "Suc (src_size cx)" "Suc (src_size cx)" lay]
  show ?thesis by (simp add: collect_candidates_def src_invD(3) [OF assms(1)])
qed

section \<open>How often a symbol is visited\<close>

text \<open>The files that the walks visit, in their order: once per path, with the fuel of the walks.\<close>

fun files_down :: "nat \<Rightarrow> analyzer_ctx \<Rightarrow> nat \<Rightarrow> nat list" where
  "files_down 0 cx n = []"
| "files_down (Suc depth) cx n = n # concat (map (files_down depth cx) (out_nodes (cx_src_graph cx) n))"

fun tops_above :: "nat \<Rightarrow> analyzer_ctx \<Rightarrow> nat \<Rightarrow> nat list" where
  "tops_above 0 cx n = []"
| "tops_above (Suc climb) cx n =
     (if in_nodes (cx_src_graph cx) n = [] then [n]
      else concat (map (tops_above climb cx) (in_nodes (cx_src_graph cx) n)))"

definition visited_files :: "analyzer_ctx \<Rightarrow> nat \<Rightarrow> nat list" where
  "visited_files cx n =
     concat (map (files_down (Suc (src_size cx)) cx) (tops_above (Suc (src_size cx)) cx n))"

definition visited_syms :: "analyzer_ctx \<Rightarrow> nat list \<Rightarrow> nat list" where
  "visited_syms cx files = concat (map (src_defs cx) files)"

lemma visited_syms_Cons: "visited_syms cx (n # ns) = src_defs cx n @ visited_syms cx ns"
  by (simp add: visited_syms_def)

lemma visited_syms_concat:
  "visited_syms cx (concat (map h xs)) = concat (map (\<lambda>x. visited_syms cx (h x)) xs)"
  by (induction xs) (simp_all add: visited_syms_def)

lemma files_concat:
  "concat (map f (concat (map h xs))) = concat (map (\<lambda>x. concat (map f (h x))) xs)"
  by (induction xs) simp_all

lemma ofold_visits:
  assumes "ofold f xs c = Inr c'" and "\<And>x c c'. x \<in> set xs \<Longrightarrow> f x c = Inr c' \<Longrightarrow> c' = fold g (h x) c"
  shows "c' = fold g (concat (map h xs)) c"
  using assms by (induction xs arbitrary: c) (auto elim!: obind_InrE)

lemma visit_symbols_visits:
  "buxn_ls_visit_symbols depth lay cx ctx n cmap = Inr c \<Longrightarrow>
     c = fold (visit_symbol lay cx ctx) (visited_syms cx (files_down depth cx n)) cmap"
proof (induction depth arbitrary: n cmap c)
  case (Suc depth)
  then have "ofold (buxn_ls_visit_symbols depth lay cx ctx) (out_nodes (cx_src_graph cx) n)
      (fold (visit_symbol lay cx ctx) (src_defs cx n) cmap) = Inr c" by (simp add: src_defs_def)
  from ofold_visits [OF this, of "visit_symbol lay cx ctx" "\<lambda>x. visited_syms cx (files_down depth cx x)"] Suc.IH
  show ?case by (simp add: visited_syms_Cons visited_syms_concat)
qed simp

lemma from_root_visits:
  assumes inv: "src_inv cx"
  shows "n < src_size cx \<Longrightarrow> buxn_ls_visit_symbols_from_root climb depth lay cx ctx n cmap = Inr c \<Longrightarrow>
    c = fold (visit_symbol lay cx ctx) (visited_syms cx (concat (map (files_down depth cx) (tops_above climb cx n)))) cmap"
proof (induction climb arbitrary: n cmap c)
  case (Suc climb)
  have up: "in_edges (g_nodes (cx_src_graph cx) ! n) \<noteq> None \<longleftrightarrow> in_nodes (cx_src_graph cx) n \<noteq> []"
    using in_edges_iff [of "cx_src_graph cx" n] inv Suc.prems(1) by (simp add: src_invD)
  show ?case
  proof (cases "in_nodes (cx_src_graph cx) n = []")
    case True
    with up visit_symbols_visits Suc.prems(2) show ?thesis by simp
  next
    case False
    then have run: "ofold (buxn_ls_visit_symbols_from_root climb depth lay cx ctx) (in_nodes (cx_src_graph cx) n) cmap = Inr c"
      using up Suc.prems(2) by simp
    have "x < src_size cx" if "x \<in> set (in_nodes (cx_src_graph cx) n)" for x
      using that src_in_nodes [OF inv Suc.prems(1)] src_edges_bound [OF inv] by blast
    then have "c = fold (visit_symbol lay cx ctx) (concat (map (\<lambda>x. visited_syms cx
        (concat (map (files_down depth cx) (tops_above climb cx x)))) (in_nodes (cx_src_graph cx) n))) cmap"
      by (intro ofold_visits [OF run]) (rule Suc.IH)
    then show ?thesis using False by (simp add: visited_syms_concat files_concat)
  qed
qed simp

lemma set_files_down:
  assumes inv: "src_inv cx" and rk: "ranks rk cx"
  shows "n < src_size cx \<Longrightarrow> rk n < depth \<Longrightarrow> set (files_down depth cx n) = below cx n"
proof (induction depth arbitrary: n)
  case (Suc depth)
  have "set (files_down depth cx x) = below cx x" if "(n, x) \<in> src_edges cx" for x
  proof (rule Suc.IH)
    show "x < src_size cx" using that src_edges_bound [OF inv] by blast
    show "rk x < depth" using that rk Suc.prems(2) by (fastforce simp: ranks_def)
  qed
  then show ?case
    using src_out_nodes [OF inv Suc.prems(1)] by (subst below_step) auto
qed simp

lemma set_tops_above:
  assumes inv: "src_inv cx" and rk: "ranks rk cx"
  shows "n < src_size cx \<Longrightarrow> src_size cx - rk n < climb \<Longrightarrow> set (tops_above climb cx n) = roots_above cx n"
proof (induction climb arbitrary: n)
  case (Suc climb)
  have "set (tops_above climb cx x) = roots_above cx x" if e: "(x, n) \<in> src_edges cx" for x
  proof (rule Suc.IH)
    show "x < src_size cx" using e src_edges_bound [OF inv] by blast
    have "rk n < rk x" "rk x \<le> src_size cx" using e rk by (auto simp: ranks_def)
    then show "src_size cx - rk x < climb" using Suc.prems(2) by simp
  qed
  moreover have "in_nodes (cx_src_graph cx) n = [] \<longleftrightarrow> (\<nexists>p. (p, n) \<in> src_edges cx)"
    using src_in_nodes [OF inv Suc.prems(1)] by (metis empty_iff equals0I list.set(1) mem_Collect_eq set_empty)
  ultimately show ?case
    using src_in_nodes [OF inv Suc.prems(1)] by (subst roots_above_step) auto
qed simp

lemma set_visited_files:
  assumes "src_inv cx" and "ranked cx" and "n < src_size cx"
  shows "set (visited_files cx n) = visible cx n"
proof -
  from assms(2) obtain rk where rk: "ranks rk cx" by (auto simp: ranked_def)
  have tops: "set (tops_above (Suc (src_size cx)) cx n) = roots_above cx n"
    by (rule set_tops_above [OF assms(1) rk assms(3)]) simp
  have "set (files_down (Suc (src_size cx)) cx r) = below cx r" if "r \<in> roots_above cx n" for r
  proof (rule set_files_down [OF assms(1) rk])
    show "r < src_size cx"
      using that assms(3) src_edges_bound [OF assms(1)] by (auto simp: roots_above_def elim: converse_rtranclE)
    then show "rk r < Suc (src_size cx)" using rk by (simp add: ranks_def less_Suc_eq_le)
  qed
  then show ?thesis by (simp add: visited_files_def tops visible_def del: files_down.simps tops_above.simps)
qed

text \<open>The size of a grouped entry counts visits.\<close>

definition matches_key :: "analyzer_ctx \<Rightarrow> sym_visit_ctx \<Rightarrow> string \<Rightarrow> nat \<Rightarrow> bool" where
  "matches_key cx ctx k m \<longleftrightarrow>
     buxn_ls_match_symbol (cx_sym_nodes cx ! m) (vc_filter ctx) \<and> key_of cx ctx m = k"

definition size_at :: "completion_map \<Rightarrow> string \<Rightarrow> nat" where
  "size_at cmap k = (case bhash_get cmap k of None \<Rightarrow> 0 | Some item \<Rightarrow> ci_size item)"

lemma visit_symbol_size:
  assumes "bhash_inv cmap" and "vc_group_symbols ctx"
  shows "size_at (visit_symbol lay cx ctx n cmap) k = size_at cmap k + (if matches_key cx ctx k n then 1 else 0)"
proof (cases "buxn_ls_match_symbol (cx_sym_nodes cx ! n) (vc_filter ctx)")
  case False
  then show ?thesis by (simp add: visit_symbol_def matches_key_def)
next
  case True
  show ?thesis
    unfolding visit_symbol_eq [OF True] size_at_def matches_key_def
    using assms True
    by (auto simp: bh.get_put get_set bhash_has_def fresh_item_def merged_item_def split: option.split)
qed

lemma visit_symbol_inv: "bhash_inv cmap \<Longrightarrow> bhash_inv (visit_symbol lay cx ctx n cmap)"
  by (auto simp: visit_symbol_def Let_def bh.inv_put split: option.split)

lemma visits_size:
  assumes "vc_group_symbols ctx"
  shows "bhash_inv cmap \<Longrightarrow> size_at (fold (visit_symbol lay cx ctx) ms cmap) k =
    size_at cmap k + length (filter (matches_key cx ctx k) ms)"
  by (induction ms arbitrary: cmap) (simp_all add: visit_symbol_size [OF _ assms] visit_symbol_inv)

lemma candidate_size:
  assumes "src_inv cx" and "n < src_size cx" and "collect_candidates lay cx ctx n = Inr cmap"
    and "vc_group_symbols ctx" and "bhash_get cmap k = Some item"
  shows "ci_size item = length (filter (matches_key cx ctx k) (visited_syms cx (visited_files cx n)))"
proof -
  have "cmap = fold (visit_symbol lay cx ctx) (visited_syms cx (visited_files cx n)) []"
    unfolding visited_files_def
    by (rule from_root_visits [OF assms(1,2)])
      (use assms(3) in \<open>simp only: collect_candidates_def src_invD(3) [OF assms(1)]\<close>)
  with visits_size [OF assms(4), of "[]" lay cx "visited_syms cx (visited_files cx n)" k] assms(5) show ?thesis by (simp add: size_at_def)
qed

text \<open>If no file is visited twice, visits are symbols.\<close>

lemma visits_distinct:
  assumes "listed_inv cx" and "distinct files" and "set files \<subseteq> {s. s < src_size cx}"
  shows "length (filter (matches_key cx ctx k) (visited_syms cx files)) =
    card {m \<in> matching cx ctx (set files). key_of cx ctx m = k}"
proof -
  have own: "sym_src cx m = s" if "s \<in> set files" "m \<in> set (src_defs cx s)" for s m
    using that assms(3) listed_invD(2) [OF assms(1)] by auto
  have "distinct (visited_syms cx files)"
    unfolding visited_syms_def
  proof (rule distinct_concat_map [OF assms(2)])
    show "distinct (src_defs cx s)" if "s \<in> set files" for s
      using that assms(3) listed_invD(1) [OF assms(1)] by auto
    show "set (src_defs cx s) \<inter> set (src_defs cx t) = {}" if "s \<in> set files" "t \<in> set files" "s \<noteq> t" for s t
      using own that by blast
  qed
  then have "length (filter (matches_key cx ctx k) (visited_syms cx files)) =
      card (set (filter (matches_key cx ctx k) (visited_syms cx files)))"
    by (metis distinct_card distinct_filter)
  also have "set (filter (matches_key cx ctx k) (visited_syms cx files)) =
      {m \<in> matching cx ctx (set files). key_of cx ctx m = k}"
    by (auto simp: visited_syms_def matches_key_def matching_def)
  finally show ?thesis .
qed

text \<open>C10: On the graph of any analysis the collection of candidates ends, and it collects exactly the
  matching symbols of the files that are included, directly or not, by the roots above the current
  file: one entry per name, or per scope for symbols of other scopes when they are grouped. Every
  entry stands for a symbol that matched, and is marked local exactly if that is in the current
  scope. The size of a grouped entry is the number of visits to its symbols, one for each way that
  leads to their file; that is the number of its symbols if no file can be reached in two ways.\<close>

theorem candidates_exact:
  assumes "analyzer_ok a" and "cx = an_current a" and "n < src_size cx"
  shows "\<exists>cmap. collect_candidates lay cx ctx n = Inr cmap \<and>
    set (bhash_keys cmap) = key_of cx ctx ` matching cx ctx (visible cx n) \<and>
    set (visited_files cx n) = visible cx n \<and>
    (\<forall>k item. bhash_get cmap k = Some item \<longrightarrow>
       ci_sym item \<in> matching cx ctx (visible cx n) \<and> key_of cx ctx (ci_sym item) = k \<and>
       ci_is_local item = is_local_sym cx ctx (ci_sym item) \<and>
       (vc_group_symbols ctx \<longrightarrow>
          ci_size item = length (filter (matches_key cx ctx k) (visited_syms cx (visited_files cx n))) \<and>
          (distinct (visited_files cx n) \<longrightarrow>
             ci_size item = card {m \<in> matching cx ctx (visible cx n). key_of cx ctx m = k})))"
proof -
  have inv: "src_inv cx" "ranked cx" "listed_inv cx"
    using assms(1,2) by (simp_all add: analyzer_ok_def analyzer_inv_def sym_inv_def)
  obtain cmap where c: "collect_candidates lay cx ctx n = Inr cmap" "cmap_ok cx ctx (matching cx ctx (visible cx n)) cmap"
    using collect_candidates_ok [OF inv(1,2) assms(3)] by blast
  note files = set_visited_files [OF inv(1,2) assms(3)]
  have "s < src_size cx" if "s \<in> visible cx n" for s
  proof -
    from that obtain r where "(r, n) \<in> (src_edges cx)\<^sup>*" "(r, s) \<in> (src_edges cx)\<^sup>*"
      by (auto simp: visible_def below_def roots_above_def)
    moreover from this(1) have "r < src_size cx"
      using assms(3) src_edges_bound [OF inv(1)] by (auto elim: converse_rtranclE)
    ultimately show ?thesis using src_edges_bound [OF inv(1)] by (auto elim: rtranclE)
  qed
  then have "length (filter (matches_key cx ctx k) (visited_syms cx (visited_files cx n))) =
      card {m \<in> matching cx ctx (visible cx n). key_of cx ctx m = k}" if "distinct (visited_files cx n)" for k
    using visits_distinct [OF inv(3) that] files by (simp add: subset_iff)
  with c files candidate_size [OF inv(1) assms(3) c(1)] show ?thesis
    by (auto simp: cmap_ok_def)
qed

definition demo_visit :: sym_visit_ctx where
  "demo_visit = \<lparr>vc_filter = \<lparr>fl_labels_only = True, fl_preceding_labels = False, fl_subroutine_only = False,
     fl_prefix_pos = \<lparr>p_line = 0, p_character = 4\<rparr>, fl_addr_min = 0, fl_addr_max = 0xffff, fl_prefix = ''a''\<rparr>,
     vc_current_scope = ''a'', vc_group_symbols = True\<rparr>"

lemma demo_result_ok: "analyzer_ok demo_result" "src_size (an_current demo_result) = 1"
    "src_defs (an_current demo_result) 0 = [0]" "nsyms (an_current demo_result) = 2"
proof -
  have "analyzer_inv demo_result" by (rule analyze_keeps_inv [OF demo_ws_inv analyzer_init_inv demo_analysis(1)])
  moreover have "sym_inv (an_current demo_result)"
    by (rule analyze_sym_inv [OF demo_ws_inv analyzer_init_inv demo_analysis(1)])
  ultimately show "analyzer_ok demo_result" by (simp add: analyzer_ok_def)
  show size: "src_size (an_current demo_result) = 1"
    using arg_cong [OF demo_analysis(4), of length] by (simp add: src_size_def)
  show "src_defs (an_current demo_result) 0 = [0]"
    using demo_analysis(4) by (auto simp: src_defs_def map_eq_Cons_conv)
  show "nsyms (an_current demo_result) = 2"
    using arg_cong [OF demo_analysis(8), of length] by (simp add: nsyms_def)
qed

theorem candidates_exact_witness:
  "\<exists>cmap. collect_candidates append_layout (an_current demo_result) demo_visit 0 = Inr cmap \<and>
     set (bhash_keys cmap) = key_of (an_current demo_result) demo_visit `
       matching (an_current demo_result) demo_visit (visible (an_current demo_result) 0)"
  using candidates_exact [OF demo_result_ok(1) refl, of 0 append_layout demo_visit] demo_result_ok(2)
  by auto

text \<open>A file that is opened twice by the same entry file gets two edges, and its one symbol counts as a
  group of two.\<close>

definition twice_asm :: asm_api where
  "twice_asm = demo_asm\<lparr>aa_read_file := (\<lambda>f. if f = ''/r/b.tal'' then Some ''@m/x'' else None),
     aa_asm := (\<lambda>f. Call (Asm_fopen (demo_name ''a.tal'')) (\<lambda>_.
       Call (Asm_fopen (demo_name ''b.tal'')) (\<lambda>_.
       Call (Asm_put_symbol 0x100 \<lparr>as_type = BUXN_ASM_SYM_LABEL, as_name = ''m/x'', as_name_is_generated = False,
         as_id = 1, as_region = \<lparr>rg_filename = demo_name ''b.tal'', rg_range = \<lparr>
           ar_start = \<lparr>ap_line = 1, ap_col = 1, ap_byte = 0\<rparr>, ar_end = \<lparr>ap_line = 1, ap_col = 5, ap_byte = 4\<rparr>\<rparr>\<rparr>\<rparr>) (\<lambda>_.
       Call (Asm_fopen (demo_name ''b.tal'')) (\<lambda>_. Done True)))))\<rparr>"

lemma size_counts_ways:
  "\<exists>a cmap. buxn_ls_analyze twice_asm demo_ws buxn_ls_analyzer_init = Inr a \<and>
   map sy_name (cx_sym_nodes (an_current a)) = [''m/x''] \<and>
   collect_candidates append_layout (an_current a) \<lparr>vc_filter = (vc_filter demo_visit)\<lparr>fl_prefix := ''m''\<rparr>,
     vc_current_scope = ''RESET'', vc_group_symbols = True\<rparr> 0 = Inr cmap \<and>
   map_option ci_size (bhash_get cmap ''m'') = Some 2"
  by (simp add: twice_asm_def demo_defs table_defs source_defs position_defs symbol_defs analysis_defs
      Let_def CR_def LF_def)
    (simp add: collect_candidates_def g_size_def in_nodes_def out_nodes_def walk.simps visit_symbol_def demo_visit_def
      buxn_ls_match_symbol_def bhash_put_append_layout table_defs Let_def buxn_ls_label_scope_def buxn_ls_cstr_eq_def g_size_def)

section \<open>The scope of the cursor\<close>

definition sym_start :: "analyzer_ctx \<Rightarrow> nat \<Rightarrow> lsp_position" where
  "sym_start cx m = r_start (sy_range (cx_sym_nodes cx ! m))"

definition label_before :: "analyzer_ctx \<Rightarrow> completion_ctx \<Rightarrow> nat \<Rightarrow> bool" where
  "label_before cx ctx m \<longleftrightarrow>
     sy_type (cx_sym_nodes cx ! m) = BUXN_ASM_SYM_LABEL \<and> sym_start cx m < r_start (cc_lsp_range ctx)"

text \<open>The result of the loop over the symbols \<open>ms\<close>.\<close>

definition recent_ok :: "analyzer_ctx \<Rightarrow> completion_ctx \<Rightarrow> nat set \<Rightarrow> nat option \<times> lsp_position \<Rightarrow> bool" where
  "recent_ok cx ctx ms s \<longleftrightarrow>
     (case fst s of
        None \<Rightarrow> snd s = \<lparr>p_line = -1, p_character = -1\<rparr> \<and> (\<forall>m \<in> ms. \<not> label_before cx ctx m)
      | Some l \<Rightarrow> l \<in> ms \<and> label_before cx ctx l \<and> snd s = sym_start cx l \<and>
          (\<forall>m \<in> ms. label_before cx ctx m \<longrightarrow> sym_start cx m \<le> sym_start cx l))"

lemma recent_label_step_ok:
  assumes "recent_ok cx ctx ms s" and "\<lparr>p_line = -1, p_character = -1\<rparr> < sym_start cx n"
  shows "recent_ok cx ctx (insert n ms) (recent_label_step cx (r_start (cc_lsp_range ctx)) n s)"
proof (cases "label_before cx ctx n \<and> snd s < sym_start cx n")
  case True
  then have "recent_label_step cx (r_start (cc_lsp_range ctx)) n s = (Some n, sym_start cx n)"
    by (simp add: recent_label_step_def cmp_pos_sign label_before_def sym_start_def Let_def split_beta)
  with True assms(1) show ?thesis by (auto simp: recent_ok_def split: option.splits)
next
  case False
  then have "recent_label_step cx (r_start (cc_lsp_range ctx)) n s = s"
    by (auto simp: recent_label_step_def cmp_pos_sign label_before_def sym_start_def Let_def split: prod.split)
  with False assms show ?thesis by (auto simp: recent_ok_def split: option.splits)
qed

lemma recent_label_fold:
  assumes "\<forall>m \<in> set ns. \<lparr>p_line = -1, p_character = -1\<rparr> < sym_start cx m" and "recent_ok cx ctx ms s"
  shows "recent_ok cx ctx (set ns \<union> ms) (fold (recent_label_step cx (r_start (cc_lsp_range ctx))) ns s)"
  using assms
proof (induction ns arbitrary: ms s)
  case (Cons n ns)
  from Cons.IH [OF _ recent_label_step_ok [OF Cons.prems(2)]] Cons.prems(1) show ?case by simp
qed simp

text \<open>C28: The current scope is that of the last label that starts before the prefix, by position and
  not by the order in which the labels were reported, and \<open>RESET\<close> if there is none.\<close>

theorem completion_scope_is_last_label:
  assumes "\<forall>m \<in> set (src_defs cx (cc_source ctx)). 0 \<le> p_line (sym_start cx m)"
    and "before = {m \<in> set (src_defs cx (cc_source ctx)). label_before cx ctx m}"
  shows "(before = {} \<longrightarrow> completion_scope cx ctx = ''RESET'') \<and>
    (before \<noteq> {} \<longrightarrow> (\<exists>l \<in> before. completion_scope cx ctx = buxn_ls_label_scope (sy_name (cx_sym_nodes cx ! l)) \<and>
       sym_start cx l = Max (sym_start cx ` before)))"
proof -
  let ?defs = "src_defs cx (cc_source ctx)" and ?p0 = "\<lparr>p_line = -1, p_character = -1\<rparr>"
  have "\<forall>m \<in> set ?defs. ?p0 < sym_start cx m"
    using assms(1) by (fastforce simp: less_lsp_position_ext_def)
  then have r: "recent_ok cx ctx (set ?defs) (fold (recent_label_step cx (r_start (cc_lsp_range ctx))) ?defs (None, ?p0))"
    using recent_label_fold [of ?defs cx ctx "{}" "(None, ?p0)"] by (simp add: recent_ok_def)
  have recent: "most_recent_label cx ctx = fst (fold (recent_label_step cx (r_start (cc_lsp_range ctx))) ?defs (None, ?p0))"
    by (simp add: most_recent_label_def src_defs_def)
  show ?thesis
  proof (cases "most_recent_label cx ctx")
    case None
    with r recent assms(2) show ?thesis by (simp add: recent_ok_def completion_scope_def)
  next
    case (Some l)
    with recent have "fst (fold (recent_label_step cx (r_start (cc_lsp_range ctx))) ?defs (None, ?p0)) = Some l" by simp
    with r assms(2) have l: "l \<in> before" "\<forall>m \<in> before. sym_start cx m \<le> sym_start cx l"
      by (simp_all add: recent_ok_def)
    then have "Max (sym_start cx ` before) = sym_start cx l"
      using assms(2) by (intro Max_eqI) auto
    with l(1) Some show ?thesis by (auto simp: completion_scope_def)
  qed
qed

definition demo_cctx :: completion_ctx where
  "demo_cctx = \<lparr>cc_source = 0, cc_line_content = (''@a ;a'', 5), cc_prefix = '';a'',
     cc_lsp_range = \<lparr>r_start = \<lparr>p_line = 0, p_character = 3\<rparr>, r_end = \<lparr>p_line = 0, p_character = 5\<rparr>\<rparr>,
     cc_line_number = 0, cc_prefix_start_byte = 3, cc_prefix_end_byte = 5\<rparr>"

lemma demo_result_sym: "cx_sym_nodes (an_current demo_result) ! 0 =
    (cx_sym_nodes (an_current demo_result) ! 0)\<lparr>sy_name := ''a'',
      sy_range := \<lparr>r_start = \<lparr>p_line = 0, p_character = 0\<rparr>, r_end = \<lparr>p_line = 0, p_character = 2\<rparr>\<rparr>\<rparr>"
  using demo_analysis(6,7) by (auto simp: map_eq_Cons_conv)

theorem completion_scope_is_last_label_witness:
  "completion_scope (an_current demo_result) demo_cctx = ''RESET'' \<or>
   (\<exists>l \<in> {0}. completion_scope (an_current demo_result) demo_cctx =
      buxn_ls_label_scope (sy_name (cx_sym_nodes (an_current demo_result) ! l)))"
proof -
  have "\<forall>m \<in> set (src_defs (an_current demo_result) (cc_source demo_cctx)).
      0 \<le> p_line (sym_start (an_current demo_result) m)"
    by (simp add: demo_cctx_def demo_result_ok(3) sym_start_def) (subst demo_result_sym, simp)
  from completion_scope_is_last_label [OF this refl] show ?thesis
    by (auto simp: demo_cctx_def demo_result_ok(3))
qed

section \<open>The whole request\<close>

lemma find_slash_total:
  "0 \<le> i \<Longrightarrow> i + int n \<le> int (length bytes) \<Longrightarrow>
     \<exists>r. find_slash n bytes i = Inr r \<and> (\<forall>j. r = Some j \<longrightarrow> i \<le> j \<and> j < i + int n \<and> bytes ! nat j = CHR ''/'')"
proof (induction n arbitrary: i)
  case (Suc n)
  have "char_at bytes i = Inr (bytes ! nat i)" using Suc.prems by (simp add: char_at_def)
  moreover have "\<exists>r. find_slash n bytes (i + 1) = Inr r \<and>
      (\<forall>j. r = Some j \<longrightarrow> i + 1 \<le> j \<and> j < i + 1 + int n \<and> bytes ! nat j = CHR ''/'')"
    by (rule Suc.IH) (use Suc.prems in auto)
  ultimately show ?case by auto
qed simp

definition cctx_ok :: "analyzer_ctx \<Rightarrow> completion_ctx \<Rightarrow> bool" where
  "cctx_ok cx ctx \<longleftrightarrow>
     cc_source ctx < src_size cx \<and> 0 \<le> cc_prefix_start_byte ctx \<and>
     cc_prefix_end_byte ctx \<le> int (length (fst (cc_line_content ctx))) \<and>
     snd (cc_line_content ctx) \<le> length (fst (cc_line_content ctx)) \<and>
     snd (cc_line_content ctx) < 2 ^ 63"

lemma refine_kind_total:
  assumes "cctx_ok cx ctx"
  shows "\<exists>k'. refine_kind ctx k = Inr k'"
proof -
  have "\<exists>r. find_slash (nat (cc_prefix_end_byte ctx - (cc_prefix_start_byte ctx + 1)))
      (fst (cc_line_content ctx)) (cc_prefix_start_byte ctx + 1) = Inr r"
  proof (cases "cc_prefix_start_byte ctx + 1 \<le> cc_prefix_end_byte ctx")
    case True
    then show ?thesis
      using find_slash_total [of "cc_prefix_start_byte ctx + 1"
        "nat (cc_prefix_end_byte ctx - (cc_prefix_start_byte ctx + 1))" "fst (cc_line_content ctx)"] assms
      by (auto simp: cctx_ok_def)
  qed simp
  then show ?thesis by (auto simp: refine_kind_def Let_def split: option.split)
qed

lemma rune_kind_None: "rune_kind ctx = None \<longleftrightarrow> hd (cc_prefix ctx) = CHR ''&''"
  by (simp add: rune_kind_def Let_def)

lemma build_completion_list_total:
  assumes utf8: "utf8_ok utf8" and inv: "src_inv cx" "ranked cx" and ok: "cctx_ok cx ctx"
  shows "\<exists>result cmap'. buxn_ls_build_completion_list utf8 lay cx ctx cmap = Inr (result, cmap') \<and>
    (result = None \<longleftrightarrow> cc_prefix ctx = [] \<or> hd (cc_prefix ctx) = CHR ''&'')"
proof (cases "cc_prefix ctx = [] \<or> hd (cc_prefix ctx) = CHR ''&''")
  case True
  then have "cc_prefix ctx = [] \<or> rune_kind ctx = None" by (simp add: rune_kind_None)
  then have "buxn_ls_build_completion_list utf8 lay cx ctx cmap = Inr (None, cmap)"
    by (auto simp: buxn_ls_build_completion_list_def)
  with True show ?thesis by simp
next
  case False
  then obtain k0 where k0: "rune_kind ctx = Some k0" using rune_kind_None by blast
  obtain k where k: "refine_kind ctx k0 = Inr k" using refine_kind_total [OF ok] by blast
  obtain cands where cands: "collect_candidates lay cx \<lparr>vc_filter = completion_filter ctx k (completion_scope cx ctx),
      vc_current_scope = completion_scope cx ctx, vc_group_symbols = pk_group k\<rparr> (cc_source ctx) = Inr cands"
    using collect_candidates_ok [OF inv] ok unfolding cctx_ok_def by blast
  obtain v where "bio_lsp_utf16_offset_from_byte_offset utf8 (fst (cc_line_content ctx))
      (snd (cc_line_content ctx)) (pk_edit_start k) = Some v"
    using utf16_loop_returns [OF utf8, of "snd (cc_line_content ctx)" "fst (cc_line_content ctx)" 0 "pk_edit_start k" 0] ok
    by (auto simp: cctx_ok_def bio_lsp_utf16_offset_from_byte_offset_def)
  with False k0 k cands show ?thesis by (simp add: buxn_ls_build_completion_list_def Let_def)
qed

text \<open>C26: Completion never faults and always ends, on whatever analysis came before, for a source of that
  analysis and a prefix that lies in its line; it gives a list unless the prefix is empty or starts
  with \<open>&\<close>, which declares a label.\<close>

theorem completion_answers:
  assumes "utf8_ok utf8" and "analyzer_ok a" and "cctx_ok (an_current a) ctx"
  shows "\<exists>result cmap'. buxn_ls_build_completion_list utf8 lay (an_current a) ctx cmap = Inr (result, cmap') \<and>
    (result = None \<longleftrightarrow> cc_prefix ctx = [] \<or> hd (cc_prefix ctx) = CHR ''&'')"
  using build_completion_list_total assms by (simp add: analyzer_ok_def analyzer_inv_def)

lemma demo_cctx_ok: "cctx_ok (an_current demo_result) demo_cctx"
  by (simp add: cctx_ok_def demo_cctx_def demo_result_ok(2))

theorem completion_answers_witness:
  "\<exists>j cmap. buxn_ls_build_completion_list ref_utf8 append_layout (an_current demo_result) demo_cctx [] = Inr (Some j, cmap)"
  using completion_answers [OF ref_utf8_ok demo_result_ok(1) demo_cctx_ok, of append_layout "[]"]
  by (auto simp: demo_cctx_def)

text \<open>Reading the list back, as an editor does.\<close>

fun list_items :: "json option \<Rightarrow> json list" where
  "list_items (Some (JObj ms)) = (case map_of ms ''items'' of Some (JArr xs) \<Rightarrow> xs | _ \<Rightarrow> [])"
| "list_items _ = []"

definition item_range :: "json \<Rightarrow> lsp_range option" where
  "item_range j = read_range (ref_obj_get (ref_obj_get (Some j) ''textEdit'') ''range'')"

definition item_text :: "json \<Rightarrow> string option" where
  "item_text j = ref_get_str (ref_obj_get (ref_obj_get (Some j) ''textEdit'') ''newText'')"

lemma item_of_edit:
  assumes "map_of ms ''textEdit'' = Some (text_edit t rng)"
  shows "item_range (JObj ms) = Some rng" "item_text (JObj ms) = Some t"
  using assms by (simp_all add: item_range_def item_text_def text_edit_def del: read_range.simps)

lemma symbol_item_edit:
  "item_range (buxn_ls_serialize_completion_item_as_symbol cx item label rng) = Some rng"
  "item_text (buxn_ls_serialize_completion_item_as_symbol cx item label rng) = Some label"
  unfolding buxn_ls_serialize_completion_item_as_symbol_def Let_def
  by (rule item_of_edit [where t = label and rng = rng], simp add: obj_add_def split: option.splits)+

lemma group_item_edit:
  "item_range (serialize_group cx item rng) = Some rng"
  "item_text (serialize_group cx item rng) = Some (buxn_ls_label_scope (sy_name (cx_sym_nodes cx ! ci_sym item)))"
  unfolding serialize_group_def Let_def
  by (rule item_of_edit [where t = "buxn_ls_label_scope (sy_name (cx_sym_nodes cx ! ci_sym item))" and rng = rng],
      simp add: obj_add_def split: option.splits)+

section \<open>What an edit leaves\<close>

text \<open>A reference in Uxntal is a name behind one of these runes, or a bare name; \<open>/x\<close> and \<open>&x\<close> stand for the
  name \<open>x\<close> below the current scope.\<close>

definition sigil :: "char \<Rightarrow> bool" where
  "sigil c \<longleftrightarrow> c \<in> set '';=!?.-,_|$''"

definition refers_to :: "string \<Rightarrow> string \<Rightarrow> string \<Rightarrow> bool" where
  "refers_to scope ref name \<longleftrightarrow>
     (let body = (if ref \<noteq> [] \<and> sigil (hd ref) then tl ref else ref)
      in body = name \<or> (\<exists>c r. body = c # r \<and> (c = CHR ''/'' \<or> c = CHR ''&'') \<and> name = scope @ CHR ''/'' # r))"

lemma refers_simps [simp]:
  "sigil c \<Longrightarrow> refers_to scope (c # body) body"
  "ref \<noteq> [] \<Longrightarrow> \<not> sigil (hd ref) \<Longrightarrow> refers_to scope ref ref"
  "sigil c \<Longrightarrow> refers_to scope (c # CHR ''/'' # r) (scope @ CHR ''/'' # r)"
  "sigil c \<Longrightarrow> refers_to scope (c # CHR ''&'' # r) (scope @ CHR ''/'' # r)"
  "refers_to scope (CHR ''/'' # r) (scope @ CHR ''/'' # r)"
  by (auto simp: refers_to_def Let_def sigil_def)

text \<open>The prefix is the text of the line between its two offsets, as the handler of the request cuts it out.\<close>

definition prefix_in_line :: "completion_ctx \<Rightarrow> bool" where
  "prefix_in_line ctx \<longleftrightarrow>
     (\<exists>start. cc_prefix_start_byte ctx = int start \<and>
        cc_prefix_end_byte ctx = int (start + length (cc_prefix ctx)) \<and>
        cc_prefix ctx = take (length (cc_prefix ctx)) (drop start (fst (cc_line_content ctx))))"

text \<open>Not every prefix with a slash is completed well: behind \<open>/a/\<close>, \<open>//\<close> and \<open>/&\<close> the edit starts behind the second
  mark although the names are looked up as if it were part of a name below the current scope, and
  behind \<open>,a/\<close> and \<open>_a/\<close> the labels of the current scope are offered although \<open>a\<close> is typed already.\<close>

definition plain_prefix :: "string \<Rightarrow> bool" where
  "plain_prefix p \<longleftrightarrow>
     (hd p = CHR ''/'' \<longrightarrow> CHR ''/'' \<notin> set (tl p) \<and> (tl p \<noteq> [] \<longrightarrow> p ! 1 \<noteq> CHR ''&'')) \<and>
     (hd p = CHR '','' \<or> hd p = CHR ''_'' \<longrightarrow>
        CHR ''/'' \<notin> set (tl p) \<or> p ! 1 = CHR ''/'' \<or> p ! 1 = CHR ''&'')"

lemma typed_scope_ignored:
  assumes "cc_prefix ctx = '',a/b''" and "cc_line_content ctx = ('',a/b'', 4)"
    and "cc_prefix_start_byte ctx = 0" and "cc_prefix_end_byte ctx = 4"
  shows "\<exists>k0 k. rune_kind ctx = Some k0 \<and> refine_kind ctx k0 = Inr k \<and>
    pk_edit_start k = 3 \<and> fl_prefix (completion_filter ctx k scope) = scope"
proof -
  have "find_slash 3 '',a/b'' 1 = Inr (Some 2)" by (simp add: eval_nat_numeral char_at_def)
  then show ?thesis
    using assms by (simp add: rune_kind_def refine_kind_def completion_filter_def Let_def)
qed

lemma rune_sigil:
  assumes "rune_kind ctx = Some k" and "cc_prefix ctx = c # p" and "sigil c"
  shows "pk_match k \<noteq> BUXN_LS_MATCH_ANY_SYMBOL" and "pk_match k \<noteq> BUXN_LS_MATCH_SUB_LABEL"
    and "pk_match k = BUXN_LS_MATCH_LOCAL_LABEL \<longleftrightarrow> c = CHR '','' \<or> c = CHR ''_''"
    and "pk_format k = BUXN_LS_FORMAT_FULL_NAME" and "pk_prefix k = p"
    and "pk_edit_start k = cc_prefix_start_byte ctx + 1"
proof -
  have "c \<in> {CHR '';'', CHR ''='', CHR ''!'', CHR ''?'', CHR ''.'', CHR ''-'', CHR '','', CHR ''_'', CHR ''|'', CHR ''$''}"
    using assms(3) by (simp add: sigil_def)
  with assms(1,2) have "pk_match k \<noteq> BUXN_LS_MATCH_ANY_SYMBOL \<and> pk_match k \<noteq> BUXN_LS_MATCH_SUB_LABEL \<and>
      (pk_match k = BUXN_LS_MATCH_LOCAL_LABEL \<longleftrightarrow> c = CHR '','' \<or> c = CHR ''_'') \<and>
      pk_format k = BUXN_LS_FORMAT_FULL_NAME \<and> pk_prefix k = p \<and> pk_edit_start k = cc_prefix_start_byte ctx + 1"
    by (simp only: insert_iff empty_iff, elim disjE)
      (auto simp: rune_kind_def buxn_ls_str_pop_front_def Let_def)
  then show "pk_match k \<noteq> BUXN_LS_MATCH_ANY_SYMBOL" "pk_match k \<noteq> BUXN_LS_MATCH_SUB_LABEL"
    "pk_match k = BUXN_LS_MATCH_LOCAL_LABEL \<longleftrightarrow> c = CHR '','' \<or> c = CHR ''_''"
    "pk_format k = BUXN_LS_FORMAT_FULL_NAME" "pk_prefix k = p" "pk_edit_start k = cc_prefix_start_byte ctx + 1"
    by simp_all
qed

lemma rune_slash:
  assumes "rune_kind ctx = Some k" and "cc_prefix ctx = CHR ''/'' # p"
  shows "pk_match k = BUXN_LS_MATCH_SUB_LABEL" and "pk_format k = BUXN_LS_FORMAT_LOCAL_NAME" and "pk_prefix k = p"
    and "pk_edit_start k = cc_prefix_start_byte ctx + 1"
  using assms by (auto simp: rune_kind_def buxn_ls_str_pop_front_def Let_def)

lemma rune_name:
  assumes "rune_kind ctx = Some k" and "cc_prefix ctx = c # p" and "\<not> sigil c" and "c \<noteq> CHR ''/''"
  shows "pk_match k = BUXN_LS_MATCH_ANY_SYMBOL" and "pk_format k = BUXN_LS_FORMAT_FULL_NAME" and "pk_prefix k = c # p"
    and "pk_edit_start k = cc_prefix_start_byte ctx"
  using assms by (auto simp: rune_kind_def sigil_def Let_def split: if_splits)

lemma find_slash_result:
  "find_slash (length q) bytes (int m) = Inr r \<Longrightarrow> q = take (length q) (drop m bytes) \<Longrightarrow>
     (r = None \<and> CHR ''/'' \<notin> set q) \<or>
     (\<exists>x y. q = x @ CHR ''/'' # y \<and> CHR ''/'' \<notin> set x \<and> r = Some (int (m + length x)))"
proof (induction q arbitrary: m r)
  case (Cons c q)
  have m: "m < length bytes" using Cons.prems(2) by (cases "m < length bytes") auto
  then have "drop m bytes = bytes ! m # drop (Suc m) bytes" by (simp add: Cons_nth_drop_Suc)
  with Cons.prems(2) have q: "bytes ! m = c" "q = take (length q) (drop (Suc m) bytes)" by simp_all
  show ?case
  proof (cases "c = CHR ''/''")
    case True
    with Cons.prems(1) q(1) m have "r = Some (int m)" by (simp add: char_at_def)
    with True show ?thesis by (intro disjI2 exI [of _ "[]"] exI [of _ q]) simp
  next
    case False
    with Cons.prems(1) q(1) m have "find_slash (length q) bytes (int (Suc m)) = Inr r"
      by (simp add: char_at_def add.commute)
    from Cons.IH [OF this q(2)] show ?thesis
    proof (elim disjE exE conjE)
      fix x y assume "q = x @ CHR ''/'' # y" "CHR ''/'' \<notin> set x" "r = Some (int (Suc m + length x))"
      with False show ?thesis by (intro disjI2 exI [of _ "c # x"] exI [of _ y]) simp
    qed (use False in simp)
  qed
qed simp

text \<open>The three forms of an edit: it completes a whole name, a name below the current scope, or the part of
  a name behind its slash.\<close>

definition whole_name :: "prefix_kind \<Rightarrow> string \<Rightarrow> string \<Rightarrow> bool" where
  "whole_name k kept rest \<longleftrightarrow> pk_format k = BUXN_LS_FORMAT_FULL_NAME \<and>
     ((\<exists>c. kept = [c] \<and> sigil c) \<or>
      kept = [] \<and> rest \<noteq> [] \<and> \<not> sigil (hd rest) \<and> hd rest \<noteq> CHR ''/'' \<and>
        pk_match k = BUXN_LS_MATCH_ANY_SYMBOL \<and> pk_prefix k = rest)"

definition in_scope :: "prefix_kind \<Rightarrow> string \<Rightarrow> string \<Rightarrow> bool" where
  "in_scope k kept rest \<longleftrightarrow> pk_format k = BUXN_LS_FORMAT_LOCAL_NAME \<and> pk_match k = BUXN_LS_MATCH_SUB_LABEL \<and>
     (kept = ''/'' \<or> (\<exists>c d. kept = [c, d] \<and> sigil c \<and> (d = CHR ''/'' \<or> d = CHR ''&'')))"

definition behind_slash :: "prefix_kind \<Rightarrow> string \<Rightarrow> string \<Rightarrow> bool" where
  "behind_slash k kept rest \<longleftrightarrow> pk_format k = BUXN_LS_FORMAT_LOCAL_NAME \<and>
     pk_match k \<noteq> BUXN_LS_MATCH_SUB_LABEL \<and> pk_match k \<noteq> BUXN_LS_MATCH_LOCAL_LABEL \<and>
     (\<exists>g x. kept = g @ x @ ''/'' \<and> CHR ''/'' \<notin> set x \<and> pk_prefix k = x @ CHR ''/'' # rest \<and>
        ((\<exists>c. g = [c] \<and> sigil c) \<or> g = [] \<and> x \<noteq> [] \<and> \<not> sigil (hd x)))"

lemma refine_forms:
  assumes k0: "rune_kind ctx = Some k0" and k: "refine_kind ctx k0 = Inr k" and ne: "cc_prefix ctx \<noteq> []"
    and line: "prefix_in_line ctx" and plain: "plain_prefix (cc_prefix ctx)"
  shows "\<exists>kept rest. cc_prefix ctx = kept @ rest \<and> pk_edit_start k = cc_prefix_start_byte ctx + int (length kept) \<and>
    (whole_name k kept rest \<or> in_scope k kept rest \<or> behind_slash k kept rest)"
proof -
  obtain c p where p: "cc_prefix ctx = c # p" using ne by (cases "cc_prefix ctx") auto
  obtain start where start: "cc_prefix_start_byte ctx = int start"
      "cc_prefix_end_byte ctx = int (start + length (c # p))"
      "c # p = take (length (c # p)) (drop start (fst (cc_line_content ctx)))"
    using line p by (auto simp: prefix_in_line_def)
  show ?thesis
  proof (cases "pk_match k0 \<noteq> BUXN_LS_MATCH_ANY_SYMBOL \<and> p \<noteq> [] \<and> (hd p = CHR ''&'' \<or> hd p = CHR ''/'')")
    case True
    then obtain d q where q: "p = d # q" "d = CHR ''&'' \<or> d = CHR ''/''" by (cases p) auto
    have "c \<noteq> CHR ''/''" using plain q by (auto simp: p plain_prefix_def)
    moreover have "sigil c" using True rune_name(1) [OF k0 p] calculation by blast
    moreover have "k = k0\<lparr>pk_match := BUXN_LS_MATCH_SUB_LABEL, pk_format := BUXN_LS_FORMAT_LOCAL_NAME,
        pk_prefix := buxn_ls_str_pop_front (pk_prefix k0), pk_edit_start := cc_prefix_start_byte ctx + 2, pk_group := False\<rparr>"
      using k True q by (simp add: refine_kind_def p)
    ultimately show ?thesis
      using q by (intro exI [of _ "[c, d]"] exI [of _ q]) (auto simp: p in_scope_def)
  next
    case False
    obtain r where r: "find_slash (length p) (fst (cc_line_content ctx)) (int (Suc start)) = Inr r"
      and kr: "k = (case r of None \<Rightarrow> k0 | Some i \<Rightarrow> k0\<lparr>pk_format := BUXN_LS_FORMAT_LOCAL_NAME, pk_edit_start := i + 1, pk_group := False\<rparr>)"
    proof -
      have no: "(pk_match k0 \<noteq> BUXN_LS_MATCH_ANY_SYMBOL \<and> length (cc_prefix ctx) \<ge> 2 \<and>
         (cc_prefix ctx ! 1 = CHR ''&'' \<or> cc_prefix ctx ! 1 = CHR ''/'')) = False"
        using False by (cases p) (auto simp: p)
      have from_to: "cc_prefix_start_byte ctx + 1 = int (Suc start)"
        "nat (cc_prefix_end_byte ctx - int (Suc start)) = length p" using start(1,2) by simp_all
      show thesis
        using k that unfolding refine_kind_def no if_False from_to by (auto elim!: obind_InrE split: option.splits)
    qed
    have "p = take (length p) (drop (Suc start) (fst (cc_line_content ctx)))"
      using arg_cong [OF start(3), of tl] by (simp add: tl_take drop_Suc tl_drop)
    from find_slash_result [OF r this] show ?thesis
    proof (elim disjE exE conjE)
      assume none: "r = None" "CHR ''/'' \<notin> set p"
      then have kk: "k = k0" by (simp add: kr)
      show ?thesis
      proof (cases "sigil c")
        case True
        then show ?thesis using rune_sigil [OF k0 p True] kk
          by (intro exI [of _ "[c]"] exI [of _ p]) (simp add: p whole_name_def)
      next
        case not_sigil: False
        show ?thesis
        proof (cases "c = CHR ''/''")
          case True
          then show ?thesis using rune_slash [OF k0] kk p
            by (intro exI [of _ "''/''"] exI [of _ p]) (simp add: in_scope_def)
        next
          case False
          then show ?thesis using rune_name [OF k0 p not_sigil False] kk not_sigil
            by (intro exI [of _ "[]"] exI [of _ "c # p"]) (simp add: p whole_name_def)
        qed
      qed
    next
      fix x y assume some: "p = x @ CHR ''/'' # y" "CHR ''/'' \<notin> set x" "r = Some (int (Suc start + length x))"
      then have kk: "k = k0\<lparr>pk_format := BUXN_LS_FORMAT_LOCAL_NAME, pk_edit_start := int (Suc start + length x) + 1, pk_group := False\<rparr>"
        by (simp add: kr)
      have c: "c \<noteq> CHR ''/''" using plain some(1) by (auto simp: p plain_prefix_def)
      show ?thesis
      proof (cases "sigil c")
        case True
        have "x \<noteq> []" using False some(1) rune_sigil(1) [OF k0 p True] by (cases x) auto
        then have "p \<noteq> [] \<and> (c # p) ! 1 \<noteq> CHR ''/''" using some(1,2) by (cases x) auto
        moreover have "(c # p) ! 1 \<noteq> CHR ''&''" using False some(1) \<open>x \<noteq> []\<close> rune_sigil(1) [OF k0 p True] by (cases x) auto
        ultimately have "c \<noteq> CHR '','' \<and> c \<noteq> CHR ''_''" using plain some(1) by (auto simp: p plain_prefix_def)
        then show ?thesis using rune_sigil [OF k0 p True] kk some True start(1)
          by (intro exI [of _ "c # x @ ''/''"] exI [of _ y])
            (auto simp: p behind_slash_def intro!: exI [of _ "[c]"] exI [of _ x])
      next
        case not_sigil: False
        then show ?thesis using rune_name [OF k0 p not_sigil c] kk some start(1) c
          by (intro exI [of _ "c # x @ ''/''"] exI [of _ y])
            (auto simp: p behind_slash_def intro!: exI [of _ "[]"] exI [of _ "c # x"])
      qed
    qed
  qed
qed

section \<open>What the items insert\<close>

lemma whole_name_item:
  assumes "j \<in> set (format_candidate cx BUXN_LS_FORMAT_FULL_NAME rng item)"
    and "name = sy_name (cx_sym_nodes cx ! ci_sym item)" and "ci_is_local item \<longleftrightarrow> buxn_ls_label_scope name = scope"
  shows "\<exists>t. item_text j = Some t \<and>
    (t = name \<or> t = buxn_ls_label_scope name \<or> (\<exists>r. t = CHR ''/'' # r \<and> name = scope @ CHR ''/'' # r))"
proof -
  have local: "\<exists>r. drop (length (buxn_ls_label_scope name)) name = CHR ''/'' # r \<and>
      name = buxn_ls_label_scope name @ CHR ''/'' # r" if "name \<noteq> buxn_ls_label_scope name"
  proof -
    have d: "name = buxn_ls_label_scope name @ dropWhile (\<lambda>c. c \<noteq> CHR ''/'') name"
      by (simp add: buxn_ls_label_scope_def)
    with that have "dropWhile (\<lambda>c. c \<noteq> CHR ''/'') name \<noteq> []" by (metis append_Nil2)
    then have "dropWhile (\<lambda>c. c \<noteq> CHR ''/'') name = CHR ''/'' # tl (dropWhile (\<lambda>c. c \<noteq> CHR ''/'') name)"
      using hd_dropWhile [of "\<lambda>c. c \<noteq> CHR ''/''" name] by (cases "dropWhile (\<lambda>c. c \<noteq> CHR ''/'') name") auto
    with d show ?thesis by (metis append_eq_conv_conj)
  qed
  show ?thesis
    using assms(1) local unfolding format_candidate_def Let_def assms(2) [symmetric]
    by (auto simp: symbol_item_edit group_item_edit assms(2) [symmetric] assms(3) split: if_splits)
qed

lemma local_name_item:
  assumes "j \<in> set (format_candidate cx BUXN_LS_FORMAT_LOCAL_NAME rng item)"
    and "name = sy_name (cx_sym_nodes cx ! ci_sym item)"
  shows "item_text j = Some (drop (length (buxn_ls_label_scope name) + 1) name)"
  using assms(1) unfolding format_candidate_def Let_def assms(2) [symmetric]
  by (auto simp: symbol_item_edit split: if_splits)

lemma item_ranges:
  assumes "j \<in> set (format_candidate cx fmt rng item)" shows "item_range j = Some rng"
  using assms by (auto simp: format_candidate_def Let_def symbol_item_edit group_item_edit
      split: sym_format_type.splits if_splits)

lemma match_symbol_prefix: "buxn_ls_match_symbol def filt \<Longrightarrow> \<exists>r. sy_name def = fl_prefix filt @ r"
  unfolding buxn_ls_match_symbol_def by (metis append_take_drop_id)

lemma completion_scope_plain: "CHR ''/'' \<notin> set (completion_scope cx ctx)"
  by (auto simp: completion_scope_def buxn_ls_label_scope_def dest: set_takeWhileD split: option.split)

lemma filter_prefix:
  assumes "sy_name def = fl_prefix (completion_filter ctx k scope) @ r"
  shows "pk_match k = BUXN_LS_MATCH_SUB_LABEL \<Longrightarrow> sy_name def = cstr scope @ CHR ''/'' # cstr (pk_prefix k) @ r"
    and "pk_match k \<noteq> BUXN_LS_MATCH_SUB_LABEL \<Longrightarrow> pk_match k \<noteq> BUXN_LS_MATCH_LOCAL_LABEL \<Longrightarrow> sy_name def = pk_prefix k @ r"
  using assms by (auto simp: completion_filter_def Let_def split: sym_match_type.splits)

lemma candidate_accepted:
  assumes forms: "whole_name k kept rest \<or> in_scope k kept rest \<or> behind_slash k kept rest"
    and scope: "CHR ''/'' \<notin> set scope" "cstr scope = scope"
    and match: "buxn_ls_match_symbol (cx_sym_nodes cx ! ci_sym item) (completion_filter ctx k scope)"
    and name: "name = sy_name (cx_sym_nodes cx ! ci_sym item)"
    and local: "ci_is_local item \<longleftrightarrow> buxn_ls_label_scope name = scope"
    and j: "j \<in> set (format_candidate cx (pk_format k) rng item)"
  shows "\<exists>t. item_text j = Some t \<and>
    (refers_to scope (kept @ t) name \<or> refers_to scope (kept @ t) (buxn_ls_label_scope name))"
proof -
  obtain r where "name = fl_prefix (completion_filter ctx k scope) @ r"
    using match_symbol_prefix [OF match] name by auto
  note prefix = filter_prefix [OF this [unfolded name], folded name]
  show ?thesis
    using forms
  proof (elim disjE)
    assume w: "whole_name k kept rest"
    obtain t where t: "item_text j = Some t"
        "t = name \<or> t = buxn_ls_label_scope name \<or> (\<exists>r. t = CHR ''/'' # r \<and> name = scope @ CHR ''/'' # r)"
      using whole_name_item [OF _ name local, of j rng] j w by (auto simp: whole_name_def)
    show ?thesis
    proof (cases "kept = []")
      case True
      with w have "rest \<noteq> [] \<and> \<not> sigil (hd rest) \<and> hd rest \<noteq> CHR ''/'' \<and> name = rest @ r"
        using prefix(2) by (auto simp: whole_name_def)
      then obtain c q where c: "name = c # q" "\<not> sigil c" "c \<noteq> CHR ''/''" by (cases rest) auto
      with t True show ?thesis by (auto simp: buxn_ls_label_scope_def)
    qed (use w t in \<open>auto simp: whole_name_def\<close>)
  next
    assume w: "in_scope k kept rest"
    then have "name = scope @ CHR ''/'' # cstr (pk_prefix k) @ r" using prefix(1) scope(2) by (simp add: in_scope_def)
    moreover from this have "buxn_ls_label_scope name = scope" using scope(1) by (simp add: label_scope_split)
    ultimately show ?thesis
      using local_name_item [OF _ name] j w by (auto simp: in_scope_def)
  next
    assume w: "behind_slash k kept rest"
    then obtain g x where x: "kept = g @ x @ ''/''" "CHR ''/'' \<notin> set x" "pk_prefix k = x @ CHR ''/'' # rest"
        "(\<exists>c. g = [c] \<and> sigil c) \<or> g = [] \<and> x \<noteq> [] \<and> \<not> sigil (hd x)"
      by (auto simp: behind_slash_def)
    then have "name = x @ CHR ''/'' # rest @ r" using prefix(2) w by (simp add: behind_slash_def)
    moreover from this have "buxn_ls_label_scope name = x" using x(2) by (simp add: label_scope_split)
    ultimately have "item_text j = Some (rest @ r)" "kept @ rest @ r = g @ name"
      using local_name_item [OF _ name] j w x(1) by (simp_all add: behind_slash_def)
    moreover have "refers_to scope (g @ name) name"
      using x(4) \<open>name = x @ _\<close> by (auto simp: neq_Nil_conv)
    ultimately show ?thesis by metis
  qed
qed


text \<open>C27: Whatever item of a completion list the user accepts, the prefix then refers to a visible symbol.
  The edit of every item runs from the same offset within the prefix to the end of the request; the
  part of the prefix before that offset, followed by the text that is inserted, is a reference to the
  name of a symbol that a visible file defines, or to the label scope of that name, both read in the
  scope of the request. It is stated for the prefixes that \<open>plain_prefix\<close> describes and scopes without NUL.\<close>

theorem completion_items_edit:
  assumes build: "buxn_ls_build_completion_list utf8 lay cx ctx cmap = Inr (Some list, cands)"
    and graph: "src_inv cx" "ranked cx" "cc_source ctx < src_size cx"
    and line: "prefix_in_line ctx" and plain: "plain_prefix (cc_prefix ctx)"
    and nul: "cstr (completion_scope cx ctx) = completion_scope cx ctx"
  shows "\<exists>kept rest start. cc_prefix ctx = kept @ rest \<and>
    bio_lsp_utf16_offset_from_byte_offset utf8 (fst (cc_line_content ctx)) (snd (cc_line_content ctx))
      (cc_prefix_start_byte ctx + int (length kept)) = Some start \<and>
    (\<forall>j \<in> set (list_items (Some list)).
       item_range j = Some \<lparr>r_start = \<lparr>p_line = cc_line_number ctx, p_character = start\<rparr>,
         r_end = r_end (cc_lsp_range ctx)\<rparr> \<and>
       (\<exists>t. \<exists>m \<in> {m. \<exists>s \<in> visible cx (cc_source ctx). m \<in> set (src_defs cx s)}.
          item_text j = Some t \<and>
          (let name = sy_name (cx_sym_nodes cx ! m); scope = completion_scope cx ctx in
           refers_to scope (kept @ t) name \<or> refers_to scope (kept @ t) (buxn_ls_label_scope name))))"
proof -
  have ne: "cc_prefix ctx \<noteq> []" using build by (auto simp: buxn_ls_build_completion_list_def)
  obtain k0 where k0: "rune_kind ctx = Some k0"
    using build ne by (cases "rune_kind ctx") (auto simp: buxn_ls_build_completion_list_def)
  obtain k where k: "refine_kind ctx k0 = Inr k"
    using build ne k0 by (cases "refine_kind ctx k0") (auto simp: buxn_ls_build_completion_list_def)
  define scope where "scope = completion_scope cx ctx"
  define visit where "visit = \<lparr>vc_filter = completion_filter ctx k scope, vc_current_scope = scope,
      vc_group_symbols = pk_group k\<rparr>"
  obtain cmap' where cmap': "collect_candidates lay cx visit (cc_source ctx) = Inr cmap'"
      "cmap_ok cx visit (matching cx visit (visible cx (cc_source ctx))) cmap'"
    using collect_candidates_ok [OF graph] by blast
  obtain start where start: "bio_lsp_utf16_offset_from_byte_offset utf8
      (fst (cc_line_content ctx)) (snd (cc_line_content ctx)) (pk_edit_start k) = Some start"
    using build ne k0 k cmap'(1)
    by (cases "bio_lsp_utf16_offset_from_byte_offset utf8 (fst (cc_line_content ctx)) (snd (cc_line_content ctx)) (pk_edit_start k)")
      (auto simp: buxn_ls_build_completion_list_def Let_def visit_def scope_def or_diverge_def)
  let ?rng = "\<lparr>r_start = \<lparr>p_line = cc_line_number ctx, p_character = start\<rparr>, r_end = r_end (cc_lsp_range ctx)\<rparr>"
  have list: "list_items (Some list) = concat (map (format_candidate cx (pk_format k) ?rng) (bhash_values cmap'))"
    using build ne k0 k cmap'(1) start
    by (auto simp: buxn_ls_build_completion_list_def Let_def visit_def scope_def or_diverge_def)
  obtain kept rest where forms: "cc_prefix ctx = kept @ rest" "pk_edit_start k = cc_prefix_start_byte ctx + int (length kept)"
      "whole_name k kept rest \<or> in_scope k kept rest \<or> behind_slash k kept rest"
    using refine_forms [OF k0 k ne line plain] by blast
  have each: "\<exists>t. \<exists>m \<in> {m. \<exists>s \<in> visible cx (cc_source ctx). m \<in> set (src_defs cx s)}. item_text j = Some t \<and>
      (let name = sy_name (cx_sym_nodes cx ! m); scope = completion_scope cx ctx in
       refers_to scope (kept @ t) name \<or> refers_to scope (kept @ t) (buxn_ls_label_scope name))"
    if item: "item \<in> set (bhash_values cmap')" and j: "j \<in> set (format_candidate cx (pk_format k) ?rng item)" for item j
  proof -
    obtain key where "bhash_get cmap' key = Some item"
      using item cmap'(2) by (auto simp: cmap_ok_def bhash_values_def bhash_inv_def bhash_keys_def bhash_get_def intro: map_of_is_SomeI)
    with cmap'(2) have m: "ci_sym item \<in> matching cx visit (visible cx (cc_source ctx))"
        "ci_is_local item = is_local_sym cx visit (ci_sym item)" by (auto simp: cmap_ok_def)
    have "\<exists>t. item_text j = Some t \<and> (refers_to scope (kept @ t) (sy_name (cx_sym_nodes cx ! ci_sym item)) \<or>
        refers_to scope (kept @ t) (buxn_ls_label_scope (sy_name (cx_sym_nodes cx ! ci_sym item))))"
      by (rule candidate_accepted [OF forms(3) _ _ _ refl _ j])
        (use m nul completion_scope_plain in \<open>auto simp: matching_def visit_def is_local_sym_def scope_def\<close>)
    with m(1) show ?thesis by (auto simp: matching_def scope_def Let_def)
  qed
  show ?thesis
    using forms(1) start each item_ranges by (intro exI [of _ kept] exI [of _ rest] exI [of _ start]) (auto simp: list forms(2))
qed

lemma demo_scope: "completion_scope (an_current demo_result) demo_cctx \<in> {''RESET'', ''a''}"
proof -
  have "sy_name (cx_sym_nodes (an_current demo_result) ! 0) = ''a''" by (subst demo_result_sym) simp
  moreover have "most_recent_label (an_current demo_result) demo_cctx \<in> {None, Some 0}"
    using demo_result_ok(3) by (simp add: most_recent_label_def demo_cctx_def src_defs_def recent_label_step_def Let_def)
  ultimately show ?thesis by (auto simp: completion_scope_def buxn_ls_label_scope_def)
qed

theorem completion_items_edit_witness:
  "\<exists>list cands kept rest start. buxn_ls_build_completion_list ref_utf8 append_layout (an_current demo_result) demo_cctx [] =
       Inr (Some list, cands) \<and> '';a'' = kept @ rest \<and>
     (\<forall>j \<in> set (list_items (Some list)). item_range j =
        Some \<lparr>r_start = \<lparr>p_line = 0, p_character = start\<rparr>, r_end = \<lparr>p_line = 0, p_character = 5\<rparr>\<rparr>)"
proof -
  have graph: "utf8_ok ref_utf8" "src_inv (an_current demo_result)" "ranked (an_current demo_result)"
    "cc_source demo_cctx < src_size (an_current demo_result)"
    using ref_utf8_ok demo_result_ok(1) demo_cctx_ok by (simp_all add: analyzer_ok_def analyzer_inv_def cctx_ok_def)
  from build_completion_list_total [OF graph(1-3) demo_cctx_ok, of append_layout "[]"]
  obtain list cands where b: "buxn_ls_build_completion_list ref_utf8 append_layout (an_current demo_result) demo_cctx [] =
      Inr (Some list, cands)" by (auto simp: demo_cctx_def)
  have "prefix_in_line demo_cctx" "plain_prefix (cc_prefix demo_cctx)"
    by (simp_all add: prefix_in_line_def plain_prefix_def demo_cctx_def)
  moreover have "cstr (completion_scope (an_current demo_result) demo_cctx) = completion_scope (an_current demo_result) demo_cctx"
    using demo_scope by (auto simp: cstr_def NUL_def)
  ultimately obtain kept rest start where "cc_prefix demo_cctx = kept @ rest"
    "\<forall>j \<in> set (list_items (Some list)). item_range j = Some \<lparr>r_start = \<lparr>p_line = cc_line_number demo_cctx,
      p_character = start\<rparr>, r_end = r_end (cc_lsp_range demo_cctx)\<rparr>"
    using completion_items_edit [OF b graph(2-4)] by blast
  with b show ?thesis
    by (intro exI [of _ list] exI [of _ cands] exI [of _ kept] exI [of _ rest] exI [of _ start]) (simp add: demo_cctx_def)
qed

end
