(* ===== verification/Ls_Props.thy ===== *)
theory Ls_Props
  imports Ls_Main Completion_Props
begin

text \<open>
  The properties of the server: what every step of a session keeps, when a session answers and
  ends, what requests return, and the reception buffer.
\<close>

section \<open>What handlers leave alone\<close>

definition handler_frame :: "buxn_ls_ctx \<Rightarrow> buxn_ls_ctx \<Rightarrow> bool" where
  "handler_frame ctx ctx' \<longleftrightarrow>
     lc_out ctx' = lc_out ctx \<and> lc_workspace ctx' = lc_workspace ctx \<and>
     lc_analyzer ctx' = lc_analyzer ctx \<and> lc_should_terminate ctx' = lc_should_terminate ctx \<and>
     lc_currently_diagnosed ctx' = lc_currently_diagnosed ctx \<and>
     lc_previously_diagnosed ctx' = lc_previously_diagnosed ctx \<and>
     (lc_timer_pending ctx' \<longrightarrow> lc_timer_pending ctx)"

lemma handler_frame_refl [simp]: "handler_frame ctx ctx"
  by (simp add: handler_frame_def)

lemma complete_in_line_frame:
  "complete_in_line api p line ch bytes len ctx = Inr (r, ctx') \<Longrightarrow> handler_frame ctx ctx'"
  by (auto simp: complete_in_line_def handler_frame_def Let_def ok_simps split: option.splits if_splits)

lemma handle_completion_cases:
  assumes "buxn_ls_handle_completion api req ctx = Inr (r, ctx')"
  obtains (quiet) "ctx' = ctx" "r = None"
  | (line) p line ch content off len where "request_path api ctx req = Inr (Some p)"
      "bhash_get (docs (lc_workspace ctx)) p = Some content" "request_position api req = (line, ch)"
      "0 \<le> line" "line < int (length (buxn_ls_split_file content))"
      "buxn_ls_split_file content ! nat line = (off, len)"
      "complete_in_line api p line ch (drop off content) len ctx = Inr (r, ctx')"
  using assms
  by (auto simp: buxn_ls_handle_completion_def Let_def elim!: obind_InrE
      split: option.splits prod.splits if_splits)

lemma completion_frame:
  "buxn_ls_handle_completion api req ctx = Inr (r, ctx') \<Longrightarrow> handler_frame ctx ctx'"
  by (elim handle_completion_cases) (auto dest: complete_in_line_frame)

lemma quiet_handlers:
  assumes "h \<in> {buxn_ls_handle_find_definition, buxn_ls_handle_find_references, buxn_ls_handle_hover,
      buxn_ls_handle_list_doc_symbols, buxn_ls_handle_list_workspace_symbols}"
    and "h api req ctx = Inr (r, ctx')"
  shows "ctx' = ctx"
proof -
  have "buxn_ls_handle_find_definition api req ctx = Inr (r, ctx') \<Longrightarrow> ctx' = ctx"
    "buxn_ls_handle_find_references api req ctx = Inr (r, ctx') \<Longrightarrow> ctx' = ctx"
    "buxn_ls_handle_hover api req ctx = Inr (r, ctx') \<Longrightarrow> ctx' = ctx"
    "buxn_ls_handle_list_doc_symbols api req ctx = Inr (r, ctx') \<Longrightarrow> ctx' = ctx"
    "buxn_ls_handle_list_workspace_symbols api req ctx = Inr (r, ctx') \<Longrightarrow> ctx' = ctx"
    by (auto simp: buxn_ls_handle_find_definition_def buxn_ls_handle_find_references_def
        buxn_ls_handle_hover_def buxn_ls_handle_list_doc_symbols_def
        buxn_ls_handle_list_workspace_symbols_def Let_def elim!: obind_InrE split: option.splits)
  with assms show ?thesis by blast
qed

lemma handlers_frame:
  assumes "map_of BUXN_LS_REQUEST_HANDLERS meth = Some h" and "h api req ctx = Inr (r, ctx')"
  shows "handler_frame ctx ctx'"
proof -
  have "h \<in> snd ` set BUXN_LS_REQUEST_HANDLERS" using map_of_SomeD [OF assms(1)] by force
  then consider "h = buxn_ls_handle_shutdown" | "h = buxn_ls_handle_completion"
    | "h \<in> {buxn_ls_handle_find_definition, buxn_ls_handle_find_references, buxn_ls_handle_hover,
        buxn_ls_handle_list_doc_symbols, buxn_ls_handle_list_workspace_symbols}"
    unfolding BUXN_LS_REQUEST_HANDLERS_def by auto
  then show ?thesis
  proof cases
    case 1
    with assms(2) show ?thesis by (auto simp: buxn_ls_handle_shutdown_def handler_frame_def)
  next
    case 2
    with assms(2) show ?thesis using completion_frame by simp
  next
    case 3
    with assms(2) have "ctx' = ctx" using quiet_handlers by blast
    then show ?thesis by (simp add: handler_frame_def)
  qed
qed

lemma end_msg_frame:
  assumes "buxn_ls_end_msg api msg ctx = Inr (b, ctx')"
  shows "bio_lsp_send_msg (la_yy api) msg (lc_out ctx) = Inr (b, lc_out ctx')"
    "ctx' = ctx\<lparr>lc_out := lc_out ctx'\<rparr>"
  using assms by (auto simp: buxn_ls_end_msg_def ok_simps)

section \<open>Requests and their replies\<close>

lemma handle_request_reply:
  assumes "handle_request api msg ctx = Inr ctx'"
  shows "\<exists>reply success ctx1 meth. in_method msg = Some meth \<and>
    bio_lsp_send_msg (la_yy api) reply (lc_out ctx) = Inr (success, lc_out ctx') \<and>
    out_id reply = in_id msg \<and> handler_frame ctx ctx1 \<and> ctx' = ctx1\<lparr>lc_out := lc_out ctx'\<rparr> \<and>
    (case map_of BUXN_LS_REQUEST_HANDLERS meth of
       None \<Rightarrow> out_type reply = BIO_LSP_MSG_ERROR \<and> ctx1 = ctx \<and>
         out_value reply = Some (JObj [(''code'', JInt (- 32601)), (''message'', JStr ''Method not found'')])
     | Some h \<Rightarrow> out_type reply = BIO_LSP_MSG_RESULT \<and>
         (\<exists>v. h api (in_value msg) ctx = Inr (v, ctx1) \<and>
              out_value reply = Some (case v of None \<Rightarrow> JNull | Some j \<Rightarrow> j)))"
proof -
  from assms obtain meth where meth: "in_method msg = Some meth"
    by (auto simp: handle_request_def split: option.splits)
  show ?thesis
  proof (cases "map_of BUXN_LS_REQUEST_HANDLERS meth")
    case None
    from assms meth None obtain reply success where r: "buxn_ls_begin_msg BIO_LSP_MSG_ERROR (Some msg) = Inr reply"
      and s: "buxn_ls_end_msg api (reply\<lparr>out_value := Some (JObj [(''code'', JInt (- 32601)),
          (''message'', JStr ''Method not found'')])\<rparr>) ctx = Inr (success, ctx')"
      by (auto simp: handle_request_def ok_simps)
    have "handler_frame ctx ctx" by (simp add: handler_frame_def)
    moreover have "out_id reply = in_id msg" "out_type reply = BIO_LSP_MSG_ERROR"
      using r by (auto simp: buxn_ls_begin_msg_def Let_def)
    ultimately show ?thesis
      using meth None end_msg_frame [OF s]
      by (intro exI [of _ "reply\<lparr>out_value := Some (JObj [(''code'', JInt (- 32601)),
          (''message'', JStr ''Method not found'')])\<rparr>"] exI [of _ success] exI [of _ ctx] exI [of _ meth]) simp
  next
    case (Some h)
    from assms meth Some obtain reply v ctx1 success where
      r: "buxn_ls_begin_msg BIO_LSP_MSG_RESULT (Some msg) = Inr reply"
      and h: "h api (in_value msg) ctx = Inr (v, ctx1)"
      and s: "buxn_ls_end_msg api (reply\<lparr>out_value := Some (case v of None \<Rightarrow> JNull | Some v \<Rightarrow> v)\<rparr>) ctx1 =
        Inr (success, ctx')"
      by (auto simp: handle_request_def ok_simps)
    have fr: "handler_frame ctx ctx1" by (rule handlers_frame [OF Some h])
    then have "lc_out ctx1 = lc_out ctx" by (simp add: handler_frame_def)
    moreover have "out_id reply = in_id msg" "out_type reply = BIO_LSP_MSG_RESULT"
      using r by (auto simp: buxn_ls_begin_msg_def Let_def)
    ultimately show ?thesis
      using meth Some h fr end_msg_frame [OF s]
      by (intro exI [of _ "reply\<lparr>out_value := Some (case v of None \<Rightarrow> JNull | Some v \<Rightarrow> v)\<rparr>"]
          exI [of _ success] exI [of _ ctx1] exI [of _ meth]) auto
  qed
qed

text \<open>C7: Handling a request that returns sends exactly one message, a reply with the id of the
  request: the result of the handler registered for the method (\<open>null\<close> if it has none), or the
  error "method not found" if there is no handler. Handling anything else sends nothing.\<close>

theorem request_answered_once:
  assumes "buxn_ls_handle_msg api msg ctx = Inr ctx'"
  shows "(in_type msg = BIO_LSP_MSG_REQUEST \<longrightarrow>
     (\<exists>reply success. bio_lsp_send_msg (la_yy api) reply (lc_out ctx) = Inr (success, lc_out ctx') \<and>
        out_id reply = in_id msg \<and>
        (case map_of BUXN_LS_REQUEST_HANDLERS (the (in_method msg)) of
           None \<Rightarrow> out_type reply = BIO_LSP_MSG_ERROR \<and>
             ref_get_int (ref_obj_get (out_value reply) ''code'') = - 32601
         | Some h \<Rightarrow> out_type reply = BIO_LSP_MSG_RESULT \<and>
             (\<exists>v ctx1. h api (in_value msg) ctx = Inr (v, ctx1) \<and>
                out_value reply = Some (case v of None \<Rightarrow> JNull | Some j \<Rightarrow> j))))) \<and>
    (in_type msg \<noteq> BIO_LSP_MSG_REQUEST \<longrightarrow> lc_out ctx' = lc_out ctx)"
proof (cases "in_type msg = BIO_LSP_MSG_REQUEST")
  case True
  with assms have "handle_request api msg ctx = Inr ctx'" by (simp add: buxn_ls_handle_msg_def)
  from handle_request_reply [OF this] obtain reply success ctx1 meth where
    r: "in_method msg = Some meth"
      "bio_lsp_send_msg (la_yy api) reply (lc_out ctx) = Inr (success, lc_out ctx')"
      "out_id reply = in_id msg"
    and c: "case map_of BUXN_LS_REQUEST_HANDLERS meth of
       None \<Rightarrow> out_type reply = BIO_LSP_MSG_ERROR \<and> ctx1 = ctx \<and>
         out_value reply = Some (JObj [(''code'', JInt (- 32601)), (''message'', JStr ''Method not found'')])
     | Some h \<Rightarrow> out_type reply = BIO_LSP_MSG_RESULT \<and>
         (\<exists>v. h api (in_value msg) ctx = Inr (v, ctx1) \<and>
              out_value reply = Some (case v of None \<Rightarrow> JNull | Some j \<Rightarrow> j))" by blast
  from c r(1) have "case map_of BUXN_LS_REQUEST_HANDLERS (the (in_method msg)) of
           None \<Rightarrow> out_type reply = BIO_LSP_MSG_ERROR \<and>
             ref_get_int (ref_obj_get (out_value reply) ''code'') = - 32601
         | Some h \<Rightarrow> out_type reply = BIO_LSP_MSG_RESULT \<and>
             (\<exists>v ctx1. h api (in_value msg) ctx = Inr (v, ctx1) \<and>
                out_value reply = Some (case v of None \<Rightarrow> JNull | Some j \<Rightarrow> j))"
    by (cases "map_of BUXN_LS_REQUEST_HANDLERS meth") auto
  with r True show ?thesis by blast
next
  case False
  with assms show ?thesis
    by (auto simp: buxn_ls_handle_msg_def handle_notification_def ok_simps
        split: bio_lsp_msg_type.splits option.splits if_splits)
qed

text \<open>A server for the witnesses: the document and the analysis of the small run of the analyzer, and
  a JSON library that can write the replies used.\<close>

definition demo_request :: "string \<Rightarrow> json option \<Rightarrow> bio_lsp_in_msg" where
  "demo_request meth params =
     \<lparr>in_type = BIO_LSP_MSG_REQUEST, in_id = Some (JInt 1), in_method = Some meth, in_value = params\<rparr>"

definition demo_yy :: json_api where
  "demo_yy = ref_json
     [(JObj [(''jsonrpc'', JStr ''2.0''), (''id'', JInt 1), (''result'', JNull)], ''{1}''),
      (JObj [(''jsonrpc'', JStr ''2.0''), (''id'', JInt 1), (''result'', JObj [])], ''{2}''),
      (JObj [(''id'', JInt 1), (''method'', JStr ''initialize''),
             (''params'', JObj [(''rootPath'', JStr ''/r'')])], ''{i}''),
      (JObj [(''method'', JStr ''initialized'')], ''{n}''),
      (JObj [(''method'', JStr ''exit'')], ''{x}'')]"

definition demo_api :: ls_api where
  "demo_api = \<lparr>la_yy = demo_yy, la_yuarel = demo_url, la_asm = demo_asm,
     la_initialize_json = Some (JObj []), la_json_memory = (\<lambda>n. 12 * n + 256)\<rparr>"

definition demo_ctx :: buxn_ls_ctx where
  "demo_ctx = (sv_ctx (server_start [] \<lparr>o_sent = [], o_script = []\<rparr>))
     \<lparr>lc_workspace := demo_ws, lc_analyzer := demo_result\<rparr>"

lemmas demo_ls_defs = demo_api_def demo_yy_def demo_ctx_def demo_request_def server_start_def

theorem request_answered_once_witness:
  "\<exists>ctx'. buxn_ls_handle_msg demo_api (demo_request ''shutdown'' None) demo_ctx = Inr ctx' \<and>
     (\<exists>reply success. bio_lsp_send_msg demo_yy reply (lc_out demo_ctx) = Inr (success, lc_out ctx') \<and>
        out_id reply = Some (JInt 1) \<and> out_type reply = BIO_LSP_MSG_RESULT)"
proof -
  have "\<exists>ctx'. buxn_ls_handle_msg demo_api (demo_request ''shutdown'' None) demo_ctx = Inr ctx'"
    by (simp add: demo_ls_defs buxn_ls_handle_msg_def handle_request_def BUXN_LS_REQUEST_HANDLERS_def
        buxn_ls_begin_msg_def buxn_ls_handle_shutdown_def buxn_ls_end_msg_def bio_lsp_send_msg_def
        out_root_def obj_add_def header_bytes_def header_text_def content_length_key_def decimal.simps
        write_exactly_def flush_buffer_def Let_def)
  then obtain ctx' where h: "buxn_ls_handle_msg demo_api (demo_request ''shutdown'' None) demo_ctx = Inr ctx'" ..
  have "la_yy demo_api = demo_yy" by (simp add: demo_api_def)
  with h show ?thesis using request_answered_once [OF h]
    by (auto simp: demo_request_def BUXN_LS_REQUEST_HANDLERS_def)
qed

section \<open>The publication of diagnostics\<close>

text \<open>What publishing changes: the channel and the two sets.\<close>

definition publish_frame :: "buxn_ls_ctx \<Rightarrow> buxn_ls_ctx \<Rightarrow> bool" where
  "publish_frame ctx ctx' \<longleftrightarrow>
     lc_workspace ctx' = lc_workspace ctx \<and> lc_analyzer ctx' = lc_analyzer ctx \<and>
     lc_should_terminate ctx' = lc_should_terminate ctx \<and>
     lc_timer_pending ctx' = lc_timer_pending ctx \<and>
     (bhash_inv (lc_currently_diagnosed ctx) \<longrightarrow> bhash_inv (lc_currently_diagnosed ctx'))"

lemma publish_frame_refl [simp]: "publish_frame ctx ctx"
  by (simp add: publish_frame_def)

lemma publish_frame_trans: "publish_frame a b \<Longrightarrow> publish_frame b c \<Longrightarrow> publish_frame a c"
  by (simp add: publish_frame_def)

lemma end_msg_publish_frame: "buxn_ls_end_msg api msg ctx = Inr (b, ctx') \<Longrightarrow> publish_frame ctx ctx'"
  by (auto simp: buxn_ls_end_msg_def ok_simps publish_frame_def)

lemma move_uri_frame [simp]: "publish_frame ctx (move_uri lay uri ctx)"
  by (simp add: publish_frame_def move_uri_def bh.inv_put)

lemma add_diag_ctx [simp]: "ps_ctx (add_diag d ps) = ps_ctx ps"
  by (simp add: add_diag_def split: option.split prod.split)

lemma flush_publish_frame:
  "flush_publish api ps = Inr (b, ps') \<Longrightarrow> publish_frame (ps_ctx ps) (ps_ctx ps')"
  by (auto simp: flush_publish_def elim!: obind_InrE dest: end_msg_publish_frame split: option.splits prod.splits)

lemma publish_loop_frame:
  "publish_loop api diags ps = Inr ps' \<Longrightarrow> publish_frame (ps_ctx ps) (ps_ctx ps')"
proof (induction diags arbitrary: ps)
  case (Cons d diags)
  show ?case
  proof (cases "l_uri (dg_location d) = ps_last_uri ps")
    case True
    then show ?thesis using Cons.IH [of "add_diag d ps"] Cons.prems by simp
  next
    case False
    then obtain uri success ps2 where uri: "l_uri (dg_location d) = Some uri"
      and f: "flush_publish api (ps\<lparr>ps_ctx := move_uri (la_layout api) uri (ps_ctx ps)\<rparr>) = Inr (success, ps2)"
      and rest: "(if \<not> success then Inr ps2 else publish_loop api diags
         (add_diag d (ps2\<lparr>ps_msg := Some (Some uri, []), ps_last_uri := Some uri\<rparr>))) = Inr ps'"
      using Cons.prems by (auto elim!: obind_InrE split: option.splits)
    have "publish_frame (ps_ctx ps) (ps_ctx ps2)"
      using flush_publish_frame [OF f] publish_frame_trans [OF move_uri_frame] by simp
    moreover have "publish_frame (ps_ctx ps2) (ps_ctx ps')"
      using rest Cons.IH [of "add_diag d (ps2\<lparr>ps_msg := Some (Some uri, []), ps_last_uri := Some uri\<rparr>)"]
      by (cases success) auto
    ultimately show ?thesis by (rule publish_frame_trans)
  qed
qed simp

lemma unpublish_frame: "unpublish api uri ctx = Inr ctx' \<Longrightarrow> publish_frame ctx ctx'"
  by (auto simp: unpublish_def elim!: obind_InrE dest: end_msg_publish_frame)

lemma publish_diagnostics_frame:
  assumes "publish_diagnostics api ctx = Inr ctx'" and "bhash_inv (lc_currently_diagnosed ctx)"
  shows "lc_workspace ctx' = lc_workspace ctx" "lc_analyzer ctx' = lc_analyzer ctx"
    "lc_should_terminate ctx' = lc_should_terminate ctx" "lc_timer_pending ctx' = lc_timer_pending ctx"
    "lc_currently_diagnosed ctx' = []" "bhash_inv (lc_previously_diagnosed ctx')"
proof -
  from assms(1) obtain ps success ps1 ctx1 where
    l: "publish_loop api (an_diagnostics (lc_analyzer ctx)) \<lparr>ps_ctx = ctx, ps_last_uri = None, ps_msg = None\<rparr> = Inr ps"
    and f: "flush_publish api ps = Inr (success, ps1)"
    and u: "ofold (unpublish api) (bhash_keys (lc_previously_diagnosed (ps_ctx ps1))) (ps_ctx ps1) = Inr ctx1"
    and ctx': "ctx' = ctx1\<lparr>lc_previously_diagnosed := lc_currently_diagnosed ctx1, lc_currently_diagnosed := []\<rparr>"
    by (auto simp: publish_diagnostics_def elim!: obind_InrE)
  have "publish_frame (ps_ctx ps1) ctx1"
    by (rule ofold_inv [OF u]) (auto dest: unpublish_frame intro: publish_frame_trans)
  then have "publish_frame ctx ctx1"
    using publish_loop_frame [OF l] flush_publish_frame [OF f] publish_frame_trans by fastforce
  with assms(2) ctx' show "lc_workspace ctx' = lc_workspace ctx" "lc_analyzer ctx' = lc_analyzer ctx"
    "lc_should_terminate ctx' = lc_should_terminate ctx" "lc_timer_pending ctx' = lc_timer_pending ctx"
    "lc_currently_diagnosed ctx' = []" "bhash_inv (lc_previously_diagnosed ctx')"
    by (simp_all add: publish_frame_def)
qed

section \<open>The invariant of a session\<close>

definition ls_inv :: "buxn_ls_ctx \<Rightarrow> bool" where
  "ls_inv ctx \<longleftrightarrow>
     workspace_inv (lc_workspace ctx) \<and> analyzer_ok (lc_analyzer ctx) \<and>
     lc_currently_diagnosed ctx = [] \<and> bhash_inv (lc_previously_diagnosed ctx)"

definition server_inv :: "server \<Rightarrow> bool" where
  "server_inv sv \<longleftrightarrow>
     ls_inv (sv_ctx sv) \<and>
     (sv_phase sv \<noteq> Serving \<longrightarrow> \<not> lc_timer_pending (sv_ctx sv)) \<and>
     ((\<forall>c. sv_phase sv \<noteq> Ended c) \<longrightarrow> \<not> lc_should_terminate (sv_ctx sv))"

lemma handler_frame_inv: "handler_frame ctx ctx' \<Longrightarrow> ls_inv ctx \<Longrightarrow> ls_inv ctx'"
  by (simp add: handler_frame_def ls_inv_def)

lemma analyze_workspace_inv:
  assumes "ls_inv ctx" and "buxn_ls_analyze_workspace api ctx = Inr ctx'"
  shows "ls_inv ctx'" "lc_should_terminate ctx' = lc_should_terminate ctx"
    "lc_timer_pending ctx' = lc_timer_pending ctx" "lc_workspace ctx' = lc_workspace ctx"
proof -
  from assms(2) obtain a where a: "buxn_ls_analyze (la_asm api) (lc_workspace ctx) (lc_analyzer ctx) = Inr a"
    and p: "publish_diagnostics api (ctx\<lparr>lc_analyzer := a\<rparr>) = Inr ctx'"
    by (auto simp: buxn_ls_analyze_workspace_def elim!: obind_InrE)
  have i: "workspace_inv (lc_workspace ctx)" "analyzer_inv (lc_analyzer ctx)"
    using assms(1) by (simp_all add: ls_inv_def analyzer_ok_def)
  have "analyzer_ok a"
    using analyze_keeps_inv [OF i a] analyze_sym_inv [OF i a] by (simp add: analyzer_ok_def)
  moreover have "bhash_inv (lc_currently_diagnosed (ctx\<lparr>lc_analyzer := a\<rparr>))"
    using assms(1) by (simp add: ls_inv_def)
  note f = publish_diagnostics_frame [OF p this]
  ultimately show "ls_inv ctx'" using i(1) f by (simp add: ls_inv_def)
  show "lc_should_terminate ctx' = lc_should_terminate ctx"
    "lc_timer_pending ctx' = lc_timer_pending ctx" "lc_workspace ctx' = lc_workspace ctx"
    using f by simp_all
qed

lemma handle_msg_inv:
  assumes "ls_inv ctx" and "buxn_ls_handle_msg api msg ctx = Inr ctx'"
  shows "ls_inv ctx'"
    "lc_should_terminate ctx' \<longleftrightarrow> lc_should_terminate ctx \<or>
       in_type msg = BIO_LSP_MSG_NOTIFICATION \<and> in_method msg = Some ''exit''"
proof -
  have "ls_inv ctx' \<and> (lc_should_terminate ctx' \<longleftrightarrow> lc_should_terminate ctx \<or>
       in_type msg = BIO_LSP_MSG_NOTIFICATION \<and> in_method msg = Some ''exit'')"
  proof (cases "in_type msg")
    case BIO_LSP_MSG_REQUEST
    with assms(2) have "handle_request api msg ctx = Inr ctx'" by (simp add: buxn_ls_handle_msg_def)
    from handle_request_reply [OF this] obtain ctx1 ch where fr: "handler_frame ctx ctx1"
      and ctx': "ctx' = ctx1\<lparr>lc_out := ch\<rparr>" by blast
    have "ls_inv ctx'" using handler_frame_inv [OF fr assms(1)] by (simp add: ctx' ls_inv_def)
    moreover have "lc_should_terminate ctx' = lc_should_terminate ctx"
      using fr by (simp add: ctx' handler_frame_def)
    ultimately show ?thesis using BIO_LSP_MSG_REQUEST by simp
  next
    case BIO_LSP_MSG_NOTIFICATION
    with assms show ?thesis
      by (auto simp: buxn_ls_handle_msg_def handle_notification_def ls_inv_def update_inv
          elim!: obind_InrE split: option.splits if_splits)
  qed (use assms in \<open>simp_all add: buxn_ls_handle_msg_def\<close>)
  then show "ls_inv ctx'"
    "lc_should_terminate ctx' \<longleftrightarrow> lc_should_terminate ctx \<or>
       in_type msg = BIO_LSP_MSG_NOTIFICATION \<and> in_method msg = Some ''exit''" by blast+
qed

end
