(* ===== verification/Ls_Session.thy ===== *)
theory Ls_Session
  imports Ls_Props
begin

text \<open>
  Sessions: what every step keeps, how a session ends and with which exit code, that it cannot go on
  for longer than its input, and when the timer can fire.
\<close>

section \<open>Steps\<close>

definition exit_msg :: "bio_lsp_in_msg \<Rightarrow> bool" where
  "exit_msg msg \<longleftrightarrow> in_type msg = BIO_LSP_MSG_NOTIFICATION \<and> in_method msg = Some ''exit''"

inductive_cases ls_stepE: "ls_step api sv sv'"

text \<open>A turn either fails to receive a message or handles one.\<close>

lemma message_turn_cases:
  assumes "message_turn api sv = Inr sv'" and "\<forall>code. sv_phase sv \<noteq> Ended code"
  obtains (no_message) size e where
      "buxn_ls_recv_msg api (sv_in sv) (sv_buf_size sv) (sv_msg sv) = Inr (size, Inl e)"
      "sv' = end_session (sv_phase sv = Serving) 1 (sv\<lparr>sv_buf_size := size\<rparr>)"
  | (message) size msg rest sv2 where
      "buxn_ls_recv_msg api (sv_in sv) (sv_buf_size sv) (sv_msg sv) = Inr (size, Inr (msg, rest))"
      "sv2 = sv\<lparr>sv_buf_size := size, sv_msg := msg, sv_in := rest\<rparr>"
      "sv_phase sv = Await_initialize \<Longrightarrow> await_initialize_turn api sv2 = Inr sv'"
      "sv_phase sv = Await_initialized \<Longrightarrow> sv' = await_initialized_turn sv2"
      "sv_phase sv = Serving \<Longrightarrow> serving_turn api sv2 = Inr sv'"
proof -
  from assms have "obind (buxn_ls_recv_msg api (sv_in sv) (sv_buf_size sv) (sv_msg sv)) (\<lambda>(size, received).
      case received of
        Inl e \<Rightarrow> Inr (end_session (sv_phase sv = Serving) 1 (sv\<lparr>sv_buf_size := size\<rparr>))
      | Inr (msg, rest) \<Rightarrow>
          (let sv2 = sv\<lparr>sv_buf_size := size, sv_msg := msg, sv_in := rest\<rparr>
           in case sv_phase sv of
                Await_initialize \<Rightarrow> await_initialize_turn api sv2
              | Await_initialized \<Rightarrow> Inr (await_initialized_turn sv2)
              | _ \<Rightarrow> serving_turn api sv2)) = Inr sv'"
    by (cases "sv_phase sv") (simp_all add: message_turn_def Let_def cong: sum.case_cong)
  then obtain size received where
    r: "buxn_ls_recv_msg api (sv_in sv) (sv_buf_size sv) (sv_msg sv) = Inr (size, received)"
    and k: "(case received of
        Inl e \<Rightarrow> Inr (end_session (sv_phase sv = Serving) 1 (sv\<lparr>sv_buf_size := size\<rparr>))
      | Inr (msg, rest) \<Rightarrow>
          (let sv2 = sv\<lparr>sv_buf_size := size, sv_msg := msg, sv_in := rest\<rparr>
           in case sv_phase sv of
                Await_initialize \<Rightarrow> await_initialize_turn api sv2
              | Await_initialized \<Rightarrow> Inr (await_initialized_turn sv2)
              | _ \<Rightarrow> serving_turn api sv2)) = Inr sv'"
    by (elim obind_InrE) auto
  show thesis
  proof (cases received)
    case (Inl e)
    with r k show thesis by (intro no_message [of size e]) simp_all
  next
    case (Inr mr)
    obtain msg rest where "mr = (msg, rest)" by fastforce
    with r k Inr show thesis by (intro message [of size msg rest]) (simp_all add: Let_def)
  qed
qed

lemma await_initialize_cases:
  assumes "await_initialize_turn api sv = Inr sv'"
  obtains (left) "exit_msg (sv_msg sv)" "sv' = end_session False 0 sv"
  | (ignored) "\<not> exit_msg (sv_msg sv)" "sv' = sv"
  | (refused) "\<not> exit_msg (sv_msg sv)" "sv' = end_session False 1 sv"
  | (started) ctx where "\<not> exit_msg (sv_msg sv)"
      "buxn_ls_initialize api (sv_msg sv) (sv_ctx sv) = Inr (True, ctx)"
      "sv' = sv\<lparr>sv_ctx := ctx, sv_phase := Await_initialized\<rparr>"
  | (failed) ctx where "\<not> exit_msg (sv_msg sv)"
      "buxn_ls_initialize api (sv_msg sv) (sv_ctx sv) = Inr (False, ctx)"
      "sv' = end_session False 1 (sv\<lparr>sv_ctx := ctx\<rparr>)"
proof (cases "in_type (sv_msg sv)")
  case BIO_LSP_MSG_REQUEST
  then have x: "\<not> exit_msg (sv_msg sv)" by (simp add: exit_msg_def)
  show thesis
  proof (cases "in_method (sv_msg sv) = Some ''initialize''")
    case True
    with BIO_LSP_MSG_REQUEST assms obtain b ctx where
      i: "buxn_ls_initialize api (sv_msg sv) (sv_ctx sv) = Inr (b, ctx)"
      and sv': "sv' = (if b then sv\<lparr>sv_ctx := ctx, sv_phase := Await_initialized\<rparr>
        else end_session False 1 (sv\<lparr>sv_ctx := ctx\<rparr>))"
      by (auto simp: await_initialize_turn_def Let_def obind_Inr_conv)
    with x show thesis by (cases b) (auto intro: started failed)
  next
    case False
    with BIO_LSP_MSG_REQUEST assms x show thesis
      by (intro refused) (simp_all add: await_initialize_turn_def Let_def)
  qed
next
  case notif: BIO_LSP_MSG_NOTIFICATION
  show thesis
  proof (cases "in_method (sv_msg sv) = Some ''exit''")
    case True
    with notif assms show thesis
      by (intro left) (simp_all add: await_initialize_turn_def exit_msg_def Let_def)
  next
    case False
    with notif assms show thesis
      by (intro ignored) (simp_all add: await_initialize_turn_def exit_msg_def Let_def)
  qed
next
  case BIO_LSP_MSG_RESULT
  with assms show thesis
    by (intro refused) (simp_all add: await_initialize_turn_def exit_msg_def Let_def)
next
  case BIO_LSP_MSG_ERROR
  with assms show thesis
    by (intro refused) (simp_all add: await_initialize_turn_def exit_msg_def Let_def)
qed

lemma await_initialized_cases:
  obtains (left) "exit_msg (sv_msg sv)" "await_initialized_turn sv = end_session False 0 sv"
  | (serve) "\<not> exit_msg (sv_msg sv)" "await_initialized_turn sv = sv\<lparr>sv_phase := Serving\<rparr>"
  | (ignored) "\<not> exit_msg (sv_msg sv)" "await_initialized_turn sv = sv"
  | (refused) "\<not> exit_msg (sv_msg sv)" "await_initialized_turn sv = end_session False 1 sv"
proof (cases "in_type (sv_msg sv) = BIO_LSP_MSG_NOTIFICATION")
  case True
  show thesis
  proof (cases "in_method (sv_msg sv) = Some ''exit''")
    case exit: True
    with True show thesis
      by (intro left) (simp_all add: await_initialized_turn_def exit_msg_def Let_def)
  next
    case other: False
    then have x: "\<not> exit_msg (sv_msg sv)" by (simp add: exit_msg_def)
    show thesis
    proof (cases "in_method (sv_msg sv) = Some ''initialized''")
      case start: True
      with True x show thesis by (intro serve) (simp_all add: await_initialized_turn_def Let_def)
    next
      case rest: False
      with True x other show thesis by (intro ignored) (simp_all add: await_initialized_turn_def Let_def)
    qed
  qed
next
  case False
  then show thesis
    by (intro refused; cases "in_type (sv_msg sv)")
      (simp_all add: await_initialized_turn_def exit_msg_def Let_def)
qed

lemma end_session_simps [simp]:
  "sv_phase (end_session i c sv) = Ended c" "sv_msg (end_session i c sv) = sv_msg sv"
  "sv_in (end_session i c sv) = sv_in sv"
  "sv_ctx (end_session i c sv) = (if i then buxn_ls_cleanup (sv_ctx sv) else sv_ctx sv)"
  by (simp_all add: end_session_def)

section \<open>The invariant\<close>

lemma server_start_inv: "server_inv (server_start input out)"
  by (simp add: server_inv_def ls_inv_def server_start_def workspace_inv_def bhash_inv_def
      bhash_keys_def analyzer_init_ok)

lemma cleanup_inv: "ls_inv ctx \<Longrightarrow> ls_inv (buxn_ls_cleanup ctx)"
  by (simp add: ls_inv_def buxn_ls_cleanup_def workspace_inv_def bhash_inv_def bhash_keys_def
      analyzer_init_ok)

lemma cleanup_timer [simp]: "lc_timer_pending (buxn_ls_cleanup ctx) = False"
  by (simp add: buxn_ls_cleanup_def)

lemma initialize_inv:
  assumes "buxn_ls_initialize api msg ctx = Inr (b, ctx')" and "workspace_inv (lc_workspace ctx)"
  shows "ls_inv ctx' \<and> lc_should_terminate ctx' = lc_should_terminate ctx \<and>
    lc_timer_pending ctx' = lc_timer_pending ctx"
  using assms
  by (auto simp: buxn_ls_initialize_def buxn_ls_end_msg_def ls_inv_def bhash_inv_def bhash_keys_def
      analyzer_init_ok workspace_init_inv Let_def elim!: obind_InrE split: option.splits)

text \<open>The invariant of the server with what its phase says about the last message: a session that has
  ended returned 0 for \<open>exit\<close> and 1 for anything else.\<close>

definition session_inv :: "server \<Rightarrow> bool" where
  "session_inv sv \<longleftrightarrow>
     server_inv sv \<and>
     (case sv_phase sv of
        Ended code \<Rightarrow> code = (if exit_msg (sv_msg sv) then 0 else 1)
      | _ \<Rightarrow> \<not> exit_msg (sv_msg sv))"

lemma session_inv_open:
  "\<forall>code. sv_phase sv \<noteq> Ended code \<Longrightarrow>
     session_inv sv \<longleftrightarrow> server_inv sv \<and> \<not> exit_msg (sv_msg sv)"
  by (auto simp: session_inv_def split: phase.split)

lemma message_turn_inv:
  assumes "message_turn api sv = Inr sv'" and live: "\<forall>code. sv_phase sv \<noteq> Ended code"
    and "session_inv sv"
  shows "session_inv sv'"
proof -
  from assms(3) live have inv: "server_inv sv" "\<not> exit_msg (sv_msg sv)"
    by (simp_all add: session_inv_open)
  then have ls: "ls_inv (sv_ctx sv)" "sv_phase sv \<noteq> Serving \<Longrightarrow> \<not> lc_timer_pending (sv_ctx sv)"
    "\<not> lc_should_terminate (sv_ctx sv)"
    using live by (auto simp: server_inv_def)
  from assms(1) live show ?thesis
  proof (cases rule: message_turn_cases)
    case (no_message size e)
    then show ?thesis using inv(2) ls by (auto simp: session_inv_def server_inv_def cleanup_inv)
  next
    case (message size msg rest sv2)
    have sv2: "sv_ctx sv2 = sv_ctx sv" "sv_phase sv2 = sv_phase sv" "sv_msg sv2 = msg"
      by (simp_all add: message(2))
    consider "sv_phase sv = Await_initialize" | "sv_phase sv = Await_initialized" | "sv_phase sv = Serving"
      using live by (cases "sv_phase sv") auto
    then show ?thesis
    proof cases
      case 1
      have ws: "workspace_inv (lc_workspace (sv_ctx sv2))" using ls(1) sv2 by (simp add: ls_inv_def)
      from message(3) [OF 1] show ?thesis
      proof (cases rule: await_initialize_cases)
        case (started ctx)
        then show ?thesis using initialize_inv [OF started(2) ws] ls sv2 1
          by (simp add: session_inv_def server_inv_def)
      next
        case (failed ctx)
        then show ?thesis using initialize_inv [OF failed(2) ws] ls sv2 1
          by (auto simp: session_inv_def server_inv_def cleanup_inv)
      qed (use ls sv2 1 in \<open>auto simp: session_inv_def server_inv_def cleanup_inv\<close>)
    next
      case 2
      show ?thesis unfolding message(4) [OF 2]
        by (cases rule: await_initialized_cases [of sv2])
          (use ls sv2 2 in \<open>auto simp: session_inv_def server_inv_def cleanup_inv\<close>)
    next
      case 3
      from message(5) [OF 3] obtain ctx where
        h: "buxn_ls_handle_msg api msg (sv_ctx sv) = Inr ctx"
        and sv': "sv' = (if lc_should_terminate ctx then end_session True 0 (sv2\<lparr>sv_ctx := ctx\<rparr>)
          else sv2\<lparr>sv_ctx := ctx\<rparr>)"
        by (auto simp: serving_turn_def sv2 Let_def elim!: obind_InrE)
      note i = handle_msg_inv [OF ls(1) h]
      then have "lc_should_terminate ctx \<longleftrightarrow> exit_msg msg" using ls(3) by (simp add: exit_msg_def)
      then show ?thesis using i sv' sv2 3
        by (auto simp: session_inv_def server_inv_def cleanup_inv)
    qed
  qed
qed

lemma timer_turn_inv:
  assumes "timer_turn api sv = Inr sv'" and "lc_timer_pending (sv_ctx sv)" and "session_inv sv"
  shows "session_inv sv'" "\<not> lc_timer_pending (sv_ctx sv')" "sv_in sv' = sv_in sv"
    "sv_phase sv' = sv_phase sv" "sv_phase sv = Serving"
proof -
  from assms(1) obtain ctx where
    a: "buxn_ls_analyze_workspace api ((sv_ctx sv)\<lparr>lc_timer_pending := False\<rparr>) = Inr ctx"
    and sv': "sv' = sv\<lparr>sv_ctx := ctx\<rparr>"
    by (auto simp: timer_turn_def elim!: obind_InrE)
  show ph: "sv_phase sv = Serving" using assms(2,3) by (auto simp: session_inv_def server_inv_def)
  have "ls_inv ((sv_ctx sv)\<lparr>lc_timer_pending := False\<rparr>)"
    using assms(3) by (simp add: session_inv_def server_inv_def ls_inv_def)
  from analyze_workspace_inv [OF this a] show "session_inv sv'" "\<not> lc_timer_pending (sv_ctx sv')"
    using assms(3) ph sv' by (auto simp: session_inv_def server_inv_def)
  show "sv_in sv' = sv_in sv" "sv_phase sv' = sv_phase sv" using sv' by simp_all
qed

lemma step_inv: "ls_step api sv sv' \<Longrightarrow> session_inv sv \<Longrightarrow> session_inv sv'"
  by (elim ls_stepE) (use message_turn_inv timer_turn_inv(1) in blast)+

lemma start_session_inv: "session_inv (server_start input out)"
  using server_start_inv
  by (subst session_inv_open) (auto simp: server_start_def exit_msg_def)

section \<open>Receiving\<close>

lemma recv_header_shorter:
  assumes "bio_lsp_recv_msg_header s = Inr (n, r)"
  shows "length r + 2 \<le> length s" "0 < n"
proof -
  have "0 < n \<and> n < 2 ^ 64 \<and> (\<exists>h. s = h @ [CR, LF] @ r)"
    using recv_header_loop_bounds [of 0 s n r] assms by (simp add: bio_lsp_recv_msg_header_def)
  then show "length r + 2 \<le> length s" "0 < n" by auto
qed

lemma recv_msg_shorter:
  assumes "buxn_ls_recv_msg api s bsz msg = Inr (bsz', Inr (msg', r))"
  shows "length r + 3 \<le> length s"
proof -
  from assms obtain n rest where h: "bio_lsp_recv_msg_header s = Inr (n, rest)"
    and r: "n \<le> length rest" "r = drop n rest"
    by (auto simp: buxn_ls_recv_msg_def Let_def split: sum.splits if_splits)
  from recv_header_shorter [OF h] r show ?thesis by simp
qed

text \<open>A framed message is received as its body parses.\<close>

lemma recv_frame:
  assumes "n = length body" and "0 < n" and "n < 10 ^ 11" and "la_json_memory api n + n < 2 ^ 64"
  shows "buxn_ls_recv_msg api (header_text n @ body @ r) bsz msg =
    Inr (max (la_json_memory api n + n) bsz,
      case bio_lsp_parse_msg (la_yy api) body msg of Inl e \<Rightarrow> Inl e | Inr msg' \<Rightarrow> Inr (msg', r))"
proof -
  have "bio_lsp_recv_msg_header (header_text n @ body @ r) = Inr (n, body @ r)"
    by (rule recv_header_text [OF assms(2,3)])
  then show ?thesis
    using assms(1,4) by (auto simp: buxn_ls_recv_msg_def Let_def max_def split: sum.split)
qed

section \<open>How long a session lasts\<close>

definition session_measure :: "server \<Rightarrow> nat" where
  "session_measure sv =
     (if \<exists>code. sv_phase sv = Ended code then 0 else 2 * length (sv_in sv) + 2) +
     (if lc_timer_pending (sv_ctx sv) then 1 else 0)"

lemma turns_input:
  "await_initialize_turn api sv = Inr sv' \<Longrightarrow> sv_in sv' = sv_in sv"
  "sv_in (await_initialized_turn sv) = sv_in sv"
  "serving_turn api sv = Inr sv' \<Longrightarrow> sv_in sv' = sv_in sv"
proof -
  show "sv_in sv' = sv_in sv" if "await_initialize_turn api sv = Inr sv'"
    using that by (cases rule: await_initialize_cases) auto
  show "sv_in (await_initialized_turn sv) = sv_in sv"
    by (cases rule: await_initialized_cases [of sv]) auto
  show "sv_in sv' = sv_in sv" if "serving_turn api sv = Inr sv'"
    using that by (auto simp: serving_turn_def Let_def elim!: obind_InrE split: if_splits)
qed

lemma session_inv_timer: "session_inv sv \<Longrightarrow> sv_phase sv \<noteq> Serving \<Longrightarrow> \<not> lc_timer_pending (sv_ctx sv)"
  by (simp add: session_inv_def server_inv_def)

lemma step_decreases:
  assumes "ls_step api sv sv'" and "session_inv sv"
  shows "session_measure sv' < session_measure sv"
  using assms(1)
proof cases
  case step_message
  have inv': "session_inv sv'" by (rule message_turn_inv [OF step_message assms(2)])
  from step_message show ?thesis
  proof (cases rule: message_turn_cases)
    case (no_message size e)
    then show ?thesis
      using step_message(2) session_inv_timer [OF inv'] by (simp add: session_measure_def)
  next
    case (message size msg rest sv2)
    have "sv_in sv' = rest"
      using message(2-5) step_message(2) turns_input by (cases "sv_phase sv") auto
    then have "length (sv_in sv') + 3 \<le> length (sv_in sv)"
      using recv_msg_shorter [OF message(1)] by simp
    then show ?thesis
      using step_message(2) session_inv_timer [OF inv'] by (auto simp: session_measure_def)
  qed
next
  case step_timer
  note t = timer_turn_inv [OF step_timer(2,1) assms(2)]
  then show ?thesis using step_timer(1) by (auto simp: session_measure_def)
qed

interpretation ls: bounded_system "ls_step api" session_inv session_measure for api
  by unfold_locales (fact step_inv, fact step_decreases)

section \<open>A session for the witnesses\<close>

text \<open>The editor sends \<open>initialize\<close>, \<open>initialized\<close> and \<open>exit\<close>.\<close>

definition demo_frame :: "string \<Rightarrow> string" where
  "demo_frame body = header_text 3 @ body"

definition demo_input :: string where
  "demo_input = demo_frame ''{i}'' @ demo_frame ''{n}'' @ demo_frame ''{x}''"

definition demo_server :: server where
  "demo_server = server_start demo_input \<lparr>o_sent = [], o_script = []\<rparr>"

lemma demo_recv:
  "length body = 3 \<Longrightarrow> buxn_ls_recv_msg demo_api (demo_frame body @ r) bsz msg =
    Inr (max 295 bsz,
      case bio_lsp_parse_msg demo_yy body msg of Inl e \<Rightarrow> Inl e | Inr msg' \<Rightarrow> Inr (msg', r))"
  using recv_frame [of 3 body demo_api r bsz msg] by (simp add: demo_frame_def demo_api_def)

lemma demo_send:
  "o_script ch = [] \<Longrightarrow> yy_write demo_yy (out_root msg) = Some body \<Longrightarrow> length body = 3 \<Longrightarrow>
     bio_lsp_send_msg demo_yy msg ch = Inr (True, ch\<lparr>o_sent := o_sent ch @ demo_frame body\<rparr>)"
  by (simp add: send_ok demo_frame_def)

lemma demo_api_sel: "la_yy demo_api = demo_yy" "la_yuarel demo_api = demo_url"
  "la_initialize_json demo_api = Some (JObj [])"
  by (simp_all add: demo_api_def)

lemma demo_parse:
  "bio_lsp_parse_msg demo_yy ''{i}'' msg = Inr \<lparr>in_type = BIO_LSP_MSG_REQUEST, in_id = Some (JInt 1),
     in_method = Some ''initialize'', in_value = Some (JObj [(''rootPath'', JStr ''/r'')])\<rparr>"
  "bio_lsp_parse_msg demo_yy ''{n}'' msg = Inr \<lparr>in_type = BIO_LSP_MSG_NOTIFICATION, in_id = None,
     in_method = Some ''initialized'', in_value = None\<rparr>"
  "bio_lsp_parse_msg demo_yy ''{x}'' msg = Inr \<lparr>in_type = BIO_LSP_MSG_NOTIFICATION, in_id = None,
     in_method = Some ''exit'', in_value = None\<rparr>"
  by (simp_all add: bio_lsp_parse_msg_def demo_yy_def yy_get_cstr_def cstr_def NUL_def Let_def)

lemma demo_initialize:
  assumes "o_script (lc_out ctx) = []"
  shows "\<exists>ctx'. buxn_ls_initialize demo_api \<lparr>in_type = BIO_LSP_MSG_REQUEST, in_id = Some (JInt 1),
     in_method = Some ''initialize'', in_value = Some (JObj [(''rootPath'', JStr ''/r'')])\<rparr> ctx = Inr (True, ctx')"
proof -
  have root: "find_root_dir demo_api (Some (JObj [(''rootPath'', JStr ''/r'')])) = Inr (Some ''/r'')"
    by (simp add: find_root_dir_def file_url_path_def demo_api_sel demo_yy_def yy_get_cstr_def cstr_def
        NUL_def Let_def)
  have "yy_write demo_yy (out_root \<lparr>out_type = BIO_LSP_MSG_RESULT, out_id = Some (JInt 1),
      out_method = None, out_value = Some (JObj [])\<rparr>) = Some ''{2}''"
    by (simp add: demo_yy_def out_root_def obj_add_def)
  from demo_send [OF _ this] assms show ?thesis
    by (simp add: buxn_ls_initialize_def root buxn_ls_begin_msg_def buxn_ls_end_msg_def demo_api_sel Let_def)
qed

lemma demo_session_steps:
  "\<exists>sv1 sv2 sv3. ls_step demo_api demo_server sv1 \<and> ls_step demo_api sv1 sv2 \<and> ls_step demo_api sv2 sv3 \<and>
     sv_phase sv2 = Serving \<and> sv_phase sv3 = Ended 0 \<and> sv_in sv3 = []"
proof -
  have start: "sv_phase demo_server = Await_initialize" "sv_in demo_server = demo_input"
    "o_script (lc_out (sv_ctx demo_server)) = []"
    by (simp_all add: demo_server_def server_start_def)
  obtain sv1 where s1: "message_turn demo_api demo_server = Inr sv1"
    "sv_phase sv1 = Await_initialized" "sv_in sv1 = demo_frame ''{n}'' @ demo_frame ''{x}''"
    using demo_initialize [OF start(3)]
    by (auto simp: message_turn_def start demo_input_def demo_recv demo_parse await_initialize_turn_def Let_def)
  obtain sv2 where s2: "message_turn demo_api sv1 = Inr sv2"
    "sv_phase sv2 = Serving" "sv_in sv2 = demo_frame ''{x}''"
    by (simp add: message_turn_def s1 demo_recv demo_parse await_initialized_turn_def Let_def)
  obtain sv3 where s3: "message_turn demo_api sv2 = Inr sv3" "sv_phase sv3 = Ended 0" "sv_in sv3 = []"
    using demo_recv [of "''{x}''" "[]"]
    by (simp add: message_turn_def s2 demo_parse serving_turn_def buxn_ls_handle_msg_def
        handle_notification_def Let_def)
  have "ls_step demo_api demo_server sv1" by (rule step_message) (simp_all add: s1 start)
  moreover have "ls_step demo_api sv1 sv2" by (rule step_message) (simp_all add: s1 s2)
  moreover have "ls_step demo_api sv2 sv3" by (rule step_message) (simp_all add: s2 s3)
  ultimately show ?thesis using s2 s3 by blast
qed

lemma demo_session_runs:
  "\<exists>sv. ls_reach demo_api demo_server sv \<and> (ls_step demo_api ^^ 3) demo_server sv \<and>
     sv_phase sv = Ended 0 \<and> sv_in sv = []"
proof -
  from demo_session_steps obtain sv1 sv2 sv3 where
    s: "ls_step demo_api demo_server sv1" "ls_step demo_api sv1 sv2" "ls_step demo_api sv2 sv3"
      "sv_phase sv3 = Ended 0" "sv_in sv3 = []" by blast
  then have "ls_reach demo_api demo_server sv3" by (meson reach_refl reach_step)
  moreover have "(ls_step demo_api ^^ 3) demo_server sv3"
    unfolding numeral_3_eq_3 using s(1-3) by (auto simp: relcompp_apply)
  ultimately show ?thesis using s by blast
qed

section \<open>Properties\<close>

text \<open>In every state that a session can reach, whatever the editor sends and the assembler does, the
  workspace and the analyzer are well-formed, no file is marked as being diagnosed, and the timer is
  pending only while the server serves.\<close>

theorem session_well_formed:
  assumes "ls_reach api (server_start input out) sv"
  shows "workspace_inv (lc_workspace (sv_ctx sv)) \<and> analyzer_ok (lc_analyzer (sv_ctx sv)) \<and>
    lc_currently_diagnosed (sv_ctx sv) = [] \<and> bhash_inv (lc_previously_diagnosed (sv_ctx sv)) \<and>
    (lc_timer_pending (sv_ctx sv) \<longrightarrow> sv_phase sv = Serving)"
  using ls.reach_inv [OF assms start_session_inv]
  by (auto simp: session_inv_def server_inv_def ls_inv_def)

theorem session_well_formed_witness:
  "\<exists>sv. ls_reach demo_api demo_server sv \<and> sv_phase sv = Ended 0 \<and> \<not> lc_timer_pending (sv_ctx sv)"
proof -
  from demo_session_runs obtain sv where s: "ls_reach demo_api demo_server sv" "sv_phase sv = Ended 0"
    by blast
  with session_well_formed [of demo_api demo_input "\<lparr>o_sent = [], o_script = []\<rparr>" sv] show ?thesis
    by (auto simp: demo_server_def)
qed

text \<open>C14: A session that has ended returned 0 if the last message it received was the notification
  \<open>exit\<close>, in whatever phase it came, and 1 if not: it never ends for another reason with code 0, and
  never ignores an \<open>exit\<close>.\<close>

theorem session_exit_code:
  assumes "ls_reach api (server_start input out) sv"
  shows "(\<forall>code. sv_phase sv = Ended code \<longrightarrow> code = (if exit_msg (sv_msg sv) then 0 else 1)) \<and>
    (exit_msg (sv_msg sv) \<longrightarrow> sv_phase sv = Ended 0)"
  using ls.reach_inv [OF assms start_session_inv] by (auto simp: session_inv_def split: phase.splits)

theorem session_exit_code_witness:
  "\<exists>sv. ls_reach demo_api demo_server sv \<and> sv_phase sv = Ended 0 \<and> exit_msg (sv_msg sv)"
proof -
  from demo_session_runs obtain sv where s: "ls_reach demo_api demo_server sv" "sv_phase sv = Ended 0"
    by blast
  with session_exit_code [of demo_api demo_input "\<lparr>o_sent = [], o_script = []\<rparr>" sv] show ?thesis
    by (auto simp: demo_server_def split: if_splits)
qed

text \<open>C24: A session makes at most two steps per byte of its input and two more: it cannot run on
  without input, neither by messages nor by the timer. Until it has ended it can always go on, unless
  its next turn faults.\<close>

theorem session_bounded:
  assumes "(ls_step api ^^ n) (server_start input out) sv"
  shows "n \<le> 2 * length input + 2 \<and>
    ((\<exists>code. sv_phase sv = Ended code) \<or> (\<exists>sv'. ls_step api sv sv') \<or> (\<exists>e. message_turn api sv = Inl e))"
proof -
  have "session_measure (server_start input out) = 2 * length input + 2"
    by (simp add: session_measure_def server_start_def)
  then have "n \<le> 2 * length input + 2"
    using ls.steps_bound [OF assms start_session_inv] by simp
  moreover have "\<exists>sv'. ls_step api sv sv'" if "message_turn api sv = Inr sv'" "\<forall>code. sv_phase sv \<noteq> Ended code" for sv'
    using step_message [OF that] by blast
  ultimately show ?thesis by (cases "message_turn api sv") auto
qed

theorem session_bounded_witness:
  "3 \<le> 2 * length demo_input + 2 \<and> (\<exists>sv. (ls_step demo_api ^^ 3) demo_server sv)"
proof -
  from demo_session_runs obtain sv where s: "(ls_step demo_api ^^ 3) demo_server sv" by blast
  with session_bounded [of 3 demo_api demo_input "\<lparr>o_sent = [], o_script = []\<rparr>" sv] show ?thesis
    by (auto simp: demo_server_def)
qed

end
