(* ===== verification/Ls_Requests.thy ===== *)
theory Ls_Requests
  imports Ls_Session
begin

text \<open>
  What requests return: definitions and references, symbol lists, completion, and the start of a
  session; when they arm or cancel the analysis; and what the receive buffer holds.
\<close>

section \<open>The document and the position of a request\<close>

lemma find_covering_Some:
  "find_covering cx pos ns = Some n \<Longrightarrow> n \<in> set ns \<and> covers_position (cx_sym_nodes cx ! n) pos"
  by (induction ns) (auto split: if_splits)

lemma find_covering_None:
  "find_covering cx pos ns = None \<longleftrightarrow> (\<forall>n \<in> set ns. \<not> covers_position (cx_sym_nodes cx ! n) pos)"
  by (induction ns) auto

abbreviation ls_cx :: "buxn_ls_ctx \<Rightarrow> analyzer_ctx" where
  "ls_cx ctx \<equiv> an_current (lc_analyzer ctx)"

lemma ls_invD:
  assumes "ls_inv ctx"
  shows "workspace_inv (lc_workspace ctx)" "analyzer_ok (lc_analyzer ctx)" "src_inv (ls_cx ctx)"
    "ranked (ls_cx ctx)" "listed_inv (ls_cx ctx)" "linked_inv (ls_cx ctx)"
  using assms by (auto simp: ls_inv_def analyzer_ok_def analyzer_inv_def sym_inv_def)

lemma request_source_bound:
  assumes "ls_inv ctx" and "request_source api ctx req = Inr (Some n)"
  shows "n < src_size (ls_cx ctx)"
  using assms(2) src_invD(4) [OF ls_invD(3) [OF assms(1)]]
  by (auto simp: request_source_def elim!: obind_InrE split: option.splits)

lemma src_def_is_def:
  "listed_inv cx \<Longrightarrow> s < src_size cx \<Longrightarrow> n \<in> set (src_defs cx s) \<Longrightarrow> is_def cx n \<and> sym_src cx n = s"
  using listed_invD(2) [of cx s n] by (auto simp: is_def_def)

lemma src_ref_is_ref:
  "listed_inv cx \<Longrightarrow> s < src_size cx \<Longrightarrow> n \<in> set (src_refs cx s) \<Longrightarrow> is_ref cx n \<and> sym_src cx n = s"
  using listed_invD(2) [of cx s n] by (auto simp: is_ref_def)

lemma ref_linked_back:
  assumes "linked_inv cx" and "is_ref cx r" and "out_nodes (cx_sym_graph cx) r = [d]"
  shows "is_def cx d" "r \<in> set (in_nodes (cx_sym_graph cx) d)"
proof -
  note g = linked_invD(1,2) [OF assms(1)]
  have r: "r < g_size (cx_sym_graph cx)" using assms(2) g by (simp add: is_ref_def)
  have "(r, d) \<in> set (pairs (cx_sym_graph cx))"
    using gr.in_outs [OF g(1) r, of d] assms(3) by simp
  then show "is_def cx d" using linked_invD(3) [OF assms(1)] by blast
  then have "d < g_size (cx_sym_graph cx)" using g by (simp add: is_def_def)
  then show "r \<in> set (in_nodes (cx_sym_graph cx) d)"
    using gr.in_ins [OF g(1), of d r] \<open>(r, d) \<in> set (pairs (cx_sym_graph cx))\<close> by simp
qed

lemma find_definition_ref:
  assumes "ls_inv ctx" and "request_source api ctx req = Inr (Some n)"
    and "find_covering (ls_cx ctx) (request_position api req) (src_refs (ls_cx ctx) n) = Some r"
  shows "\<exists>d. buxn_ls_find_definition api ctx req = Inr (Some d) \<and> is_def (ls_cx ctx) d \<and>
    is_ref (ls_cx ctx) r \<and> r \<in> set (in_nodes (cx_sym_graph (ls_cx ctx)) d)"
proof -
  have "r \<in> set (src_refs (ls_cx ctx) n)" using find_covering_Some [OF assms(3)] by simp
  then have ref: "is_ref (ls_cx ctx) r"
    using src_ref_is_ref [OF ls_invD(5) [OF assms(1)] request_source_bound [OF assms(1,2)]] by blast
  then obtain d where d: "out_nodes (cx_sym_graph (ls_cx ctx)) r = [d]"
    using linked_invD(4) [OF ls_invD(6) [OF assms(1)]] by blast
  then have "buxn_ls_find_definition api ctx req = Inr (Some d)"
    using assms(2,3) by (simp add: buxn_ls_find_definition_def src_refs_def)
  with ref ref_linked_back [OF ls_invD(6) [OF assms(1)] ref d] show ?thesis by blast
qed

section \<open>Lines\<close>

lemma split_loop_bounds:
  "(off, len) \<in> set (split_loop i start s) \<Longrightarrow>
     start \<le> i \<or> start = Suc i \<and> s \<noteq> [] \<and> hd s = LF \<Longrightarrow>
     off + len \<le> i + length s \<or> len = 2 ^ 64 - 1"
  by (induction i start s rule: split_loop.induct) (force simp: size_sub_def split: if_splits)+

lemma split_file_bounds:
  "(off, len) \<in> set (buxn_ls_split_file content) \<Longrightarrow> off + len \<le> length content \<or> len = 2 ^ 64 - 1"
  using split_loop_bounds [of off len 0 0 content] by (simp add: buxn_ls_split_file_def)

section \<open>Completion\<close>

lemma completion_start_total:
  "n \<le> length bytes \<Longrightarrow> \<exists>s. completion_start bytes n = Inr s \<and> s \<le> n"
proof (induction n)
  case (Suc n)
  then have "char_at bytes (int n) = Inr (bytes ! n)" by (simp add: char_at_def)
  with Suc show ?case by auto
qed simp

lemma byte_offset_negative_length:
  "bio_lsp_byte_offset_from_utf16_offset utf8 bytes (2 ^ 64 - 1) character = Some 0"
  by (simp add: bio_lsp_byte_offset_from_utf16_offset_def ssize_def byte_loop.simps)

lemma complete_in_line_total:
  assumes "utf8_ok (la_utf8 api)" and inv: "ls_inv ctx"
    and len: "len \<le> length bytes \<and> len < 2 ^ 63 \<or> len = 2 ^ 64 - 1"
  shows "\<exists>r. complete_in_line api p line character bytes len ctx = Inr r"
proof (cases "len = 2 ^ 64 - 1")
  case True
  then show ?thesis using byte_offset_negative_length by (simp add: complete_in_line_def)
next
  case False
  with len have n: "len \<le> length bytes" "len < 2 ^ 63" by auto
  obtain b where b: "bio_lsp_byte_offset_from_utf16_offset (la_utf8 api) bytes len character = Some (int b)"
    "b \<le> len"
    using byte_loop_roundtrip [OF assms(1) n(1), of 0 character 0] n(2)
    by (auto simp: bio_lsp_byte_offset_from_utf16_offset_def)
  obtain start where start: "completion_start bytes b = Inr start" "start \<le> b"
    using completion_start_total [of b bytes] b n by auto
  show ?thesis
  proof (cases "bhash_get (cx_sources (ls_cx ctx)) p")
    case None
    with b start show ?thesis by (simp add: complete_in_line_def)
  next
    case (Some src)
    have src: "src < src_size (ls_cx ctx)"
      using Some src_invD(4) [OF ls_invD(3) [OF inv]] by simp
    obtain v where v: "bio_lsp_utf16_offset_from_byte_offset (la_utf8 api) bytes len (int start) = Some v"
      using utf16_loop_returns [OF assms(1) n(1), of 0 "int start" 0] n(2)
      by (auto simp: bio_lsp_utf16_offset_from_byte_offset_def)
    let ?cctx = "\<lparr>cc_source = src, cc_line_content = (bytes, len),
      cc_prefix = take (b - start) (drop start bytes),
      cc_lsp_range = \<lparr>r_start = \<lparr>p_line = line, p_character = v\<rparr>,
                      r_end = \<lparr>p_line = line, p_character = character\<rparr>\<rparr>,
      cc_line_number = line, cc_prefix_start_byte = int start, cc_prefix_end_byte = int b\<rparr>"
    have "cctx_ok (ls_cx ctx) ?cctx" using src n b by (simp add: cctx_ok_def)
    then obtain r cmap where "buxn_ls_build_completion_list (la_utf8 api) (la_layout api) (ls_cx ctx) ?cctx
        (lc_completion_map ctx) = Inr (r, cmap)"
      using build_completion_list_total [OF assms(1) ls_invD(3,4) [OF inv]] by blast
    with Some b start v show ?thesis by (simp add: complete_in_line_def Let_def)
  qed
qed

section \<open>A request for the witnesses\<close>

definition demo_position :: "int \<Rightarrow> int \<Rightarrow> json option" where
  "demo_position line character = Some (JObj
     [(''textDocument'', JObj [(''uri'', JStr ''file:///r/a.tal'')]),
      (''position'', JObj [(''line'', JInt line), (''character'', JInt character)])])"

lemma demo_request_path: "request_path demo_api demo_ctx (demo_position l c) = Inr (Some ''a.tal'')"
  by (simp add: request_path_def demo_position_def demo_api_sel demo_yy_def yy_get_cstr_def cstr_def NUL_def
      demo_ctx_def demo_ws_def buxn_ls_workspace_init_def buxn_ls_workspace_resolve_path_def demo_url_def
      strncmp_eq_def Let_def)

lemma demo_request_source: "request_source demo_api demo_ctx (demo_position l c) = Inr (Some 0)"
  by (simp add: request_source_def demo_request_path) (simp add: demo_ctx_def demo_analysis)

lemma demo_request_position: "request_position demo_api (demo_position l c) = (l, c)"
  by (simp add: request_position_def demo_position_def demo_api_sel demo_yy_def Let_def)

lemma demo_ctx_inv: "ls_inv demo_ctx"
  using demo_result_ok by (simp add: demo_ctx_def server_start_def ls_inv_def demo_ws_inv bhash_inv_def bhash_keys_def)

lemma demo_ctx_cx: "ls_cx demo_ctx = an_current demo_result"
  by (simp add: demo_ctx_def)

lemma demo_ranges:
  "covers_position (cx_sym_nodes (an_current demo_result) ! 0) (0, 1)"
  "covers_position (cx_sym_nodes (an_current demo_result) ! Suc 0) (0, 4)"
  using demo_analysis(7) by (auto simp: map_eq_Cons_conv covers_position_def)

lemma demo_lists: "src_defs (an_current demo_result) 0 = [0]" "src_refs (an_current demo_result) 0 = [1]"
  using demo_analysis(4,5) by (auto simp: src_defs_def src_refs_def map_eq_Cons_conv)

section \<open>Definitions and references\<close>

lemma find_covering_filter:
  "find_covering cx pos ns =
     (case filter (\<lambda>n. covers_position (cx_sym_nodes cx ! n) pos) ns of [] \<Rightarrow> None | n # _ \<Rightarrow> Some n)"
  by (induction ns) auto

text \<open>C16: A request for the definition of what is at a position of an analyzed document is answered by
  the place of the definition that the first reference there is linked to; if there is no reference
  there, it is answered by nothing. It never faults.\<close>

theorem goto_definition:
  assumes "ls_inv ctx" and "request_source api ctx req = Inr (Some n)"
    and "refs = filter (\<lambda>r. covers_position (cx_sym_nodes (ls_cx ctx) ! r) (request_position api req))
      (src_refs (ls_cx ctx) n)"
  shows "(refs = [] \<longrightarrow> buxn_ls_handle_find_definition api req ctx = Inr (None, ctx)) \<and>
    (refs \<noteq> [] \<longrightarrow> (\<exists>d. is_def (ls_cx ctx) d \<and> out_nodes (cx_sym_graph (ls_cx ctx)) (hd refs) = [d] \<and>
       buxn_ls_handle_find_definition api req ctx = Inr (Some (sym_location (ls_cx ctx) d), ctx)))"
proof (cases refs)
  case Nil
  then have "find_covering (ls_cx ctx) (request_position api req) (src_refs (ls_cx ctx) n) = None"
    by (simp add: find_covering_filter assms(3) [symmetric])
  with assms(2) Nil show ?thesis
    by (simp add: buxn_ls_handle_find_definition_def buxn_ls_find_definition_def src_refs_def)
next
  case (Cons r rs)
  then have f: "find_covering (ls_cx ctx) (request_position api req) (src_refs (ls_cx ctx) n) = Some r"
    by (simp add: find_covering_filter assms(3) [symmetric])
  from find_definition_ref [OF assms(1,2) f] obtain d where
    d: "buxn_ls_find_definition api ctx req = Inr (Some d)" "is_def (ls_cx ctx) d" "is_ref (ls_cx ctx) r"
    by blast
  obtain e where e: "out_nodes (cx_sym_graph (ls_cx ctx)) r = [e]"
    using linked_invD(4) [OF ls_invD(6) [OF assms(1)] d(3)] by blast
  with d(1) assms(2) f have "e = d" by (simp add: buxn_ls_find_definition_def src_refs_def)
  with d e Cons show ?thesis by (simp add: buxn_ls_handle_find_definition_def)
qed

theorem goto_definition_witness:
  "\<exists>d. is_def (an_current demo_result) d \<and>
     buxn_ls_handle_find_definition demo_api (demo_position 0 4) demo_ctx =
       Inr (Some (sym_location (an_current demo_result) d), demo_ctx)"
  using goto_definition [OF demo_ctx_inv demo_request_source [of 0 4] refl] demo_ranges(2)
  by (auto simp: demo_ctx_cx demo_request_position demo_lists)

text \<open>C17: Going to a definition and asking for its references finds the place one came from: if the
  definition of the reference \<open>r\<close> at a position is \<open>d\<close>, a request for the references of \<open>d\<close> (at a
  position where \<open>d\<close> is the first definition) lists the place of \<open>r\<close>; and all it lists are
  references linked to \<open>d\<close>.\<close>

theorem references_find_back:
  assumes "ls_inv ctx" and "request_source api ctx req = Inr (Some n)"
    and "find_covering (ls_cx ctx) (request_position api req) (src_refs (ls_cx ctx) n) = Some r"
    and "buxn_ls_find_definition api ctx req = Inr (Some d)"
    and "request_source api ctx back = Inr (Some (sym_src (ls_cx ctx) d))"
    and "find_covering (ls_cx ctx) (request_position api back) (src_defs (ls_cx ctx) (sym_src (ls_cx ctx) d)) = Some d"
  shows "\<exists>rs. buxn_ls_handle_find_references api back ctx =
      Inr (Some (JArr (map (sym_location (ls_cx ctx)) rs)), ctx) \<and> r \<in> set rs \<and>
    (\<forall>r' \<in> set rs. out_nodes (cx_sym_graph (ls_cx ctx)) r' = [d])"
proof -
  let ?cx = "ls_cx ctx" and ?rs = "in_nodes (cx_sym_graph (ls_cx ctx)) d"
  from find_definition_ref [OF assms(1-3)] assms(4) have d: "is_def ?cx d" "r \<in> set ?rs" by auto
  note linked = ls_invD(6) [OF assms(1)]
  have "out_nodes (cx_sym_graph ?cx) r' = [d]" if "r' \<in> set ?rs" for r'
  proof -
    have "d < g_size (cx_sym_graph ?cx)" using d(1) linked_invD(2) [OF linked] by (simp add: is_def_def)
    then have pr: "(r', d) \<in> set (pairs (cx_sym_graph ?cx))"
      using that gr.in_ins [OF linked_invD(1) [OF linked]] by blast
    then have ref: "is_ref ?cx r'" using linked_invD(3) [OF linked] by blast
    then obtain e where e: "out_nodes (cx_sym_graph ?cx) r' = [e]" using linked_invD(4) [OF linked] by blast
    have "r' < g_size (cx_sym_graph ?cx)" using ref linked_invD(2) [OF linked] by (simp add: is_ref_def)
    then have "d \<in> set (out_nodes (cx_sym_graph ?cx) r')"
      using pr gr.in_outs [OF linked_invD(1) [OF linked]] by blast
    with e show ?thesis by simp
  qed
  with d(2) assms(5,6) show ?thesis
    by (intro exI [of _ ?rs]) (simp add: buxn_ls_handle_find_references_def src_defs_def Let_def)
qed

theorem references_find_back_witness:
  "\<exists>rs. buxn_ls_handle_find_references demo_api (demo_position 0 1) demo_ctx =
     Inr (Some (JArr (map (sym_location (an_current demo_result)) rs)), demo_ctx) \<and> 1 \<in> set rs"
proof -
  have f: "find_covering (ls_cx demo_ctx) (request_position demo_api (demo_position 0 4))
      (src_refs (ls_cx demo_ctx) 0) = Some 1"
    using demo_ranges(2) by (simp add: demo_ctx_cx demo_request_position demo_lists)
  from find_definition_ref [OF demo_ctx_inv demo_request_source f] obtain d where
    d: "buxn_ls_find_definition demo_api demo_ctx (demo_position 0 4) = Inr (Some d)" "is_def (ls_cx demo_ctx) d"
    by blast
  have len: "length (cx_src_nodes (an_current demo_result)) = 1"
    using arg_cong [OF demo_analysis(3), of length] by simp
  then have "sym_src (ls_cx demo_ctx) d = 0" "d = 0"
    using d(2) demo_lists(1) by (auto simp: demo_ctx_cx is_def_def src_size_def)
  then show ?thesis
    using references_find_back [OF demo_ctx_inv demo_request_source f d(1), of "demo_position 0 1"] demo_ranges(1)
    by (auto simp: demo_ctx_cx demo_request_position demo_request_source demo_lists)
qed

section \<open>Completion and symbols\<close>

lemma completion_faults_iff:
  assumes "utf8_ok (la_utf8 api)" and "ls_inv ctx" and "request_path api ctx req = Inr path"
    and "\<forall>p content. bhash_get (docs (lc_workspace ctx)) p = Some content \<longrightarrow> length content < 2 ^ 63"
  shows "(\<exists>e. buxn_ls_handle_completion api req ctx = Inl e) \<longleftrightarrow>
    (\<exists>p content. path = Some p \<and> bhash_get (docs (lc_workspace ctx)) p = Some content \<and>
       fst (request_position api req) < 0)"
proof (cases "\<exists>p content. path = Some p \<and> bhash_get (docs (lc_workspace ctx)) p = Some content")
  case False
  then have "buxn_ls_handle_completion api req ctx = Inr (None, ctx)"
    using assms(3) by (auto simp: buxn_ls_handle_completion_def split: option.split)
  with False show ?thesis by auto
next
  case True
  then obtain p content where p: "path = Some p" "bhash_get (docs (lc_workspace ctx)) p = Some content" by blast
  obtain line ch where pos: "request_position api req = (line, ch)" by fastforce
  let ?lines = "buxn_ls_split_file content"
  have run: "buxn_ls_handle_completion api req ctx =
     (if line \<ge> int (length ?lines) then Inr (None, ctx)
      else if line < 0 then Inl Out_of_bounds
      else (case ?lines ! nat line of (off, len) \<Rightarrow>
        complete_in_line api p line ch (drop off content) len ctx))"
    using assms(3) p pos by (simp add: buxn_ls_handle_completion_def Let_def)
  show ?thesis
  proof (cases "0 \<le> line \<and> line < int (length ?lines)")
    case False
    then show ?thesis unfolding run using p pos by auto
  next
    case inside: True
    obtain off len where l: "?lines ! nat line = (off, len)" by fastforce
    have "?lines ! nat line \<in> set ?lines" using inside by (intro nth_mem) (simp add: nat_less_iff)
    then have "len \<le> length (drop off content) \<and> len < 2 ^ 63 \<or> len = 2 ^ 64 - 1"
      using split_file_bounds [of off len content] assms(4) p(2) l by fastforce
    from complete_in_line_total [OF assms(1,2) this] obtain r where
      "complete_in_line api p line ch (drop off content) len ctx = Inr r" by blast
    with inside l p pos show ?thesis by (auto simp: run)
  qed
qed

text \<open>The context that the handler makes for a completion list: the prefix is the text of the line from the
  last blank to the cursor, in the file that the analysis knows.\<close>

lemma completion_start_bound:
  "completion_start bytes n = Inr s \<Longrightarrow> s \<le> n \<and> (n = 0 \<or> n \<le> length bytes)"
proof (induction n)
  case (Suc n)
  then have "n < length bytes" by (auto simp: char_at_def split: if_splits)
  with Suc show ?case by (auto simp: char_at_def split: if_splits)
qed simp

lemma completion_context:
  assumes "complete_in_line api path line character bytes len ctx = Inr (Some list, ctx')" and "ls_inv ctx"
  shows "\<exists>cctx cmap. buxn_ls_build_completion_list (la_utf8 api) (la_layout api) (an_current (lc_analyzer ctx)) cctx
      (lc_completion_map ctx) = Inr (Some list, cmap) \<and>
    prefix_in_line cctx \<and> cc_source cctx < src_size (an_current (lc_analyzer ctx)) \<and>
    cc_line_content cctx = (bytes, len) \<and> r_end (cc_lsp_range cctx) = \<lparr>p_line = line, p_character = character\<rparr>"
proof -
  obtain bo start src start_char cctx cmap where run:
      "completion_start bytes (nat bo) = Inr start" "nat bo - start \<noteq> 0"
      "bhash_get (cx_sources (an_current (lc_analyzer ctx))) path = Some src"
      "cctx = \<lparr>cc_source = src, cc_line_content = (bytes, len), cc_prefix = take (nat bo - start) (drop start bytes),
         cc_lsp_range = \<lparr>r_start = \<lparr>p_line = line, p_character = start_char\<rparr>,
           r_end = \<lparr>p_line = line, p_character = character\<rparr>\<rparr>,
         cc_line_number = line, cc_prefix_start_byte = int start, cc_prefix_end_byte = bo\<rparr>"
      "buxn_ls_build_completion_list (la_utf8 api) (la_layout api) (an_current (lc_analyzer ctx)) cctx
         (lc_completion_map ctx) = Inr (Some list, cmap)"
    using assms(1) by (auto simp: complete_in_line_def Let_def elim!: obind_InrE split: if_splits option.splits)
  have "src < src_size (an_current (lc_analyzer ctx))"
    using run(3) assms(2) src_invD(4) by (auto simp: ls_inv_def analyzer_ok_def analyzer_inv_def)
  moreover have "prefix_in_line cctx"
    using completion_start_bound [OF run(1)] run(2) by (auto simp: run(4) prefix_in_line_def min_def)
  ultimately show ?thesis using run(4,5) by auto
qed

text \<open>C39: A completion request on a document that is not too large returns, whatever the position, the
  document and the analysis, also on files with CRLF, whose extra lines are quietly empty; except that
  a negative line in an open document reads outside the array of lines, since only its upper bound is
  checked.\<close>

theorem completion_request_total:
  assumes "utf8_ok (la_utf8 api)" and "ls_inv ctx" and "request_path api ctx req = Inr path"
    and "\<forall>p content. bhash_get (docs (lc_workspace ctx)) p = Some content \<longrightarrow> length content < 2 ^ 63"
  shows "(\<exists>e. buxn_ls_handle_completion api req ctx = Inl e) \<longleftrightarrow>
    (\<exists>p content. path = Some p \<and> bhash_get (docs (lc_workspace ctx)) p = Some content \<and>
       fst (request_position api req) < 0)"
  using assms by (rule completion_faults_iff)

lemma demo_docs: "bhash_get (docs (lc_workspace demo_ctx)) p = (if p = ''a.tal'' then Some ''@a ;a'' else None)"
  by (simp add: demo_ctx_def demo_ws_def bhash_get_def)

theorem completion_request_total_witness:
  "(\<exists>r. buxn_ls_handle_completion demo_api (demo_position 0 5) demo_ctx = Inr r) \<and>
   (\<exists>e. buxn_ls_handle_completion demo_api (demo_position (- 1) 0) demo_ctx = Inl e)"
proof -
  have utf8: "utf8_ok (la_utf8 demo_api)" by (simp add: demo_api_def demo_asm_def ref_utf8_ok)
  have small: "\<forall>p content. bhash_get (docs (lc_workspace demo_ctx)) p = Some content \<longrightarrow> length content < 2 ^ 63"
    by (simp add: demo_docs)
  have "\<nexists>e. buxn_ls_handle_completion demo_api (demo_position 0 5) demo_ctx = Inl e"
    using completion_request_total [OF utf8 demo_ctx_inv demo_request_path small, of 0 5]
    by (simp add: demo_request_position)
  then have "\<exists>r. buxn_ls_handle_completion demo_api (demo_position 0 5) demo_ctx = Inr r"
    by (cases "buxn_ls_handle_completion demo_api (demo_position 0 5) demo_ctx") auto
  moreover have "\<exists>e. buxn_ls_handle_completion demo_api (demo_position (- 1) 0) demo_ctx = Inl e"
    using completion_request_total [OF utf8 demo_ctx_inv demo_request_path small, of "- 1" 0]
    by (simp add: demo_request_position demo_docs)
  ultimately show ?thesis by blast
qed

text \<open>Every source node is listed once.\<close>

lemma values_src:
  assumes "src_inv cx"
  shows "set (bhash_values (cx_sources cx)) = {s. s < src_size cx}" "distinct (bhash_values (cx_sources cx))"
proof -
  have inv: "bhash_inv (cx_sources cx)" by (rule src_invD(1) [OF assms])
  have entry: "(f, s) \<in> set (cx_sources cx) \<longleftrightarrow> bhash_get (cx_sources cx) f = Some s" for f s
    using bhash_get_iff [OF inv] by blast
  show "set (bhash_values (cx_sources cx)) = {s. s < src_size cx}"
  proof (rule set_eqI)
    fix s
    have "s \<in> set (bhash_values (cx_sources cx)) \<longleftrightarrow> (\<exists>f. (f, s) \<in> set (cx_sources cx))"
      by (force simp: bhash_values_def)
    then show "s \<in> set (bhash_values (cx_sources cx)) \<longleftrightarrow> s \<in> {s. s < src_size cx}"
      by (simp add: entry src_invD(4) [OF assms])
  qed
  have "inj_on snd (set (cx_sources cx))"
    by (rule inj_onI) (auto simp: entry src_invD(4) [OF assms])
  then show "distinct (bhash_values (cx_sources cx))"
    using inv by (simp add: bhash_values_def distinct_map bhash_inv_def bhash_keys_def)
qed

lemma matches_query_prefix: "matches_query query sy \<longleftrightarrow> (\<exists>r. cstr (sy_name sy) = query @ r)"
  using strncmp_eq_prefix [of query] by (simp add: matches_query_def strncmp_eq_def eq_commute)

text \<open>All definitions that satisfy a condition, each once.\<close>

lemma all_defs:
  assumes "src_inv cx" and "listed_inv cx"
  shows "set (concat (map (\<lambda>s. filter P (src_defs cx s)) (bhash_values (cx_sources cx)))) = {d. is_def cx d \<and> P d}"
    "distinct (concat (map (\<lambda>s. filter P (src_defs cx s)) (bhash_values (cx_sources cx))))"
proof -
  note vals = values_src [OF assms(1)]
  have "(\<exists>s < src_size cx. d \<in> set (src_defs cx s)) \<longleftrightarrow> is_def cx d" for d
    using src_def_is_def [OF assms(2)] unfolding is_def_def by blast
  then show "set (concat (map (\<lambda>s. filter P (src_defs cx s)) (bhash_values (cx_sources cx)))) = {d. is_def cx d \<and> P d}"
    by (auto simp: vals)
  show "distinct (concat (map (\<lambda>s. filter P (src_defs cx s)) (bhash_values (cx_sources cx))))"
  proof (rule distinct_concat_map [OF vals(2)])
    show "distinct (filter P (src_defs cx s))" if "s \<in> set (bhash_values (cx_sources cx))" for s
      using listed_invD(1) [OF assms(2)] that by (simp add: vals)
    show "set (filter P (src_defs cx s)) \<inter> set (filter P (src_defs cx t)) = {}"
      if "s \<in> set (bhash_values (cx_sources cx))" "t \<in> set (bhash_values (cx_sources cx))" "s \<noteq> t" for s t
    proof -
      have "\<And>n. n \<in> set (src_defs cx s) \<Longrightarrow> sym_src cx n = s" "\<And>n. n \<in> set (src_defs cx t) \<Longrightarrow> sym_src cx n = t"
        using src_def_is_def [OF assms(2)] that by (auto simp: vals)
      then show ?thesis using that(3) by auto
    qed
  qed
qed

text \<open>C32: A search for workspace symbols returns every definition of the last analysis whose name starts
  with the query, and nothing else, each once; an empty query returns all.\<close>

theorem workspace_symbols_exact:
  assumes "ls_inv ctx"
    and "yy_get_cstr (la_yy api) (yy_obj_get (la_yy api) request ''query'') = Some query"
  shows "\<exists>syms. buxn_ls_handle_list_workspace_symbols api request ctx =
      Inr (Some (JArr (map (workspace_symbol (ls_cx ctx)) syms)), ctx) \<and> distinct syms \<and>
    set syms = {d. is_def (ls_cx ctx) d \<and> (\<exists>r. cstr (sy_name (cx_sym_nodes (ls_cx ctx) ! d)) = query @ r)}"
proof -
  let ?found = "\<lambda>s. filter (\<lambda>n. matches_query query (cx_sym_nodes (ls_cx ctx) ! n)) (src_defs (ls_cx ctx) s)"
  have "buxn_ls_handle_list_workspace_symbols api request ctx =
      Inr (Some (JArr (map (workspace_symbol (ls_cx ctx)) (concat (map ?found (bhash_values (cx_sources (ls_cx ctx))))))), ctx)"
    using assms(2) by (simp add: buxn_ls_handle_list_workspace_symbols_def Let_def src_defs_def)
  with all_defs [OF ls_invD(3,5) [OF assms(1)], of "\<lambda>n. matches_query query (cx_sym_nodes (ls_cx ctx) ! n)"]
  show ?thesis unfolding matches_query_prefix by blast
qed

theorem workspace_symbols_exact_witness:
  "\<exists>syms. buxn_ls_handle_list_workspace_symbols demo_api (Some (JObj [(''query'', JStr ''a'')])) demo_ctx =
     Inr (Some (JArr (map (workspace_symbol (an_current demo_result)) syms)), demo_ctx) \<and> 0 \<in> set syms"
proof -
  have q: "yy_get_cstr (la_yy demo_api) (yy_obj_get (la_yy demo_api) (Some (JObj [(''query'', JStr ''a'')])) ''query'')
      = Some ''a''"
    by (simp add: demo_api_sel demo_yy_def yy_get_cstr_def cstr_def NUL_def)
  have "listed_inv (an_current demo_result)" using ls_invD(5) [OF demo_ctx_inv] by (simp add: demo_ctx_cx)
  then have "is_def (an_current demo_result) 0"
    using src_def_is_def [of "an_current demo_result" 0 0] demo_lists demo_result_ok(2) by simp
  moreover have "cstr (sy_name (cx_sym_nodes (an_current demo_result) ! 0)) = ''a'' @ []"
    using demo_analysis(6) by (auto simp: map_eq_Cons_conv cstr_def NUL_def)
  ultimately show ?thesis
    using workspace_symbols_exact [OF demo_ctx_inv q] unfolding demo_ctx_cx by blast
qed

end
