(* ===== verification/Ls_Start.thy ===== *)
theory Ls_Start
  imports Ls_Requests
begin

text \<open>
  The start of a session, the buffer that messages are received into, and the timer that delays the
  analysis.
\<close>



section \<open>The receive buffer\<close>

text \<open>Receiving a message whose \<open>n\<close> bytes arrive writes outside the buffer exactly if the buffer
  was smaller than \<open>n\<close> and the size it is grown to, what \<open>yyjson\<close> asks for plus \<open>n\<close> in 64 bits, is
  below \<open>n\<close>: that is, never while the sum does not wrap, and whenever it wraps and the old buffer is
  too small. The buffer never shrinks.\<close>

theorem recv_buffer_bound:
  assumes "bio_lsp_recv_msg_header in_buf = Inr (n, rest)" and "n \<le> length rest"
  shows "(buxn_ls_recv_msg api in_buf bsz msg = Inl Out_of_bounds \<longleftrightarrow>
      bsz < n \<and> 2 ^ 64 \<le> la_json_memory api n + n \<and> (la_json_memory api n + n) mod 2 ^ 64 < n) \<and>
    (\<forall>bsz' r. buxn_ls_recv_msg api in_buf bsz msg = Inr (bsz', r) \<longrightarrow> bsz \<le> bsz' \<and> n \<le> bsz')"
proof -
  let ?sum = "la_json_memory api n + n"
  have wrap: "?sum mod 2 ^ 64 < n \<longleftrightarrow> 2 ^ 64 \<le> ?sum \<and> ?sum mod 2 ^ 64 < n"
    by (cases "?sum < 2 ^ 64") auto
  have "buxn_ls_recv_msg api in_buf bsz msg =
    (if n > max (?sum mod 2 ^ 64) bsz then Inl Out_of_bounds
     else Inr (max (?sum mod 2 ^ 64) bsz,
       case bio_lsp_parse_msg (la_yy api) (take n rest) msg of
         Inl e \<Rightarrow> Inl e | Inr msg' \<Rightarrow> Inr (msg', drop n rest)))"
    using assms by (auto simp: buxn_ls_recv_msg_def Let_def max_def split: sum.split)
  then show ?thesis using wrap by auto
qed

definition wrapping_api :: ls_api where
  "wrapping_api = demo_api\<lparr>la_json_memory := (\<lambda>n. 2 ^ 64 - 1)\<rparr>"

theorem recv_buffer_bound_witness:
  "buxn_ls_recv_msg wrapping_api (demo_frame ''{x}'') 0 demo_in = Inl Out_of_bounds \<and>
   buxn_ls_recv_msg demo_api (demo_frame ''{x}'') 0 demo_in \<noteq> Inl Out_of_bounds"
proof -
  have h: "bio_lsp_recv_msg_header (demo_frame ''{x}'') = Inr (3, ''{x}'')"
    using recv_header_text [of 3 "''{x}''"] by (simp add: demo_frame_def)
  have "buxn_ls_recv_msg wrapping_api (demo_frame ''{x}'') 0 demo_in = Inl Out_of_bounds"
    using recv_buffer_bound [OF h, of wrapping_api 0 demo_in] by (simp add: wrapping_api_def)
  moreover have "buxn_ls_recv_msg demo_api (demo_frame ''{x}'') 0 demo_in \<noteq> Inl Out_of_bounds"
    using recv_buffer_bound [OF h, of demo_api 0 demo_in] by (simp add: demo_api_def)
  ultimately show ?thesis by blast
qed

section \<open>The timer\<close>

text \<open>Only a notification about a document arms the timer, and every one does; \<open>shutdown\<close> and a
  completion that returns a list disarm it. So an analysis follows an edit unless a completion, a
  shutdown or the end of the session comes first.\<close>

theorem timer_follows_edits:
  assumes "buxn_ls_handle_msg api msg ctx = Inr ctx'"
    and "edit = (in_type msg = BIO_LSP_MSG_NOTIFICATION \<and>
      (\<exists>r. in_method msg = Some (''textDocument/'' @ r)))"
  shows "(edit \<longrightarrow> lc_timer_pending ctx') \<and>
    (lc_timer_pending ctx' \<and> \<not> edit \<longrightarrow> lc_timer_pending ctx) \<and>
    (in_type msg = BIO_LSP_MSG_REQUEST \<and> in_method msg = Some ''shutdown'' \<longrightarrow> \<not> lc_timer_pending ctx') \<and>
    (in_type msg = BIO_LSP_MSG_REQUEST \<and> in_method msg = Some ''textDocument/completion'' \<and>
       (\<forall>ctx1. buxn_ls_handle_completion api (in_value msg) ctx \<noteq> Inr (None, ctx1)) \<longrightarrow> \<not> lc_timer_pending ctx')"
proof (cases "in_type msg")
  case BIO_LSP_MSG_REQUEST
  with assms(1) have "handle_request api msg ctx = Inr ctx'" by (simp add: buxn_ls_handle_msg_def)
  from handle_request_reply [OF this] obtain reply :: bio_lsp_out_msg and ctx1 meth where r: "in_method msg = Some meth"
    "handler_frame ctx ctx1" "ctx' = ctx1\<lparr>lc_out := lc_out ctx'\<rparr>"
    "case map_of BUXN_LS_REQUEST_HANDLERS meth of
       None \<Rightarrow> out_type reply = BIO_LSP_MSG_ERROR \<and> ctx1 = ctx \<and>
         out_value reply = Some (JObj [(''code'', JInt (- 32601)), (''message'', JStr ''Method not found'')])
     | Some h \<Rightarrow> out_type reply = BIO_LSP_MSG_RESULT \<and>
         (\<exists>v. h api (in_value msg) ctx = Inr (v, ctx1) \<and>
              out_value reply = Some (case v of None \<Rightarrow> JNull | Some j \<Rightarrow> j))" by blast
  have t: "lc_timer_pending ctx' = lc_timer_pending ctx1"
    using arg_cong [OF r(3), of lc_timer_pending] by simp
  have "lc_timer_pending ctx' \<longrightarrow> lc_timer_pending ctx" using r(2) t by (simp add: handler_frame_def)
  moreover have "\<not> lc_timer_pending ctx'" if "meth = ''shutdown''"
    using r(4) t that by (auto simp: BUXN_LS_REQUEST_HANDLERS_def buxn_ls_handle_shutdown_def)
  moreover have "\<not> lc_timer_pending ctx'" if c: "meth = ''textDocument/completion''"
    and n: "\<forall>c. buxn_ls_handle_completion api (in_value msg) ctx \<noteq> Inr (None, c)"
  proof -
    from r(4) c obtain v where v: "buxn_ls_handle_completion api (in_value msg) ctx = Inr (v, ctx1)"
      by (auto simp: BUXN_LS_REQUEST_HANDLERS_def)
    with n obtain j where "v = Some j" by (cases v) auto
    with v have "\<not> lc_timer_pending ctx1"
      by (auto simp: buxn_ls_handle_completion_def complete_in_line_def Let_def elim!: obind_InrE
          split: option.splits prod.splits if_splits)
    with t show ?thesis by simp
  qed
  ultimately show ?thesis using r(1) BIO_LSP_MSG_REQUEST assms(2) by auto
next
  case BIO_LSP_MSG_NOTIFICATION
  with assms(1) have n: "handle_notification api msg ctx = Inr ctx'" by (simp add: buxn_ls_handle_msg_def)
  then obtain meth where m: "in_method msg = Some meth"
    by (auto simp: handle_notification_def split: option.splits)
  have e: "edit \<longleftrightarrow> strncmp_eq meth ''textDocument/'' (length ''textDocument/'')"
    using strncmp_eq_prefix [of "''textDocument/''" meth] assms(2) m BIO_LSP_MSG_NOTIFICATION
    by (auto simp: strncmp_eq_def eq_commute)
  have "lc_timer_pending ctx' \<longleftrightarrow> edit \<or> lc_timer_pending ctx"
    using n m e by (auto simp: handle_notification_def strncmp_eq_def elim!: obind_InrE split: if_splits)
  with BIO_LSP_MSG_NOTIFICATION show ?thesis by auto
qed (use assms in \<open>auto simp: buxn_ls_handle_msg_def\<close>)

theorem timer_follows_edits_witness:
  "\<exists>ctx'. buxn_ls_handle_msg demo_api (demo_doc_msg ''textDocument/didChange'' ''BRK'') demo_ctx = Inr ctx' \<and>
     lc_timer_pending ctx'"
proof -
  have "\<exists>ctx'. buxn_ls_handle_msg demo_api (demo_doc_msg ''textDocument/didChange'' ''BRK'') demo_ctx = Inr ctx'"
    by (simp add: buxn_ls_handle_msg_def handle_notification_def demo_doc_msg_def strncmp_eq_def
        buxn_ls_workspace_update_def demo_api_sel demo_yy_def yy_get_cstr_def cstr_def NUL_def demo_ctx_def
        demo_ws_def buxn_ls_workspace_init_def buxn_ls_workspace_resolve_path_def demo_url_def Let_def)
  then obtain ctx' where h: "buxn_ls_handle_msg demo_api (demo_doc_msg ''textDocument/didChange'' ''BRK'') demo_ctx = Inr ctx'"
    by blast
  from timer_follows_edits [OF h refl] h show ?thesis by (auto simp: demo_doc_msg_def)
qed

end
