(* ===== verification/Ls_Diagnostics.thy ===== *)
theory Ls_Diagnostics
  imports Ls_Start "HOL-Library.List_Lexorder" "HOL-Library.Char_ord" "HOL-Library.Option_ord"
begin

text \<open>
  The publication of diagnostics as the editor sees it. The abstract state is the editor's view, a map
  from URIs to lists of diagnostics, and a \<open>publishDiagnostics\<close> notification replaces the list of one
  URI. The refinement: after every analysis the view is exactly the diagnostics of that analysis,
  whatever it was before, although only changed and stale files are mentioned.
\<close>

section \<open>Messages and the editor's view\<close>

definition send_all :: "json_api \<Rightarrow> bio_lsp_out_msg list \<Rightarrow> out_channel \<Rightarrow> out_channel outcome" where
  "send_all yy msgs ch =
     ofold (\<lambda>msg ch. obind (bio_lsp_send_msg yy msg ch) (\<lambda>(b, ch'). Inr ch')) msgs ch"

lemma send_all_snoc:
  "send_all yy msgs ch = Inr ch1 \<Longrightarrow> bio_lsp_send_msg yy msg ch1 = Inr (b, ch2) \<Longrightarrow>
     send_all yy (msgs @ [msg]) ch = Inr ch2"
  by (simp add: send_all_def ofold_append)

lemma send_all_append:
  "send_all yy ms ch = Inr ch1 \<Longrightarrow> send_all yy ns ch1 = Inr ch2 \<Longrightarrow> send_all yy (ms @ ns) ch = Inr ch2"
  by (simp add: send_all_def ofold_append)

definition notice :: "bio_lsp_out_msg \<Rightarrow> (string \<times> json list) option" where
  "notice msg =
     (case (ref_obj_get (out_value msg) ''uri'', ref_obj_get (out_value msg) ''diagnostics'') of
        (Some (JStr u), Some (JArr ds)) \<Rightarrow>
          if out_type msg = BIO_LSP_MSG_NOTIFICATION \<and> out_method msg = Some ''textDocument/publishDiagnostics''
          then Some (u, ds) else None
      | _ \<Rightarrow> None)"

type_synonym editor_view = "string \<Rightarrow> json list"

fun client_view :: "bio_lsp_out_msg list \<Rightarrow> editor_view \<Rightarrow> editor_view" where
  "client_view [] view = view"
| "client_view (msg # msgs) view =
     client_view msgs (case notice msg of None \<Rightarrow> view | Some (u, ds) \<Rightarrow> view(u := ds))"

lemma client_view_append: "client_view (ms @ ns) view = client_view ns (client_view ms view)"
  by (induction ms arbitrary: view) simp_all

lemma notice_publish [simp]: "notice (publish_msg (Some u) items) = Some (u, items)"
  by (simp add: notice_def publish_msg_def obj_add_def opt_str_def)

lemma client_view_clear:
  "client_view (map (\<lambda>u. publish_msg (Some u) []) uris) view v = (if v \<in> set uris then [] else view v)"
  by (induction uris arbitrary: view) auto

abbreviation diag_uri :: "diagnostic \<Rightarrow> string option" where
  "diag_uri d \<equiv> l_uri (dg_location d)"

definition diag_uris :: "diagnostic list \<Rightarrow> string set" where
  "diag_uris ds = {u. \<exists>d \<in> set ds. diag_uri d = Some u}"

definition diags_of :: "diagnostic list \<Rightarrow> string \<Rightarrow> json list" where
  "diags_of ds u = map diag_json (filter (\<lambda>d. diag_uri d = Some u) ds)"

lemma diag_uris_snoc [simp]:
  "diag_uris (ds @ [d]) = (case diag_uri d of None \<Rightarrow> diag_uris ds | Some u \<Rightarrow> insert u (diag_uris ds))"
  by (auto simp: diag_uris_def split: option.split)

lemma diags_of_snoc [simp]:
  "diags_of (ds @ [d]) v = (if diag_uri d = Some v then diags_of ds v @ [diag_json d] else diags_of ds v)"
  by (simp add: diags_of_def)

lemma diags_of_none: "v \<notin> diag_uris ds \<Longrightarrow> diags_of ds v = []"
  by (auto simp: diags_of_def diag_uris_def filter_empty_conv)

section \<open>Sending on a channel that does not fail\<close>

lemma send_success:
  "o_script ch = [] \<Longrightarrow> bio_lsp_send_msg yy msg ch = Inr (b, ch') \<Longrightarrow> b \<and> o_script ch' = []"
  by (auto simp: bio_lsp_send_msg_def flush_buffer_def Let_def elim!: obind_InrE)

lemma send_all_script:
  assumes "send_all yy msgs ch = Inr ch'" and "o_script ch = []"
  shows "o_script ch' = []"
  by (rule ofold_inv [where P = "\<lambda>ch. o_script ch = []", OF assms(1) [unfolded send_all_def] assms(2)])
    (auto elim!: obind_InrE dest: send_success)

lemma end_msg_success:
  assumes "buxn_ls_end_msg api msg ctx = Inr (b, ctx')" and "o_script (lc_out ctx) = []"
  shows "b" "o_script (lc_out ctx') = []"
    "bio_lsp_send_msg (la_yy api) msg (lc_out ctx) = Inr (b, lc_out ctx')"
    "lc_currently_diagnosed ctx' = lc_currently_diagnosed ctx"
    "lc_previously_diagnosed ctx' = lc_previously_diagnosed ctx"
proof -
  note s = end_msg_frame [OF assms(1)]
  show "b" "o_script (lc_out ctx') = []" using send_success [OF assms(2) s(1)] by simp_all
  show "bio_lsp_send_msg (la_yy api) msg (lc_out ctx) = Inr (b, lc_out ctx')" by (rule s(1))
  show "lc_currently_diagnosed ctx' = lc_currently_diagnosed ctx"
    "lc_previously_diagnosed ctx' = lc_previously_diagnosed ctx"
    using arg_cong [OF s(2), of lc_currently_diagnosed] arg_cong [OF s(2), of lc_previously_diagnosed] by simp_all
qed

section \<open>The loop\<close>

definition pending :: "publish_state \<Rightarrow> bio_lsp_out_msg list" where
  "pending ps = (case ps_msg ps of None \<Rightarrow> [] | Some (uri, items) \<Rightarrow> [publish_msg uri items])"

text \<open>What holds when the loop has handled the diagnostics \<open>ds\<close>.\<close>

definition sets_ok :: "buxn_ls_ctx \<Rightarrow> diagnostic list \<Rightarrow> buxn_ls_ctx \<Rightarrow> bool" where
  "sets_ok ctx0 ds ctx \<longleftrightarrow>
     set (bhash_keys (lc_currently_diagnosed ctx)) = diag_uris ds \<and>
     set (bhash_keys (lc_previously_diagnosed ctx)) =
       set (bhash_keys (lc_previously_diagnosed ctx0)) - diag_uris ds"

definition last_ok :: "diagnostic list \<Rightarrow> publish_state \<Rightarrow> bool" where
  "last_ok ds ps \<longleftrightarrow>
     (case ps_last_uri ps of
        None \<Rightarrow> diag_uris ds = {} \<and> ps_msg ps = None
      | Some u \<Rightarrow> u \<in> diag_uris ds \<and> (\<exists>items. ps_msg ps = Some (Some u, items)) \<and>
          (\<forall>d \<in> set ds. diag_uri d \<le> Some u))"

definition sent_ok :: "ls_api \<Rightarrow> buxn_ls_ctx \<Rightarrow> editor_view \<Rightarrow> diagnostic list \<Rightarrow> publish_state \<Rightarrow> bool" where
  "sent_ok api ctx0 view ds ps \<longleftrightarrow>
     o_script (lc_out (ps_ctx ps)) = [] \<and>
     (\<exists>msgs. send_all (la_yy api) msgs (lc_out ctx0) = Inr (lc_out (ps_ctx ps)) \<and>
        (\<forall>v. client_view (msgs @ pending ps) view v = (if v \<in> diag_uris ds then diags_of ds v else view v)))"

lemma flush_success:
  assumes "flush_publish api ps = Inr (b, ps')" and "sent_ok api ctx0 view ds ps"
  shows "b" "sent_ok api ctx0 view ds ps'" "ps_msg ps' = None"
    "lc_currently_diagnosed (ps_ctx ps') = lc_currently_diagnosed (ps_ctx ps)"
    "lc_previously_diagnosed (ps_ctx ps') = lc_previously_diagnosed (ps_ctx ps)"
proof -
  have "b \<and> sent_ok api ctx0 view ds ps' \<and> ps_msg ps' = None \<and>
    lc_currently_diagnosed (ps_ctx ps') = lc_currently_diagnosed (ps_ctx ps) \<and>
    lc_previously_diagnosed (ps_ctx ps') = lc_previously_diagnosed (ps_ctx ps)"
  proof (cases "ps_msg ps")
    case None
    with assms show ?thesis by (auto simp: flush_publish_def)
  next
    case (Some m)
    obtain uri items where m: "m = (uri, items)" by fastforce
    from assms(1) Some m obtain ctx where e: "buxn_ls_end_msg api (publish_msg uri items) (ps_ctx ps) = Inr (b, ctx)"
      and ps': "ps' = ps\<lparr>ps_ctx := ctx, ps_msg := None\<rparr>"
      by (auto simp: flush_publish_def elim!: obind_InrE)
    from assms(2) obtain msgs where s: "o_script (lc_out (ps_ctx ps)) = []"
      "send_all (la_yy api) msgs (lc_out ctx0) = Inr (lc_out (ps_ctx ps))"
      "\<forall>v. client_view (msgs @ [publish_msg uri items]) view v = (if v \<in> diag_uris ds then diags_of ds v else view v)"
      using Some m by (auto simp: sent_ok_def pending_def)
    note ok = end_msg_success [OF e s(1)]
    have "send_all (la_yy api) (msgs @ [publish_msg uri items]) (lc_out ctx0) = Inr (lc_out ctx)"
      by (rule send_all_snoc [OF s(2) ok(3)])
    with ok s(3) ps' show ?thesis by (auto simp: sent_ok_def pending_def)
  qed
  then show "b" "sent_ok api ctx0 view ds ps'" "ps_msg ps' = None"
    "lc_currently_diagnosed (ps_ctx ps') = lc_currently_diagnosed (ps_ctx ps)"
    "lc_previously_diagnosed (ps_ctx ps') = lc_previously_diagnosed (ps_ctx ps)" by simp_all
qed

lemma add_to_pending:
  assumes "sent_ok api ctx0 view ds ps" and "ps_msg ps = Some (Some u, items)" and "u \<in> diag_uris ds"
    and "diag_uri d = Some u"
  shows "sent_ok api ctx0 view (ds @ [d]) (add_diag d ps)"
proof -
  from assms(1,2) obtain msgs where s: "o_script (lc_out (ps_ctx ps)) = []"
      "send_all (la_yy api) msgs (lc_out ctx0) = Inr (lc_out (ps_ctx ps))"
      "\<forall>v. client_view (msgs @ [publish_msg (Some u) items]) view v = (if v \<in> diag_uris ds then diags_of ds v else view v)"
    by (auto simp: sent_ok_def pending_def)
  from s(3) assms(3) have "items = diags_of ds u"
    by (auto simp: client_view_append dest: spec [of _ u])
  moreover have "client_view msgs view v = (if v \<in> diag_uris ds then diags_of ds v else view v)" if "v \<noteq> u" for v
    using spec [OF s(3), of v] that by (simp add: client_view_append)
  ultimately have "\<forall>v. client_view (msgs @ [publish_msg (Some u) (items @ [diag_json d])]) view v =
      (if v \<in> diag_uris (ds @ [d]) then diags_of (ds @ [d]) v else view v)"
    using assms(3,4) by (auto simp: client_view_append)
  then show ?thesis
    using s(1,2) assms(2) unfolding sent_ok_def
    by (intro conjI exI [of _ msgs]) (simp_all add: add_diag_def pending_def)
qed

lemma start_pending:
  assumes "sent_ok api ctx0 view ds ps" and "ps_msg ps = None" and "u \<notin> diag_uris ds" and "diag_uri d = Some u"
  shows "sent_ok api ctx0 view (ds @ [d])
    (add_diag d (ps\<lparr>ps_msg := Some (Some u, []), ps_last_uri := Some u\<rparr>))"
proof -
  from assms(1,2) obtain msgs where s: "o_script (lc_out (ps_ctx ps)) = []"
      "send_all (la_yy api) msgs (lc_out ctx0) = Inr (lc_out (ps_ctx ps))"
      "\<forall>v. client_view msgs view v = (if v \<in> diag_uris ds then diags_of ds v else view v)"
    by (auto simp: sent_ok_def pending_def)
  have "\<forall>v. client_view (msgs @ [publish_msg (Some u) [diag_json d]]) view v =
      (if v \<in> diag_uris (ds @ [d]) then diags_of (ds @ [d]) v else view v)"
    using s(3) assms(3,4) by (auto simp: client_view_append diags_of_none)
  then show ?thesis
    using s(1,2) unfolding sent_ok_def
    by (intro conjI exI [of _ msgs]) (simp_all add: add_diag_def pending_def)
qed

lemma sets_ok_move:
  assumes "sets_ok ctx0 ds ctx" and "diag_uri d = Some u"
  shows "sets_ok ctx0 (ds @ [d]) (move_uri lay u ctx)"
  using assms by (auto simp: sets_ok_def move_uri_def set_keys_put set_keys_remove)

lemma sets_ok_cong:
  "lc_currently_diagnosed ctx' = lc_currently_diagnosed ctx \<Longrightarrow>
   lc_previously_diagnosed ctx' = lc_previously_diagnosed ctx \<Longrightarrow> diag_uris ds' = diag_uris ds \<Longrightarrow>
     sets_ok ctx0 ds ctx \<Longrightarrow> sets_ok ctx0 ds' ctx'"
  by (simp add: sets_ok_def)

text \<open>A new URI has not been seen: the diagnostics are sorted.\<close>

lemma new_uri_unseen:
  assumes "last_ok ds ps" and "sorted (map diag_uri (ds @ d # rest))"
    and "diag_uri d = Some u" and "diag_uri d \<noteq> ps_last_uri ps"
  shows "u \<notin> diag_uris ds" "\<forall>e \<in> set (ds @ [d]). diag_uri e \<le> Some u"
proof -
  have le: "\<forall>e \<in> set ds. diag_uri e \<le> Some u"
    using assms(2,3) by (auto simp: sorted_append)
  then show "\<forall>e \<in> set (ds @ [d]). diag_uri e \<le> Some u" using assms(3) by simp
  show "u \<notin> diag_uris ds"
  proof (cases "ps_last_uri ps")
    case None
    with assms(1) show ?thesis by (simp add: last_ok_def)
  next
    case (Some w)
    with assms(1) have w: "w \<in> diag_uris ds" "\<forall>e \<in> set ds. diag_uri e \<le> Some w" by (simp_all add: last_ok_def)
    then have "Some w \<le> Some u" using le by (auto simp: diag_uris_def)
    moreover have "w \<noteq> u" using Some assms(3,4) by simp
    ultimately have "\<not> Some u \<le> Some w" by (metis antisym option.inject)
    with w(2) show ?thesis by (auto simp: diag_uris_def)
  qed
qed

lemma publish_loop_ok:
  assumes "publish_loop api rest ps = Inr ps'"
    and "sorted (map diag_uri (ds @ rest))"
    and "sent_ok api ctx0 view ds ps" and "sets_ok ctx0 ds (ps_ctx ps)" and "last_ok ds ps"
  shows "sent_ok api ctx0 view (ds @ rest) ps' \<and> sets_ok ctx0 (ds @ rest) (ps_ctx ps')"
  using assms
proof (induction rest arbitrary: ds ps)
  case (Cons d rest)
  have sorted: "sorted (map diag_uri ((ds @ [d]) @ rest))" using Cons.prems(2) by simp
  have next_ds: "(ds @ [d]) @ rest = ds @ d # rest" by simp
  note IH = Cons.IH [OF _ sorted, unfolded next_ds]
  show ?case
  proof (cases "diag_uri d = ps_last_uri ps")
    case same: True
    then have run: "publish_loop api rest (add_diag d ps) = Inr ps'" using Cons.prems(1) by simp
    have sets: "sets_ok ctx0 (ds @ [d]) (ps_ctx (add_diag d ps))"
      by (rule sets_ok_cong [OF _ _ _ Cons.prems(4)])
        (use same Cons.prems(5) in \<open>auto simp: last_ok_def split: option.splits\<close>)
    show ?thesis
    proof (cases "ps_last_uri ps")
      case None
      with same Cons.prems(5) have "ps_msg ps = None" "diag_uri d = None" "diag_uris ds = {}"
        by (simp_all add: last_ok_def)
      then have "sent_ok api ctx0 view (ds @ [d]) (add_diag d ps)" "last_ok (ds @ [d]) (add_diag d ps)"
        using Cons.prems(3) None by (simp_all add: sent_ok_def add_diag_def last_ok_def)
      with IH [OF run _ sets] show ?thesis by blast
    next
      case (Some u)
      with same Cons.prems(5) obtain items where u: "ps_msg ps = Some (Some u, items)" "u \<in> diag_uris ds"
        "diag_uri d = Some u" "\<forall>d \<in> set ds. diag_uri d \<le> Some u" by (auto simp: last_ok_def)
      have "sent_ok api ctx0 view (ds @ [d]) (add_diag d ps)"
        by (rule add_to_pending [OF Cons.prems(3) u(1-3)])
      moreover have "last_ok (ds @ [d]) (add_diag d ps)"
        using Some u by (auto simp: last_ok_def add_diag_def)
      ultimately show ?thesis using IH [OF run _ sets] by blast
    qed
  next
    case new: False
    then obtain u success ps2 where u: "diag_uri d = Some u"
      and f: "flush_publish api (ps\<lparr>ps_ctx := move_uri (la_layout api) u (ps_ctx ps)\<rparr>) = Inr (success, ps2)"
      and run: "(if \<not> success then Inr ps2 else publish_loop api rest
         (add_diag d (ps2\<lparr>ps_msg := Some (Some u, []), ps_last_uri := Some u\<rparr>))) = Inr ps'"
      using Cons.prems(1) by (auto elim!: obind_InrE split: option.splits)
    let ?ps1 = "ps\<lparr>ps_ctx := move_uri (la_layout api) u (ps_ctx ps)\<rparr>"
    let ?ps3 = "add_diag d (ps2\<lparr>ps_msg := Some (Some u, []), ps_last_uri := Some u\<rparr>)"
    note unseen = new_uri_unseen [OF Cons.prems(5,2) u new]
    have "sent_ok api ctx0 view ds ?ps1"
      using Cons.prems(3) by (simp add: sent_ok_def move_uri_def pending_def)
    note fl = flush_success [OF f this]
    have "sent_ok api ctx0 view (ds @ [d]) ?ps3" by (rule start_pending [OF fl(2,3) unseen(1) u])
    moreover have "sets_ok ctx0 (ds @ [d]) (ps_ctx ?ps3)"
      by (rule sets_ok_cong [OF _ _ refl sets_ok_move [OF Cons.prems(4) u]]) (simp_all add: fl)
    moreover have "last_ok (ds @ [d]) ?ps3"
      using u unseen(2) by (auto simp: last_ok_def add_diag_def)
    ultimately show ?thesis using IH [of ?ps3] run fl(1) by simp
  qed
qed simp

section \<open>The whole publication\<close>

lemma unpublish_all:
  assumes "ofold (unpublish api) uris ctx = Inr ctx'" and "o_script (lc_out ctx) = []"
  shows "send_all (la_yy api) (map (\<lambda>u. publish_msg (Some u) []) uris) (lc_out ctx) = Inr (lc_out ctx') \<and>
    lc_currently_diagnosed ctx' = lc_currently_diagnosed ctx"
  using assms
proof (induction uris arbitrary: ctx)
  case Nil
  then show ?case by (simp add: send_all_def)
next
  case (Cons u uris)
  then obtain ctx1 where "unpublish api u ctx = Inr ctx1" and r: "ofold (unpublish api) uris ctx1 = Inr ctx'"
    by (auto elim!: obind_InrE)
  then obtain b where e: "buxn_ls_end_msg api (publish_msg (Some u) []) ctx = Inr (b, ctx1)"
    by (auto simp: unpublish_def elim!: obind_InrE)
  note ok = end_msg_success [OF e Cons.prems(2)]
  from Cons.IH [OF r ok(2)] ok show ?case by (simp add: send_all_def)
qed

lemma publish_diagnostics_mirrors:
  assumes "publish_diagnostics api ctx = Inr ctx'" and "o_script (lc_out ctx) = []"
    and "lc_currently_diagnosed ctx = []"
    and "\<And>u. view u \<noteq> [] \<Longrightarrow> u \<in> set (bhash_keys (lc_previously_diagnosed ctx))"
    and "ds = an_diagnostics (lc_analyzer ctx)" and "sorted (map diag_uri ds)"
  shows "(\<exists>msgs. send_all (la_yy api) msgs (lc_out ctx) = Inr (lc_out ctx') \<and> client_view msgs view = diags_of ds) \<and>
    set (bhash_keys (lc_previously_diagnosed ctx')) = diag_uris ds"
proof -
  let ?ps0 = "\<lparr>ps_ctx = ctx, ps_last_uri = None, ps_msg = None\<rparr>"
  from assms(1,5) obtain ps success ps1 ctx1 where l: "publish_loop api ds ?ps0 = Inr ps"
    and f: "flush_publish api ps = Inr (success, ps1)"
    and u: "ofold (unpublish api) (bhash_keys (lc_previously_diagnosed (ps_ctx ps1))) (ps_ctx ps1) = Inr ctx1"
    and ctx': "ctx' = ctx1\<lparr>lc_previously_diagnosed := lc_currently_diagnosed ctx1, lc_currently_diagnosed := []\<rparr>"
    by (auto simp: publish_diagnostics_def elim!: obind_InrE)
  have "sent_ok api ctx view [] ?ps0"
    using assms(2) by (auto simp: sent_ok_def pending_def send_all_def diag_uris_def intro!: exI [of _ "[]"])
  moreover have "sets_ok ctx [] (ps_ctx ?ps0)" using assms(3) by (simp add: sets_ok_def diag_uris_def bhash_keys_def)
  moreover have "last_ok [] ?ps0" by (simp add: last_ok_def diag_uris_def)
  ultimately have s: "sent_ok api ctx view ds ps" "sets_ok ctx ds (ps_ctx ps)"
    using publish_loop_ok [OF l, of "[]" ctx view] assms(6) by simp_all
  note fl = flush_success [OF f s(1)]
  from fl(2,3) obtain msgs where m: "send_all (la_yy api) msgs (lc_out ctx) = Inr (lc_out (ps_ctx ps1))"
    "\<forall>v. client_view msgs view v = (if v \<in> diag_uris ds then diags_of ds v else view v)"
    "o_script (lc_out (ps_ctx ps1)) = []"
    by (auto simp: sent_ok_def pending_def)
  have sets: "sets_ok ctx ds (ps_ctx ps1)" by (rule sets_ok_cong [OF fl(4,5) refl s(2)])
  let ?stale = "bhash_keys (lc_previously_diagnosed (ps_ctx ps1))"
  note un = unpublish_all [OF u m(3)]
  let ?all = "msgs @ map (\<lambda>u. publish_msg (Some u) []) ?stale"
  have "send_all (la_yy api) ?all (lc_out ctx) = Inr (lc_out ctx')"
    using send_all_append [OF m(1)] un ctx' by simp
  moreover have "client_view ?all view v = diags_of ds v" for v
    using m(2) sets assms(4) [of v] diags_of_none [of v ds]
    by (auto simp: client_view_append client_view_clear sets_ok_def)
  ultimately have "\<exists>msgs. send_all (la_yy api) msgs (lc_out ctx) = Inr (lc_out ctx') \<and> client_view msgs view = diags_of ds"
    by (intro exI [of _ ?all]) (simp add: fun_eq_iff)
  then show ?thesis using un sets ctx' by (simp add: sets_ok_def)
qed

section \<open>Publishing returns\<close>

text \<open>Documents stay below the limit of the header buffer.\<close>

definition writes_small :: "ls_api \<Rightarrow> bool" where
  "writes_small api \<longleftrightarrow> (\<forall>j body. yy_write (la_yy api) j = Some body \<longrightarrow> length body < 10 ^ 11)"

lemma end_msg_total:
  assumes "writes_small api"
  shows "\<exists>b ctx'. buxn_ls_end_msg api msg ctx = Inr (b, ctx')"
proof -
  let ?body = "case yy_write (la_yy api) (out_root msg) of None \<Rightarrow> [] | Some b \<Rightarrow> b"
  have "length ?body < 10 ^ 11" using assms by (auto simp: writes_small_def split: option.split)
  then have "header_bytes (length ?body) = Inr (header_text (length ?body))" by (rule header_bytes_small)
  then have hd: "header_bytes (length ?body) = Inr (header_text (length ?body))" .
  obtain b1 ch1 where w1: "write_exactly (lc_out ctx) (header_text (length ?body)) = (b1, ch1)" by fastforce
  obtain b2 ch2 where w2: "write_exactly ch1 ?body = (b2, ch2)" by fastforce
  have "\<exists>r. bio_lsp_send_msg (la_yy api) msg (lc_out ctx) = Inr r"
    unfolding bio_lsp_send_msg_def Let_def hd obind_simps w1 prod.case
    by (cases b1; cases b2) (auto simp: w2)
  then show ?thesis by (auto simp: buxn_ls_end_msg_def)
qed

lemma flush_total: 
  assumes "writes_small api"
  shows "\<exists>b ps'. flush_publish api ps = Inr (b, ps')"
proof (cases "ps_msg ps")
  case (Some m)
  obtain b c where "buxn_ls_end_msg api (publish_msg (fst m) (snd m)) (ps_ctx ps) = Inr (b, c)"
    using end_msg_total [OF assms] by blast
  with Some show ?thesis by (cases m) (simp add: flush_publish_def)
qed (auto simp: flush_publish_def)

lemma publish_loop_total:
  assumes "writes_small api" and "\<forall>d \<in> set ds. diag_uri d \<noteq> None"
  shows "\<exists>ps'. publish_loop api ds ps = Inr ps'"
  using assms(2)
proof (induction ds arbitrary: ps)
  case (Cons d ds)
  then obtain u where u: "diag_uri d = Some u" by auto
  obtain b ps2 where "flush_publish api (ps\<lparr>ps_ctx := move_uri (la_layout api) u (ps_ctx ps)\<rparr>) = Inr (b, ps2)"
    using flush_total [OF assms(1)] by blast
  with Cons u show ?case by simp
qed simp

lemma unpublish_total: "writes_small api \<Longrightarrow> \<exists>ctx'. unpublish api u ctx = Inr ctx'"
  unfolding unpublish_def using end_msg_total by (metis (no_types, lifting) obind_simps(2) prod.case)

lemma publish_diagnostics_total:
  assumes "writes_small api" and "\<forall>d \<in> set (an_diagnostics (lc_analyzer ctx)). diag_uri d \<noteq> None"
  shows "\<exists>ctx'. publish_diagnostics api ctx = Inr ctx'"
proof -
  obtain ps where l: "publish_loop api (an_diagnostics (lc_analyzer ctx))
      \<lparr>ps_ctx = ctx, ps_last_uri = None, ps_msg = None\<rparr> = Inr ps"
    using publish_loop_total [OF assms] by blast
  obtain b ps1 where f: "flush_publish api ps = Inr (b, ps1)" using flush_total [OF assms(1)] by blast
  obtain ctx1 where "ofold (unpublish api) (bhash_keys (lc_previously_diagnosed (ps_ctx ps1))) (ps_ctx ps1) = Inr ctx1"
    using ofold_total [of "\<lambda>c. True" "ps_ctx ps1" _ "unpublish api"] unpublish_total [OF assms(1)] by blast
  with l f show ?thesis by (simp add: publish_diagnostics_def)
qed

section \<open>The property\<close>

text \<open>What the C standard says of \<open>qsort\<close>, for a comparison that is a total preorder on the elements: the
  result is a permutation and in order.\<close>

definition preorder_on :: "('a \<Rightarrow> 'a \<Rightarrow> int) \<Rightarrow> 'a set \<Rightarrow> bool" where
  "preorder_on cmp A \<longleftrightarrow>
     (\<forall>x\<in>A. \<forall>y\<in>A. cmp x y \<le> 0 \<or> cmp y x \<le> 0) \<and>
     (\<forall>x\<in>A. \<forall>y\<in>A. \<forall>z\<in>A. cmp x y \<le> 0 \<longrightarrow> cmp y z \<le> 0 \<longrightarrow> cmp x z \<le> 0)"

lemma preorder_onD:
  "preorder_on cmp A \<Longrightarrow> x \<in> A \<Longrightarrow> y \<in> A \<Longrightarrow> \<not> cmp x y \<le> 0 \<Longrightarrow> cmp y x \<le> 0"
  "preorder_on cmp A \<Longrightarrow> x \<in> A \<Longrightarrow> y \<in> A \<Longrightarrow> z \<in> A \<Longrightarrow> cmp x y \<le> 0 \<Longrightarrow> cmp y z \<le> 0 \<Longrightarrow> cmp x z \<le> 0"
  unfolding preorder_on_def by blast+

lemma preorder_on_subset: "preorder_on cmp A \<Longrightarrow> B \<subseteq> A \<Longrightarrow> preorder_on cmp B"
  unfolding preorder_on_def by blast

definition qsort_ok :: "(('a \<Rightarrow> 'a \<Rightarrow> int) \<Rightarrow> 'a list \<Rightarrow> 'a list) \<Rightarrow> bool" where
  "qsort_ok qsort \<longleftrightarrow>
     (\<forall>cmp xs. preorder_on cmp (set xs) \<longrightarrow>
        mset (qsort cmp xs) = mset xs \<and> sorted_wrt (\<lambda>x y. cmp x y \<le> 0) (qsort cmp xs))"

text \<open>The comparison of the code is the order of the URIs.\<close>

lemma strcmp_le: "strcmp s t \<le> 0 \<longleftrightarrow> s \<le> t"
  by (induction s t rule: strcmp.induct) (auto simp: less_eq_char_def less_char_def)

lemma cmp_diagnostic_le:
  "diag_uri d \<noteq> None \<Longrightarrow> diag_uri e \<noteq> None \<Longrightarrow> buxn_ls_cmp_diagnostic d e \<le> 0 \<longleftrightarrow> diag_uri d \<le> diag_uri e"
  by (auto simp: buxn_ls_cmp_diagnostic_def strcmp_le)

lemma cmp_diagnostic_preorder:
  "\<forall>d\<in>A. diag_uri d \<noteq> None \<Longrightarrow> preorder_on buxn_ls_cmp_diagnostic A"
  unfolding preorder_on_def
proof (intro conjI ballI impI)
  assume uris: "\<forall>d\<in>A. diag_uri d \<noteq> None"
  fix d e assume "d \<in> A" "e \<in> A"
  then have le: "buxn_ls_cmp_diagnostic d e \<le> 0 \<longleftrightarrow> diag_uri d \<le> diag_uri e"
    "buxn_ls_cmp_diagnostic e d \<le> 0 \<longleftrightarrow> diag_uri e \<le> diag_uri d"
    using uris cmp_diagnostic_le by blast+
  show "buxn_ls_cmp_diagnostic d e \<le> 0 \<or> buxn_ls_cmp_diagnostic e d \<le> 0" unfolding le by (rule linear)
  fix f assume "f \<in> A" "buxn_ls_cmp_diagnostic d e \<le> 0" "buxn_ls_cmp_diagnostic e f \<le> 0"
  then have "diag_uri d \<le> diag_uri e" "diag_uri e \<le> diag_uri f"
    using uris \<open>d \<in> A\<close> \<open>e \<in> A\<close> by (simp_all add: cmp_diagnostic_le)
  then show "buxn_ls_cmp_diagnostic d f \<le> 0"
    using uris \<open>d \<in> A\<close> \<open>f \<in> A\<close> by (simp add: cmp_diagnostic_le)
qed

lemma sort_diagnostics_sorts:
  assumes "sort_diagnostics api a = Inr a'" and "qsort_ok (aa_qsort api)"
  shows "sorted (map diag_uri (an_diagnostics a'))"
proof (cases "length (an_diagnostics a) > 1")
  case True
  let ?ds = "aa_qsort api buxn_ls_cmp_diagnostic (an_diagnostics a)"
  from True assms(1) have uris: "\<forall>d\<in>set (an_diagnostics a). diag_uri d \<noteq> None" and a': "an_diagnostics a' = ?ds"
    by (auto simp: sort_diagnostics_def split: if_splits)
  with assms(2) have s: "mset ?ds = mset (an_diagnostics a)" "sorted_wrt (\<lambda>d e. buxn_ls_cmp_diagnostic d e \<le> 0) ?ds"
    using cmp_diagnostic_preorder unfolding qsort_ok_def by blast+
  from s(1) uris have "\<forall>d\<in>set ?ds. diag_uri d \<noteq> None" by (metis mset_eq_setD)
  with s(2) have "sorted_wrt (\<lambda>d e. diag_uri d \<le> diag_uri e) ?ds"
    by (auto intro: sorted_wrt_mono_rel [rotated] simp: cmp_diagnostic_le)
  then show ?thesis by (simp add: a' sorted_map)
next
  case False
  have "length (an_diagnostics a') = length (an_diagnostics a)"
  proof (cases "an_diagnostics a")
    case (Cons d ds)
    with False have "ds = []" by simp
    moreover have "mset (aa_qsort api buxn_ls_cmp_diagnostic [d]) = mset [d]"
    proof -
      have "preorder_on buxn_ls_cmp_diagnostic (set [d])"
        by (auto simp: preorder_on_def buxn_ls_cmp_diagnostic_def strcmp_le split: option.split)
      then show ?thesis using assms(2) unfolding qsort_ok_def by blast
    qed
    ultimately show ?thesis using assms(1) Cons by (auto simp: sort_diagnostics_def dest: mset_eq_length split: if_splits)
  qed (use assms(1) in \<open>auto simp: sort_diagnostics_def\<close>)
  with False have "length (map diag_uri (an_diagnostics a')) \<le> 1" by simp
  then show ?thesis by (cases "map diag_uri (an_diagnostics a')" rule: list.exhaust) auto
qed

lemma analyze_sorts:
  assumes "buxn_ls_analyze api ws a = Inr a'" and "qsort_ok (aa_qsort api)"
  shows "sorted (map diag_uri (an_diagnostics a'))"
  using assms(1) sort_diagnostics_sorts [OF _ assms(2)] by (auto simp: buxn_ls_analyze_def Let_def elim!: obind_InrE)

lemma publish_mirrored:
  assumes "ls_inv ctx" and "o_script (lc_out ctx) = []"
    and "\<forall>u. view u \<noteq> [] \<longrightarrow> u \<in> set (bhash_keys (lc_previously_diagnosed ctx))"
    and "sorted (map diag_uri (an_diagnostics (lc_analyzer ctx)))"
    and "publish_diagnostics api ctx = Inr ctx'"
  shows "\<exists>msgs. send_all (la_yy api) msgs (lc_out ctx) = Inr (lc_out ctx') \<and>
    client_view msgs view = diags_of (an_diagnostics (lc_analyzer ctx')) \<and>
    (\<forall>u. client_view msgs view u \<noteq> [] \<longrightarrow> u \<in> set (bhash_keys (lc_previously_diagnosed ctx')))"
proof -
  let ?ds = "an_diagnostics (lc_analyzer ctx)"
  have "bhash_inv (lc_currently_diagnosed ctx)" using assms(1) by (simp add: ls_inv_def)
  then have an: "lc_analyzer ctx' = lc_analyzer ctx" using publish_diagnostics_frame(2) [OF assms(5)] by simp
  have "(\<exists>msgs. send_all (la_yy api) msgs (lc_out ctx) = Inr (lc_out ctx') \<and> client_view msgs view = diags_of ?ds) \<and>
    set (bhash_keys (lc_previously_diagnosed ctx')) = diag_uris ?ds"
    using publish_diagnostics_mirrors [OF assms(5), of view ?ds] assms(1-4) by (simp add: ls_inv_def)
  then show ?thesis using diags_of_none an by metis
qed

text \<open>C6: After an analysis what the editor shows is exactly what the analysis found: the messages that are
  sent make its view, for every URI, the list of the diagnostics of that URI in their order, and empty
  where there are none any more. It needs that \<open>qsort\<close> sorts as the C standard says, that the channel does
  not fail, and that what the editor showed before was among the files diagnosed before; the last is kept.\<close>

theorem diagnostics_mirrored:
  assumes "ls_inv ctx" and "o_script (lc_out ctx) = []"
    and "\<forall>u. view u \<noteq> [] \<longrightarrow> u \<in> set (bhash_keys (lc_previously_diagnosed ctx))"
    and "qsort_ok (aa_qsort (la_asm api))"
    and "buxn_ls_analyze_workspace api ctx = Inr ctx'"
  shows "\<exists>msgs. send_all (la_yy api) msgs (lc_out ctx) = Inr (lc_out ctx') \<and>
    client_view msgs view = diags_of (an_diagnostics (lc_analyzer ctx')) \<and>
    (\<forall>u. client_view msgs view u \<noteq> [] \<longrightarrow> u \<in> set (bhash_keys (lc_previously_diagnosed ctx')))"
proof -
  from assms(5) obtain a where a: "buxn_ls_analyze (la_asm api) (lc_workspace ctx) (lc_analyzer ctx) = Inr a"
    and p: "publish_diagnostics api (ctx\<lparr>lc_analyzer := a\<rparr>) = Inr ctx'"
    by (auto simp: buxn_ls_analyze_workspace_def elim!: obind_InrE)
  have "sorted (map diag_uri (an_diagnostics a))" by (rule analyze_sorts [OF a assms(4)])
  moreover have i: "workspace_inv (lc_workspace ctx)" "analyzer_inv (lc_analyzer ctx)"
    using assms(1) by (simp_all add: ls_inv_def analyzer_ok_def)
  have "analyzer_ok a" unfolding analyzer_ok_def
    by (intro conjI analyze_keeps_inv [OF i a] analyze_sym_inv [OF i a])
  then have "ls_inv (ctx\<lparr>lc_analyzer := a\<rparr>)" using assms(1) by (simp add: ls_inv_def)
  ultimately show ?thesis using publish_mirrored [OF _ _ _ _ p, of view] assms(2,3) by simp
qed

text \<open>A run that reports an error, a \<open>qsort\<close> that sorts, and a library that writes every document as
  the same text.\<close>

definition demo_error_run :: asm_run where
  "demo_error_run = Call (Asm_fopen (demo_name ''a.tal'')) (\<lambda>_.
     Call (Asm_report_msg BUXN_ASM_REPORT_ERROR \<lparr>rp_message = ''bad'', rp_region = demo_region 0 2,
       rp_related_message = None, rp_related_region = None\<rparr>) (\<lambda>_. Done False))"

fun insert_by :: "('a \<Rightarrow> 'a \<Rightarrow> int) \<Rightarrow> 'a \<Rightarrow> 'a list \<Rightarrow> 'a list" where
  "insert_by cmp x [] = [x]"
| "insert_by cmp x (y # ys) = (if cmp x y \<le> 0 then x # y # ys else y # insert_by cmp x ys)"

definition insertion_sort :: "('a \<Rightarrow> 'a \<Rightarrow> int) \<Rightarrow> 'a list \<Rightarrow> 'a list" where
  "insertion_sort cmp xs = foldr (insert_by cmp) xs []"

lemma mset_insert_by [simp]: "mset (insert_by cmp x ys) = add_mset x (mset ys)"
  by (induction ys) auto

lemma set_insert_by [simp]: "set (insert_by cmp x ys) = insert x (set ys)"
  by (induction ys) auto

lemma insert_by_sorted:
  assumes "preorder_on cmp A"
  shows "insert x (set ys) \<subseteq> A \<Longrightarrow> sorted_wrt (\<lambda>x y. cmp x y \<le> 0) ys \<Longrightarrow>
    sorted_wrt (\<lambda>x y. cmp x y \<le> 0) (insert_by cmp x ys)"
proof (induction ys)
  case (Cons y ys)
  show ?case
  proof (cases "cmp x y \<le> 0")
    case True
    have "cmp x z \<le> 0" if "z \<in> set ys" for z
      by (rule preorder_onD(2) [OF assms _ _ _ True]) (use Cons.prems that in auto)
    with True Cons.prems(2) show ?thesis by simp
  next
    case False
    then have "cmp y x \<le> 0" by (intro preorder_onD(1) [OF assms]) (use Cons.prems in auto)
    with False Cons show ?thesis by simp
  qed
qed simp

lemma insertion_sort_ok: "qsort_ok insertion_sort"
  unfolding qsort_ok_def
proof (intro allI impI)
  fix cmp :: "'a \<Rightarrow> 'a \<Rightarrow> int" and xs
  assume "preorder_on cmp (set xs)"
  then show "mset (insertion_sort cmp xs) = mset xs \<and> sorted_wrt (\<lambda>x y. cmp x y \<le> 0) (insertion_sort cmp xs)"
  proof (induction xs)
    case (Cons x xs)
    then have "preorder_on cmp (set xs)" using preorder_on_subset [of cmp "set (x # xs)" "set xs"] by auto
    with Cons.IH have s: "mset (insertion_sort cmp xs) = mset xs" "sorted_wrt (\<lambda>x y. cmp x y \<le> 0) (insertion_sort cmp xs)"
      by auto
    from s(1) have "set (insertion_sort cmp xs) = set xs" by (rule mset_eq_setD)
    with s insert_by_sorted [OF Cons.prems, of x "insertion_sort cmp xs"] show ?case by (auto simp: insertion_sort_def)
  qed (simp add: insertion_sort_def)
qed

definition demo_error_asm :: asm_api where
  "demo_error_asm = demo_asm\<lparr>aa_asm := (\<lambda>f. demo_error_run), aa_qsort := insertion_sort\<rparr>"

definition demo_diag_api :: ls_api where
  "demo_diag_api = demo_api\<lparr>la_yy := demo_yy\<lparr>yy_write := (\<lambda>j. Some ''{}'')\<rparr>, la_asm := demo_error_asm\<rparr>"

lemma demo_diag_analysis:
  "\<exists>a. buxn_ls_analyze demo_error_asm demo_ws buxn_ls_analyzer_init = Inr a \<and>
     map diag_uri (an_diagnostics a) = [Some ''file:///r/a.tal'']"
  by (simp add: demo_error_asm_def demo_error_run_def demo_defs table_defs source_defs position_defs analysis_defs)
    (simp add: demo_defs table_defs source_defs position_defs analysis_defs
      insertion_sort_def buxn_asm_report_def mark_error_def buxn_ls_convert_region_def
      add_related_def push_diagnostic_def zero_location_def Let_def CR_def LF_def)

lemma demo_diag_api [simp]: "la_asm demo_diag_api = demo_error_asm"
  by (simp add: demo_diag_api_def)

theorem diagnostics_mirrored_witness:
  "\<exists>ctx' msgs. buxn_ls_analyze_workspace demo_diag_api (demo_ctx\<lparr>lc_analyzer := buxn_ls_analyzer_init\<rparr>) = Inr ctx' \<and>
     send_all (la_yy demo_diag_api) msgs (lc_out demo_ctx) = Inr (lc_out ctx') \<and>
     length (client_view msgs (\<lambda>u. []) ''file:///r/a.tal'') = 1"
proof -
  let ?ctx = "demo_ctx\<lparr>lc_analyzer := buxn_ls_analyzer_init\<rparr>"
  from demo_diag_analysis obtain a where
    a: "buxn_ls_analyze demo_error_asm demo_ws buxn_ls_analyzer_init = Inr a"
      "map diag_uri (an_diagnostics a) = [Some ''file:///r/a.tal'']" by (elim exE conjE)
  from a(2) obtain d where d: "an_diagnostics a = [d]" "diag_uri d = Some ''file:///r/a.tal''"
    by (cases "an_diagnostics a") auto
  have run: "buxn_ls_analyze_workspace demo_diag_api ?ctx = publish_diagnostics demo_diag_api (?ctx\<lparr>lc_analyzer := a\<rparr>)"
    using a(1) by (simp add: buxn_ls_analyze_workspace_def demo_ctx_def server_start_def)
  have "writes_small demo_diag_api" by (simp add: writes_small_def demo_diag_api_def)
  then have "\<exists>ctx'. buxn_ls_analyze_workspace demo_diag_api ?ctx = Inr ctx'"
    unfolding run by (rule publish_diagnostics_total) (simp add: d)
  then obtain ctx' where c: "buxn_ls_analyze_workspace demo_diag_api ?ctx = Inr ctx'" by blast
  have inv: "ls_inv ?ctx" using demo_ctx_inv analyzer_init_ok by (simp add: ls_inv_def)
  have "bhash_inv (lc_currently_diagnosed (?ctx\<lparr>lc_analyzer := a\<rparr>))" using inv by (simp add: ls_inv_def)
  from publish_diagnostics_frame(2) [OF c [unfolded run] this] have "lc_analyzer ctx' = a" by simp
  moreover have "o_script (lc_out ?ctx) = []" "lc_out ?ctx = lc_out demo_ctx"
    by (simp_all add: demo_ctx_def server_start_def)
  moreover have "qsort_ok (aa_qsort (la_asm demo_diag_api))"
    by (simp add: demo_error_asm_def insertion_sort_ok)
  ultimately obtain msgs where "send_all (la_yy demo_diag_api) msgs (lc_out demo_ctx) = Inr (lc_out ctx')"
    "client_view msgs (\<lambda>u. []) = diags_of [d]"
    using diagnostics_mirrored [OF inv _ _ _ c, of "\<lambda>u. []"] d(1) by auto
  with c d(2) show ?thesis by (intro exI [of _ ctx'] exI [of _ msgs]) (simp add: diags_of_def)
qed

end
