(* ===== verification/Ls_Total.thy ===== *)
theory Ls_Total
  imports Ls_Diagnostics
begin

text \<open>
  The server does not fault: whatever message it receives, in whatever phase and with whatever analyzer, as
  long as that is well-formed, the turn returns. What it needs of the libraries and of the editor is
  named here.
\<close>

section \<open>What is needed\<close>

text \<open>
  The parser accepts the URI with the parts that the code then uses without a check, or rejects it.
\<close>

definition path_ok :: "yuarel_parse \<Rightarrow> string option \<Rightarrow> bool" where
  "path_ok yuarel uri \<longleftrightarrow> (case yuarel uri of None \<Rightarrow> True | Some url \<Rightarrow> url_path url \<noteq> None)"

definition scheme_ok :: "yuarel_parse \<Rightarrow> string option \<Rightarrow> bool" where
  "scheme_ok yuarel uri \<longleftrightarrow> (case yuarel uri of None \<Rightarrow> True | Some url \<Rightarrow> url_scheme url \<noteq> None)"

definition libs_ok :: "ls_api \<Rightarrow> bool" where
  "libs_ok api \<longleftrightarrow> utf8_ok (la_utf8 api) \<and> writes_small api"

text \<open>
  What the code takes from a message without a check: the path of the document's URI, the schemes of
  the URIs of an \<open>initialize\<close>, the line of a completion, and for a hover the paths of the URIs that the
  analysis has made.
\<close>

definition msg_uri :: "ls_api \<Rightarrow> json option \<Rightarrow> string option" where
  "msg_uri api v = (let yy = la_yy api in yy_get_cstr yy (yy_obj_get yy (yy_obj_get yy v ''textDocument'') ''uri''))"

definition roots_ok :: "ls_api \<Rightarrow> json option \<Rightarrow> bool" where
  "roots_ok api v \<longleftrightarrow> (let yy = la_yy api in
     scheme_ok (la_yuarel api)
       (yy_get_cstr yy (yy_obj_get yy (yy_arr_first yy (yy_obj_get yy v ''workspaceFolders'')) ''uri'')) \<and>
     scheme_ok (la_yuarel api) (yy_get_cstr yy (yy_obj_get yy v ''rootUri'')))"

definition msg_ok :: "ls_api \<Rightarrow> buxn_ls_ctx \<Rightarrow> bio_lsp_in_msg \<Rightarrow> bool" where
  "msg_ok api ctx msg \<longleftrightarrow>
     path_ok (la_yuarel api) (msg_uri api (in_value msg)) \<and> roots_ok api (in_value msg) \<and>
     (in_method msg = Some ''textDocument/completion'' \<longrightarrow> 0 \<le> fst (request_position api (in_value msg))) \<and>
     (in_method msg = Some ''textDocument/hover'' \<longrightarrow>
        (\<forall>sn\<in>set (cx_src_nodes (an_current (lc_analyzer ctx))). path_ok (la_yuarel api) (Some (sn_uri sn))))"

definition docs_small :: "buxn_ls_workspace \<Rightarrow> bool" where
  "docs_small ws \<longleftrightarrow> (\<forall>p content. bhash_get (docs ws) p = Some content \<longrightarrow> length content < 2 ^ 63)"

section \<open>Handlers\<close>

lemma resolve_path_total: "path_ok yuarel uri \<Longrightarrow> \<exists>p. buxn_ls_workspace_resolve_path yuarel ws uri = Inr p"
  by (auto simp: buxn_ls_workspace_resolve_path_def path_ok_def split: option.splits)

lemma request_path_total:
  "path_ok (la_yuarel api) (msg_uri api req) \<Longrightarrow> \<exists>p. request_path api ctx req = Inr p"
  using resolve_path_total [of "la_yuarel api" "msg_uri api req"]
  by (auto simp: request_path_def msg_uri_def Let_def split: option.split)

lemma request_source_total:
  "path_ok (la_yuarel api) (msg_uri api req) \<Longrightarrow> \<exists>n. request_source api ctx req = Inr n"
  using request_path_total [of api req ctx] by (auto simp: request_source_def split: option.split)

lemma find_definition_total:
  "path_ok (la_yuarel api) (msg_uri api req) \<Longrightarrow> \<exists>d. buxn_ls_find_definition api ctx req = Inr d"
  using request_source_total [of api req ctx]
  by (auto simp: buxn_ls_find_definition_def Let_def split: option.split list.split)

lemma found_definition:
  assumes "ls_inv ctx" and "buxn_ls_find_definition api ctx req = Inr (Some d)"
  shows "is_def (ls_cx ctx) d"
proof -
  from assms(2) obtain n r where n: "request_source api ctx req = Inr (Some n)"
    and r: "find_covering (ls_cx ctx) (request_position api req) (src_refs (ls_cx ctx) n) = Some r"
    by (auto simp: buxn_ls_find_definition_def src_refs_def Let_def ok_simps split: option.splits)
  from find_definition_ref [OF assms(1) n r] assms(2) show ?thesis by auto
qed

lemma hover_total:
  assumes "path_ok (la_yuarel api) (msg_uri api req)" and "ls_inv ctx"
    and "\<forall>sn\<in>set (cx_src_nodes (an_current (lc_analyzer ctx))). path_ok (la_yuarel api) (Some (sn_uri sn))"
  shows "\<exists>r. buxn_ls_handle_hover api req ctx = Inr r"
proof -
  let ?cx = "an_current (lc_analyzer ctx)"
  obtain d where d: "buxn_ls_find_definition api ctx req = Inr d" using find_definition_total [OF assms(1)] by blast
  show ?thesis
  proof (cases d)
    case (Some n)
    have "path_ok (la_yuarel api) (Some (sym_uri ?cx (cx_sym_nodes ?cx ! n)))"
      using assms(3) found_definition [OF assms(2) d [unfolded Some]]
      by (simp add: sym_uri_def is_def_def sym_src_def src_size_def)
    from resolve_path_total [OF this] obtain p where "buxn_ls_workspace_resolve_path (la_yuarel api)
        (lc_workspace ctx) (Some (sym_uri ?cx (cx_sym_nodes ?cx ! n))) = Inr p" by blast
    with d Some show ?thesis by (cases p) (simp_all add: buxn_ls_handle_hover_def Let_def)
  qed (use d in \<open>simp add: buxn_ls_handle_hover_def\<close>)
qed

lemma quiet_handlers_total:
  assumes "path_ok (la_yuarel api) (msg_uri api req)"
  shows "\<exists>r. buxn_ls_handle_shutdown api req ctx = Inr r" "\<exists>r. buxn_ls_handle_find_definition api req ctx = Inr r"
    "\<exists>r. buxn_ls_handle_find_references api req ctx = Inr r" "\<exists>r. buxn_ls_handle_list_doc_symbols api req ctx = Inr r"
    "\<exists>r. buxn_ls_handle_list_workspace_symbols api req ctx = Inr r"
proof -
  obtain d n where "buxn_ls_find_definition api ctx req = Inr d" "request_source api ctx req = Inr n"
    using find_definition_total [OF assms] request_source_total [OF assms] by blast
  then show "\<exists>r. buxn_ls_handle_find_definition api req ctx = Inr r"
    "\<exists>r. buxn_ls_handle_find_references api req ctx = Inr r" "\<exists>r. buxn_ls_handle_list_doc_symbols api req ctx = Inr r"
    by (auto simp: buxn_ls_handle_find_definition_def buxn_ls_handle_find_references_def
        buxn_ls_handle_list_doc_symbols_def Let_def split: option.split)
qed (auto simp: buxn_ls_handle_shutdown_def buxn_ls_handle_list_workspace_symbols_def Let_def split: option.split)

lemma completion_total:
  assumes "libs_ok api" and "ls_inv ctx" and "docs_small (lc_workspace ctx)"
    and "path_ok (la_yuarel api) (msg_uri api req)" and "0 \<le> fst (request_position api req)"
  shows "\<exists>r. buxn_ls_handle_completion api req ctx = Inr r"
proof -
  from assms(1) have l: "utf8_ok (la_utf8 api)" by (simp add: libs_ok_def)
  from request_path_total [OF assms(4)] obtain path where path: "request_path api ctx req = Inr path" by blast
  from assms(5) completion_faults_iff [OF l assms(2) path] assms(3)
  have "\<not> (\<exists>e. buxn_ls_handle_completion api req ctx = Inl e)" by (fastforce simp: docs_small_def)
  then show ?thesis by (cases "buxn_ls_handle_completion api req ctx") auto
qed

lemma handlers_total:
  assumes "libs_ok api" and "ls_inv ctx" and "docs_small (lc_workspace ctx)" and "msg_ok api ctx msg"
    and "in_method msg = Some meth" and "map_of BUXN_LS_REQUEST_HANDLERS meth = Some h"
  shows "\<exists>r. h api (in_value msg) ctx = Inr r"
proof -
  from assms(4,5) have ok: "path_ok (la_yuarel api) (msg_uri api (in_value msg))"
    "meth = ''textDocument/completion'' \<Longrightarrow> 0 \<le> fst (request_position api (in_value msg))"
    "meth = ''textDocument/hover'' \<Longrightarrow>
       \<forall>sn\<in>set (cx_src_nodes (an_current (lc_analyzer ctx))). path_ok (la_yuarel api) (Some (sn_uri sn))"
    by (simp_all add: msg_ok_def)
  from assms(6) consider "meth = ''textDocument/completion''" "h = buxn_ls_handle_completion"
    | "meth = ''textDocument/hover''" "h = buxn_ls_handle_hover"
    | "h = buxn_ls_handle_shutdown" | "h = buxn_ls_handle_find_definition" | "h = buxn_ls_handle_find_references"
    | "h = buxn_ls_handle_list_doc_symbols" | "h = buxn_ls_handle_list_workspace_symbols"
    by (auto simp: BUXN_LS_REQUEST_HANDLERS_def split: if_splits)
  then show ?thesis
  proof cases
    case 1
    with completion_total [OF assms(1-3) ok(1)] ok(2) show ?thesis by simp
  next
    case 2
    with hover_total [OF ok(1) assms(2)] ok(3) show ?thesis by simp
  qed (use quiet_handlers_total [OF ok(1), of ctx] in simp_all)
qed

section \<open>Messages\<close>

lemma end_msg_total_ex: "libs_ok api \<Longrightarrow> \<exists>r. buxn_ls_end_msg api msg ctx = Inr r"
  using end_msg_total [of api msg ctx] by (auto simp: libs_ok_def)

lemma handle_request_total:
  assumes "libs_ok api" and "ls_inv ctx" and "docs_small (lc_workspace ctx)" and "msg_ok api ctx msg"
    and "in_method msg = Some meth"
  shows "\<exists>ctx'. handle_request api msg ctx = Inr ctx'"
proof (cases "map_of BUXN_LS_REQUEST_HANDLERS meth")
  case None
  let ?reply = "\<lparr>out_type = BIO_LSP_MSG_ERROR, out_id = in_id msg, out_method = None,
    out_value = Some (JObj [(''code'', JInt (- 32601)), (''message'', JStr ''Method not found'')])\<rparr>"
  obtain r where "buxn_ls_end_msg api ?reply ctx = Inr r" using end_msg_total_ex [OF assms(1)] by blast
  with None assms(5) show ?thesis
    by (cases r) (simp add: handle_request_def buxn_ls_begin_msg_def Let_def)
next
  case (Some h)
  obtain v ctx1 where h: "h api (in_value msg) ctx = Inr (v, ctx1)"
    using handlers_total [OF assms Some] by auto
  let ?reply = "\<lparr>out_type = BIO_LSP_MSG_RESULT, out_id = in_id msg, out_method = None,
    out_value = Some (case v of None \<Rightarrow> JNull | Some j \<Rightarrow> j)\<rparr>"
  obtain r where "buxn_ls_end_msg api ?reply ctx1 = Inr r" using end_msg_total_ex [OF assms(1)] by blast
  with Some h assms(5) show ?thesis
    by (cases r) (simp add: handle_request_def buxn_ls_begin_msg_def Let_def)
qed

lemma workspace_update_total:
  assumes "path_ok (la_yuarel api) (msg_uri api (in_value msg))"
  shows "\<exists>ws'. buxn_ls_workspace_update (la_yy api) (la_yuarel api) lay ws msg = Inr ws'"
proof -
  obtain p where "buxn_ls_workspace_resolve_path (la_yuarel api) ws (msg_uri api (in_value msg)) = Inr p"
    using resolve_path_total [OF assms] by blast
  then show ?thesis by (auto simp: buxn_ls_workspace_update_def msg_uri_def Let_def split: option.split)
qed

lemma handle_msg_total:
  assumes "libs_ok api" and "ls_inv ctx" and "docs_small (lc_workspace ctx)" and "msg_ok api ctx msg"
    and "in_type msg \<in> {BIO_LSP_MSG_REQUEST, BIO_LSP_MSG_NOTIFICATION} \<Longrightarrow> in_method msg \<noteq> None"
  shows "\<exists>ctx'. buxn_ls_handle_msg api msg ctx = Inr ctx'"
proof (cases "in_type msg")
  case BIO_LSP_MSG_REQUEST
  with assms(5) obtain meth where "in_method msg = Some meth" by auto
  from handle_request_total [OF assms(1-4) this] BIO_LSP_MSG_REQUEST show ?thesis by (simp add: buxn_ls_handle_msg_def)
next
  case BIO_LSP_MSG_NOTIFICATION
  with assms(5) obtain meth where m: "in_method msg = Some meth" by auto
  obtain ws where "buxn_ls_workspace_update (la_yy api) (la_yuarel api) (la_layout api) (lc_workspace ctx) msg = Inr ws"
    using workspace_update_total assms(4) unfolding msg_ok_def by blast
  with m BIO_LSP_MSG_NOTIFICATION show ?thesis by (simp add: buxn_ls_handle_msg_def handle_notification_def)
qed (simp_all add: buxn_ls_handle_msg_def)

section \<open>Turns\<close>

lemma file_url_path_total: "scheme_ok yuarel uri \<Longrightarrow> \<exists>p. file_url_path yuarel uri = Inr p"
  by (auto simp: file_url_path_def scheme_ok_def split: option.splits)

lemma find_root_dir_total:
  assumes "roots_ok api params"
  shows "\<exists>r. find_root_dir api params = Inr r"
proof -
  define u1 where "u1 = yy_get_cstr (la_yy api)
    (yy_obj_get (la_yy api) (yy_arr_first (la_yy api) (yy_obj_get (la_yy api) params ''workspaceFolders'')) ''uri'')"
  define u2 where "u2 = yy_get_cstr (la_yy api) (yy_obj_get (la_yy api) params ''rootUri'')"
  from assms obtain p1 p2 where "file_url_path (la_yuarel api) u1 = Inr p1" "file_url_path (la_yuarel api) u2 = Inr p2"
    using file_url_path_total unfolding roots_ok_def Let_def u1_def u2_def by blast
  then show ?thesis by (simp add: find_root_dir_def Let_def flip: u1_def u2_def)
qed

lemma initialize_total:
  assumes "libs_ok api" and "roots_ok api (in_value msg)"
  shows "\<exists>r. buxn_ls_initialize api msg ctx = Inr r"
proof -
  obtain root where root: "find_root_dir api (in_value msg) = Inr root"
    using find_root_dir_total [OF assms(2)] by blast
  have sent: "\<exists>r. obind (buxn_ls_end_msg api m c) (\<lambda>(s, c'). Inr (b, c')) = Inr r" for m c and b :: bool
    using end_msg_total_ex [OF assms(1), of m c] by auto
  show ?thesis
    using sent by (cases root) (simp_all add: buxn_ls_initialize_def root buxn_ls_begin_msg_def Let_def)
qed

lemma parse_method:
  "bio_lsp_parse_msg yy buf msg = Inr msg' \<Longrightarrow>
     in_type msg' \<in> {BIO_LSP_MSG_REQUEST, BIO_LSP_MSG_NOTIFICATION} \<Longrightarrow> in_method msg' \<noteq> None"
  by (auto simp: bio_lsp_parse_msg_def Let_def split: option.splits)

lemma recv_msg_total:
  assumes "\<forall>n rest. bio_lsp_recv_msg_header s = Inr (n, rest) \<longrightarrow> la_json_memory api n + n < 2 ^ 64"
  shows "\<exists>r. buxn_ls_recv_msg api s bsz msg = Inr r"
  using assms by (auto simp: buxn_ls_recv_msg_def Let_def split: sum.split)

lemma recv_msg_method:
  "buxn_ls_recv_msg api s bsz msg = Inr (bsz', Inr (msg', r)) \<Longrightarrow>
     in_type msg' \<in> {BIO_LSP_MSG_REQUEST, BIO_LSP_MSG_NOTIFICATION} \<Longrightarrow> in_method msg' \<noteq> None"
  by (auto simp: buxn_ls_recv_msg_def Let_def split: sum.splits if_splits dest: parse_method)

end
