(* ===== verification/Ls_Types.thy ===== *)
theory Ls_Types
  imports Ls_Total
begin

text \<open>
  The types of results. The protocol gives each request a result type; here are those of the requests
  that the server handles, in a small language of JSON types, and what the handlers return has them.
  What is optional in the protocol and never sent is left out.
\<close>

section \<open>JSON types\<close>

text \<open>An object type lists the fields that must be there and those that may; no field comes twice and
  there is no other.\<close>

datatype json_type =
    T_null
  | T_bool
  | T_int
  | T_one_of "int list"
  | T_str
  | T_arr json_type
  | T_obj "(string \<times> json_type) list" "(string \<times> json_type) list"
  | T_or json_type json_type

fun has_type :: "json_type \<Rightarrow> json \<Rightarrow> bool" where
  "has_type T_null j = (j = JNull)"
| "has_type T_bool j = (case j of JBool b \<Rightarrow> True | _ \<Rightarrow> False)"
| "has_type T_int j = (case j of JInt i \<Rightarrow> True | _ \<Rightarrow> False)"
| "has_type (T_one_of is) j = (case j of JInt i \<Rightarrow> i \<in> set is | _ \<Rightarrow> False)"
| "has_type T_str j = (case j of JStr s \<Rightarrow> True | _ \<Rightarrow> False)"
| "has_type (T_arr t) j = (case j of JArr js \<Rightarrow> list_all (has_type t) js | _ \<Rightarrow> False)"
| "has_type (T_obj req opt) j =
     (case j of
        JObj ms \<Rightarrow>
          distinct (map fst ms) \<and> set (map fst ms) \<subseteq> set (map fst (req @ opt)) \<and>
          list_all (\<lambda>(k, t). case map_of ms k of None \<Rightarrow> False | Some v \<Rightarrow> has_type t v) req \<and>
          list_all (\<lambda>(k, t). case map_of ms k of None \<Rightarrow> True | Some v \<Rightarrow> has_type t v) opt
      | _ \<Rightarrow> False)"
| "has_type (T_or t u) j = (has_type t j \<or> has_type u j)"

section \<open>The types of the protocol\<close>

definition T_position :: json_type where
  "T_position = T_obj [(''line'', T_int), (''character'', T_int)] []"

definition T_range :: json_type where
  "T_range = T_obj [(''start'', T_position), (''end'', T_position)] []"

definition T_location :: json_type where
  "T_location = T_obj [(''uri'', T_str), (''range'', T_range)] []"

text \<open>\<open>SymbolKind\<close> and \<open>CompletionItemKind\<close>.\<close>

definition T_symbol_kind :: json_type where
  "T_symbol_kind = T_one_of [1..26]"

definition T_completion_kind :: json_type where
  "T_completion_kind = T_one_of [1..25]"

definition T_text_edit :: json_type where
  "T_text_edit = T_obj [(''range'', T_range), (''newText'', T_str)] []"

definition T_completion_item :: json_type where
  "T_completion_item = T_obj [(''label'', T_str)]
     [(''kind'', T_completion_kind), (''detail'', T_str), (''documentation'', T_str), (''sortText'', T_str),
      (''filterText'', T_str), (''insertTextFormat'', T_one_of [1, 2]), (''insertTextMode'', T_one_of [1, 2]),
      (''textEdit'', T_text_edit)]"

definition T_hover :: json_type where
  "T_hover = T_obj [(''contents'', T_obj [(''kind'', T_str), (''value'', T_str)] [])] [(''range'', T_range)]"

definition T_document_symbol :: json_type where
  "T_document_symbol = T_obj [(''name'', T_str), (''kind'', T_symbol_kind), (''range'', T_range), (''selectionRange'', T_range)]
     [(''detail'', T_str)]"

definition T_workspace_symbol :: json_type where
  "T_workspace_symbol = T_obj [(''name'', T_str), (''kind'', T_symbol_kind), (''location'', T_location)]
     [(''containerName'', T_str)]"

definition T_error :: json_type where
  "T_error = T_obj [(''code'', T_int), (''message'', T_str)] []"

text \<open>The results by method.\<close>

definition result_type :: "string \<rightharpoonup> json_type" where
  "result_type = map_of
     [(''shutdown'', T_null),
      (''textDocument/definition'', T_or T_null T_location),
      (''textDocument/references'', T_or T_null (T_arr T_location)),
      (''textDocument/hover'', T_or T_null T_hover),
      (''textDocument/documentSymbol'', T_or T_null (T_arr T_document_symbol)),
      (''textDocument/completion'', T_or T_null (T_obj [(''isIncomplete'', T_bool), (''items'', T_arr T_completion_item)] [])),
      (''workspace/symbol'', T_or T_null (T_arr T_workspace_symbol))]"

lemmas type_defs = T_position_def T_range_def T_location_def T_symbol_kind_def T_completion_kind_def T_text_edit_def
  T_completion_item_def T_hover_def T_document_symbol_def T_workspace_symbol_def T_error_def

section \<open>The parts of results\<close>

lemma range_typed [simp]: "has_type T_range (JObj (buxn_ls_serialize_lsp_range r))"
  by (simp add: type_defs buxn_ls_serialize_lsp_range_def buxn_ls_serialize_lsp_position_def)

lemma location_typed [simp]: "has_type T_location (sym_location cx n)"
  using range_typed by (simp add: T_location_def sym_location_def Let_def)

lemma symbol_kind_typed [simp]: "has_type T_symbol_kind (JInt (buxn_ls_convert_symbol_semantics s))"
  by (simp add: T_symbol_kind_def buxn_ls_convert_symbol_semantics_def split: symbol_semantics.split)

lemma doc_symbol_typed [simp]: "has_type T_document_symbol (doc_symbol cx n)"
  by (simp add: T_document_symbol_def doc_symbol_def Let_def)

lemma workspace_symbol_typed [simp]: "has_type T_workspace_symbol (workspace_symbol cx n)"
  by (simp add: T_workspace_symbol_def workspace_symbol_def Let_def)

lemma text_edit_typed [simp]: "has_type T_text_edit (text_edit s r)"
  by (simp add: T_text_edit_def text_edit_def)

lemma completion_kind_typed [simp]: "has_type T_completion_kind (JInt (completion_kind s))"
  by (simp add: T_completion_kind_def completion_kind_def split: symbol_semantics.split)

lemma module_kind_typed [simp]: "has_type T_completion_kind (JInt 9)"
  by (simp add: T_completion_kind_def)

lemma symbol_detail_str: "symbol_detail sy = None \<or> (\<exists>s. symbol_detail sy = Some (JStr s))"
  by (simp add: symbol_detail_def)

lemma documentation_str: "documentation_of sy = None \<or> (\<exists>s. documentation_of sy = Some (JStr s))"
  by (simp add: documentation_of_def)

lemma item_typed [simp]: "has_type T_completion_item (buxn_ls_serialize_completion_item_as_symbol cx item label r)"
  using symbol_detail_str [of "cx_sym_nodes cx ! ci_sym item"] documentation_str [of "cx_sym_nodes cx ! ci_sym item"]
  by (auto simp: T_completion_item_def buxn_ls_serialize_completion_item_as_symbol_def obj_add_def Let_def)

lemma group_typed [simp]: "has_type T_completion_item (serialize_group cx item r)"
  using documentation_str [of "cx_sym_nodes cx ! ci_sym item"]
  by (auto simp: T_completion_item_def serialize_group_def obj_add_def Let_def)

lemma candidate_typed: "list_all (has_type T_completion_item) (format_candidate cx fmt r item)"
  by (simp add: format_candidate_def Let_def split: sym_format_type.split)

section \<open>The results of the handlers\<close>

definition result_json :: "json option \<Rightarrow> json" where
  "result_json v = (case v of None \<Rightarrow> JNull | Some j \<Rightarrow> j)"

lemma completion_list_typed:
  assumes "buxn_ls_build_completion_list utf8 lay cx ctx cmap = Inr (v, cmap')"
  shows "has_type (the (result_type ''textDocument/completion'')) (result_json v)"
proof -
  have items: "list_all (has_type T_completion_item) (concat (map (format_candidate cx fmt r) items))" for fmt r items
    using candidate_typed by (auto simp: list_all_iff)
  then show ?thesis
    using assms by (auto simp: buxn_ls_build_completion_list_def result_type_def result_json_def ok_simps Let_def
        split: if_splits option.splits)
qed

lemma complete_in_line_result:
  "complete_in_line api p line character bytes len ctx = Inr (v, ctx') \<Longrightarrow>
     v = None \<or> (\<exists>utf8 lay cx cctx cmap cmap'. buxn_ls_build_completion_list utf8 lay cx cctx cmap = Inr (v, cmap'))"
  by (auto simp: complete_in_line_def Let_def elim!: obind_InrE split: if_splits option.splits)

lemma no_result_typed: "has_type (the (result_type ''textDocument/completion'')) (result_json None)"
  by (simp add: result_type_def result_json_def)

lemma completion_typed:
  assumes "buxn_ls_handle_completion api req ctx = Inr (v, ctx')"
  shows "has_type (the (result_type ''textDocument/completion'')) (result_json v)"
  using assms
proof (cases rule: handle_completion_cases)
  case quiet
  then show ?thesis by (simp only: no_result_typed)
next
  case (line p line ch content off len)
  from complete_in_line_result [OF line(7)] show ?thesis
    by (elim disjE exE) (simp_all only: no_result_typed completion_list_typed)
qed

lemma handler_typed:
  assumes "map_of BUXN_LS_REQUEST_HANDLERS meth = Some h" and "h api req ctx = Inr (v, ctx')"
  shows "\<exists>t. result_type meth = Some t \<and> has_type t (result_json v)"
proof -
  from assms(1) consider "meth = ''shutdown''" "h = buxn_ls_handle_shutdown"
    | "meth = ''textDocument/definition''" "h = buxn_ls_handle_find_definition"
    | "meth = ''textDocument/references''" "h = buxn_ls_handle_find_references"
    | "meth = ''textDocument/hover''" "h = buxn_ls_handle_hover"
    | "meth = ''textDocument/documentSymbol''" "h = buxn_ls_handle_list_doc_symbols"
    | "meth = ''textDocument/completion''" "h = buxn_ls_handle_completion"
    | "meth = ''workspace/symbol''" "h = buxn_ls_handle_list_workspace_symbols"
    by (auto simp: BUXN_LS_REQUEST_HANDLERS_def split: if_splits)
  then show ?thesis
  proof cases
    case 6
    with completion_typed assms(2) show ?thesis by (fastforce simp: result_type_def)
  qed (use assms(2) in \<open>auto simp: result_type_def result_json_def ok_simps Let_def list_all_iff T_hover_def
      buxn_ls_handle_shutdown_def buxn_ls_handle_find_definition_def buxn_ls_handle_find_references_def
      buxn_ls_handle_hover_def buxn_ls_handle_list_doc_symbols_def buxn_ls_handle_list_workspace_symbols_def
      split: option.splits\<close>)
qed

section \<open>The property\<close>

text \<open>C8: What the server answers has the type that the protocol gives to it: the reply to a request for a
  method that the server knows carries a result of the method's type, with every kind among those that the
  protocol defines, and any other reply carries an error object.\<close>

theorem replies_well_typed:
  assumes "handle_request api msg ctx = Inr ctx'" and "in_method msg = Some meth"
  shows "\<exists>reply success v. bio_lsp_send_msg (la_yy api) reply (lc_out ctx) = Inr (success, lc_out ctx') \<and>
    out_value reply = Some v \<and>
    (case result_type meth of
       Some t \<Rightarrow> out_type reply = BIO_LSP_MSG_RESULT \<and> has_type t v
     | None \<Rightarrow> out_type reply = BIO_LSP_MSG_ERROR \<and> has_type T_error v)"
proof -
  from handle_request_reply [OF assms(1)] assms(2) obtain reply success ctx1 where
    r: "bio_lsp_send_msg (la_yy api) reply (lc_out ctx) = Inr (success, lc_out ctx')"
    and c: "case map_of BUXN_LS_REQUEST_HANDLERS meth of
       None \<Rightarrow> out_type reply = BIO_LSP_MSG_ERROR \<and> ctx1 = ctx \<and>
         out_value reply = Some (JObj [(''code'', JInt (- 32601)), (''message'', JStr ''Method not found'')])
     | Some h \<Rightarrow> out_type reply = BIO_LSP_MSG_RESULT \<and>
         (\<exists>v. h api (in_value msg) ctx = Inr (v, ctx1) \<and>
              out_value reply = Some (case v of None \<Rightarrow> JNull | Some j \<Rightarrow> j))" by auto
  show ?thesis
  proof (cases "map_of BUXN_LS_REQUEST_HANDLERS meth")
    case None
    then have "result_type meth = None"
      by (auto simp: result_type_def BUXN_LS_REQUEST_HANDLERS_def split: if_splits)
    with None c r show ?thesis by (auto simp: T_error_def)
  next
    case (Some h)
    with c obtain v where "h api (in_value msg) ctx = Inr (v, ctx1)"
      and o: "out_type reply = BIO_LSP_MSG_RESULT" "out_value reply = Some (result_json v)" by (auto simp: result_json_def)
    from handler_typed [OF Some this(1)] o r show ?thesis by auto
  qed
qed

text \<open>The answer to a request for the definition of the reference in the small run.\<close>

definition demo_goto :: bio_lsp_in_msg where
  "demo_goto = \<lparr>in_type = BIO_LSP_MSG_REQUEST, in_id = Some (JInt 1), in_method = Some ''textDocument/definition'',
     in_value = demo_position 0 4\<rparr>"

theorem replies_well_typed_witness:
  "\<exists>ctx' reply success v. handle_request demo_diag_api demo_goto demo_ctx = Inr ctx' \<and>
     bio_lsp_send_msg (la_yy demo_diag_api) reply (lc_out demo_ctx) = Inr (success, lc_out ctx') \<and>
     out_value reply = Some v \<and> has_type (T_or T_null T_location) v"
proof -
  have "libs_ok demo_diag_api"
    by (simp add: libs_ok_def writes_small_def demo_diag_api_def demo_error_asm_def demo_asm_def ref_utf8_ok)
  moreover have "docs_small (lc_workspace demo_ctx)" by (simp add: docs_small_def demo_ctx_def demo_ws_def bhash_get_def)
  moreover have "msg_ok demo_diag_api demo_ctx demo_goto"
    by (simp add: msg_ok_def demo_goto_def msg_uri_def roots_ok_def path_ok_def scheme_ok_def demo_diag_api_def demo_api_def
        demo_yy_def demo_position_def yy_get_cstr_def cstr_def NUL_def demo_url_def Let_def)
  moreover have m: "in_method demo_goto = Some ''textDocument/definition''" by (simp add: demo_goto_def)
  ultimately obtain ctx' where h: "handle_request demo_diag_api demo_goto demo_ctx = Inr ctx'"
    using handle_request_total [OF _ demo_ctx_inv] by blast
  from replies_well_typed [OF h m] h show ?thesis by (auto simp: result_type_def)
qed

end
