(* ===== verification/Ls_Replies.thy ===== *)
theory Ls_Replies
  imports Ls_Diagnostics "HOL-Library.Sublist"
begin

text \<open>
  The dialogue of a session: the messages it receives and those it sends. The replies come in the order
  of the requests, one for each, with their ids, and all else that is sent are notifications with
  diagnostics, whatever the timer interleaves. Writes may fail; a message counts as sent when the
  server has handed it to the channel.
\<close>

section \<open>What each part sends\<close>

definition is_reply :: "bio_lsp_out_msg \<Rightarrow> bool" where
  "is_reply msg \<longleftrightarrow> out_type msg \<in> {BIO_LSP_MSG_RESULT, BIO_LSP_MSG_ERROR}"

definition is_notice :: "bio_lsp_out_msg \<Rightarrow> bool" where
  "is_notice msg \<longleftrightarrow> out_type msg = BIO_LSP_MSG_NOTIFICATION \<and>
     out_method msg = Some ''textDocument/publishDiagnostics''"

lemma publish_msg_notice [simp]: "is_notice (publish_msg u items)"
  by (simp add: is_notice_def publish_msg_def)

lemma notice_no_reply: "is_notice msg \<Longrightarrow> \<not> is_reply msg"
  by (simp add: is_notice_def is_reply_def)

text \<open>Only notices are sent between two states.\<close>

definition notices :: "ls_api \<Rightarrow> buxn_ls_ctx \<Rightarrow> buxn_ls_ctx \<Rightarrow> bool" where
  "notices api ctx ctx' \<longleftrightarrow>
     (\<exists>ms. send_all (la_yy api) ms (lc_out ctx) = Inr (lc_out ctx') \<and> (\<forall>m \<in> set ms. is_notice m))"

lemma notices_same: "lc_out ctx' = lc_out ctx \<Longrightarrow> notices api ctx ctx'"
  unfolding notices_def by (rule exI [of _ "[]"]) (simp add: send_all_def)

lemma notices_trans [trans]: "notices api a b \<Longrightarrow> notices api b c \<Longrightarrow> notices api a c"
  unfolding notices_def by (metis Un_iff send_all_append set_append)

lemma notices_send:
  assumes "buxn_ls_end_msg api msg ctx = Inr (b, ctx')" and "is_notice msg"
  shows "notices api ctx ctx'"
  unfolding notices_def
  using end_msg_frame(1) [OF assms(1)] assms(2) by (intro exI [of _ "[msg]"]) (simp add: send_all_def)

lemma flush_notices:
  "flush_publish api ps = Inr (b, ps') \<Longrightarrow> notices api (ps_ctx ps) (ps_ctx ps')"
  by (auto simp: flush_publish_def notices_same elim!: obind_InrE intro: notices_send
      split: option.splits prod.splits)

lemma loop_notices: "publish_loop api ds ps = Inr ps' \<Longrightarrow> notices api (ps_ctx ps) (ps_ctx ps')"
proof (induction ds arbitrary: ps)
  case (Cons d ds)
  show ?case
  proof (cases "diag_uri d = ps_last_uri ps")
    case True
    then show ?thesis using Cons.IH [of "add_diag d ps"] Cons.prems by simp
  next
    case False
    then obtain u success ps2 where u: "diag_uri d = Some u"
      and f: "flush_publish api (ps\<lparr>ps_ctx := move_uri (la_layout api) u (ps_ctx ps)\<rparr>) = Inr (success, ps2)"
      and run: "(if \<not> success then Inr ps2 else publish_loop api ds
         (add_diag d (ps2\<lparr>ps_msg := Some (Some u, []), ps_last_uri := Some u\<rparr>))) = Inr ps'"
      using Cons.prems by (auto elim!: obind_InrE split: option.splits)
    have "notices api (ps_ctx ps) (move_uri (la_layout api) u (ps_ctx ps))"
      by (rule notices_same) (simp add: move_uri_def)
    also have "notices api (move_uri (la_layout api) u (ps_ctx ps)) (ps_ctx ps2)"
      using flush_notices [OF f] by simp
    also have "notices api (ps_ctx ps2) (ps_ctx ps')"
      using run Cons.IH [of "add_diag d (ps2\<lparr>ps_msg := Some (Some u, []), ps_last_uri := Some u\<rparr>)"]
      by (cases success) (auto simp: notices_same)
    finally show ?thesis .
  qed
qed (simp add: notices_same)

lemma unpublish_notices: "unpublish api u ctx = Inr ctx' \<Longrightarrow> notices api ctx ctx'"
  by (auto simp: unpublish_def elim!: obind_InrE intro: notices_send)

lemma analysis_notices:
  assumes "buxn_ls_analyze_workspace api ctx = Inr ctx'"
  shows "notices api ctx ctx'"
proof -
  from assms obtain a ps success ps1 ctx1 where
    l: "publish_loop api (an_diagnostics a) \<lparr>ps_ctx = ctx\<lparr>lc_analyzer := a\<rparr>, ps_last_uri = None, ps_msg = None\<rparr> = Inr ps"
    and f: "flush_publish api ps = Inr (success, ps1)"
    and u: "ofold (unpublish api) (bhash_keys (lc_previously_diagnosed (ps_ctx ps1))) (ps_ctx ps1) = Inr ctx1"
    and out: "lc_out ctx' = lc_out ctx1"
    by (auto simp: buxn_ls_analyze_workspace_def publish_diagnostics_def elim!: obind_InrE)
  have "notices api ctx (ctx\<lparr>lc_analyzer := a\<rparr>)" by (rule notices_same) simp
  also have "notices api (ctx\<lparr>lc_analyzer := a\<rparr>) (ps_ctx ps)" using loop_notices [OF l] by simp
  also have "notices api (ps_ctx ps) (ps_ctx ps1)" by (rule flush_notices [OF f])
  also have "notices api (ps_ctx ps1) ctx1"
    by (rule ofold_inv [OF u]) (auto intro: notices_same notices_trans unpublish_notices)
  also have "notices api ctx1 ctx'" using out by (rule notices_same)
  finally show ?thesis .
qed

text \<open>One reply is sent.\<close>

definition replied :: "ls_api \<Rightarrow> bio_lsp_in_msg \<Rightarrow> buxn_ls_ctx \<Rightarrow> buxn_ls_ctx \<Rightarrow> bool" where
  "replied api msg ctx ctx' \<longleftrightarrow>
     (\<exists>reply b. bio_lsp_send_msg (la_yy api) reply (lc_out ctx) = Inr (b, lc_out ctx') \<and>
        is_reply reply \<and> out_id reply = in_id msg)"

lemma initialize_replied:
  assumes "buxn_ls_initialize api msg ctx = Inr (b, ctx')"
  shows "replied api msg ctx ctx'"
proof -
  from assms obtain root where root: "find_root_dir api (in_value msg) = Inr root"
    by (auto simp: buxn_ls_initialize_def Let_def elim!: obind_InrE)
  have sent: "replied api msg ctx c"
    if "bio_lsp_send_msg (la_yy api) \<lparr>out_type = t, out_id = in_id msg, out_method = None, out_value = v\<rparr> (lc_out ctx) =
        Inr (s, ch)" "t \<in> {BIO_LSP_MSG_RESULT, BIO_LSP_MSG_ERROR}" "lc_out c = ch" for t v s ch c
    unfolding replied_def is_reply_def using that by (intro exI [of _ s]
        exI [of _ "\<lparr>out_type = t, out_id = in_id msg, out_method = None, out_value = v\<rparr>"]) simp
  show ?thesis
    using assms root
    by (cases root) (auto simp: buxn_ls_initialize_def buxn_ls_begin_msg_def buxn_ls_end_msg_def Let_def
        elim!: obind_InrE intro!: sent)
qed

lemma handle_msg_replied:
  assumes "buxn_ls_handle_msg api msg ctx = Inr ctx'"
  shows "if in_type msg = BIO_LSP_MSG_REQUEST then replied api msg ctx ctx' else lc_out ctx' = lc_out ctx"
proof (cases "in_type msg = BIO_LSP_MSG_REQUEST")
  case True
  with assms have "handle_request api msg ctx = Inr ctx'" by (simp add: buxn_ls_handle_msg_def)
  from handle_request_reply [OF this] show ?thesis
    using True unfolding replied_def is_reply_def by (auto split: option.splits)
next
  case False
  with assms show ?thesis
    by (auto simp: buxn_ls_handle_msg_def handle_notification_def ok_simps
        split: bio_lsp_msg_type.splits option.splits if_splits)
qed

section \<open>Dialogues\<close>

text \<open>The message that the next turn receives.\<close>

definition received :: "ls_api \<Rightarrow> server \<Rightarrow> bio_lsp_in_msg list" where
  "received api sv =
     (case buxn_ls_recv_msg api (sv_in sv) (sv_buf_size sv) (sv_msg sv) of
        Inr (bsz, Inr (msg, rest)) \<Rightarrow> [msg]
      | _ \<Rightarrow> [])"

text \<open>A session with the list of the messages it has received.\<close>

inductive dialogue :: "ls_api \<Rightarrow> server \<Rightarrow> bio_lsp_in_msg list \<Rightarrow> server \<Rightarrow> bool" for api sv where
  dialogue_start: "dialogue api sv [] sv"
| dialogue_message: "dialogue api sv ms sv1 \<Longrightarrow> message_turn api sv1 = Inr sv2 \<Longrightarrow>
     (\<forall>code. sv_phase sv1 \<noteq> Ended code) \<Longrightarrow> dialogue api sv (ms @ received api sv1) sv2"
| dialogue_timer: "dialogue api sv ms sv1 \<Longrightarrow> lc_timer_pending (sv_ctx sv1) \<Longrightarrow>
     timer_turn api sv1 = Inr sv2 \<Longrightarrow> dialogue api sv ms sv2"

text \<open>Dialogues are the runs of the step relation, with their messages.\<close>

lemma reach_dialogue: "ls_reach api sv sv' \<longleftrightarrow> (\<exists>ms. dialogue api sv ms sv')"
proof
  show "\<exists>ms. dialogue api sv ms sv'" if "ls_reach api sv sv'"
    using that
  proof (induction rule: reach_induct)
    case (more sv1 sv2)
    then obtain ms where "dialogue api sv ms sv1" by blast
    with more(2) show ?case
      by (elim ls_stepE) (blast intro: dialogue_message dialogue_timer)+
  qed (blast intro: dialogue_start)
  show "ls_reach api sv sv'" if "\<exists>ms. dialogue api sv ms sv'"
  proof -
    from that obtain ms where "dialogue api sv ms sv'" ..
    then show ?thesis
      by (induction rule: dialogue.induct) (blast intro: reach_refl reach_step step_message step_timer)+
  qed
qed

definition request_ids :: "bio_lsp_in_msg list \<Rightarrow> json option list" where
  "request_ids ms = map in_id (filter (\<lambda>m. in_type m = BIO_LSP_MSG_REQUEST) ms)"

definition reply_ids :: "bio_lsp_out_msg list \<Rightarrow> json option list" where
  "reply_ids ms = map out_id (filter is_reply ms)"

text \<open>What has been sent from the channel \<open>out\<close> on, and how it answers what was received: one request
  may be left, the last, and only where it ended the session with code 1.\<close>

definition answered :: "ls_api \<Rightarrow> out_channel \<Rightarrow> bio_lsp_in_msg list \<Rightarrow> server \<Rightarrow> bool" where
  "answered api out ms sv \<longleftrightarrow>
     (\<exists>sent. send_all (la_yy api) sent out = Inr (lc_out (sv_ctx sv)) \<and>
        (\<forall>m \<in> set sent. is_reply m \<or> is_notice m) \<and>
        (if sv_phase sv = Ended 1 then \<exists>rest. length rest \<le> 1 \<and> request_ids ms = reply_ids sent @ rest
         else request_ids ms = reply_ids sent))"

lemma cleanup_out [simp]: "lc_out (buxn_ls_cleanup ctx) = lc_out ctx"
  by (simp add: buxn_ls_cleanup_def)

text \<open>A turn replies to the request it receives, or sends nothing; a request stays without a reply only
  where the session ends with code 1.\<close>

definition turn_replies :: "ls_api \<Rightarrow> bio_lsp_in_msg list \<Rightarrow> server \<Rightarrow> server \<Rightarrow> bool" where
  "turn_replies api ms sv sv' \<longleftrightarrow>
     (\<exists>msg. ms = [msg] \<and> in_type msg = BIO_LSP_MSG_REQUEST \<and> replied api msg (sv_ctx sv) (sv_ctx sv')) \<or>
     lc_out (sv_ctx sv') = lc_out (sv_ctx sv) \<and> length ms \<le> 1 \<and> (request_ids ms = [] \<or> sv_phase sv' = Ended 1)"

lemma await_initialize_replies:
  assumes "await_initialize_turn api sv = Inr sv'"
  shows "turn_replies api [sv_msg sv] sv sv'"
proof (cases "in_type (sv_msg sv) = BIO_LSP_MSG_REQUEST \<and> in_method (sv_msg sv) = Some ''initialize''")
  case True
  with assms obtain b ctx where i: "buxn_ls_initialize api (sv_msg sv) (sv_ctx sv) = Inr (b, ctx)"
    and "lc_out (sv_ctx sv') = lc_out ctx"
    by (auto simp: await_initialize_turn_def Let_def obind_Inr_conv split: if_splits)
  with initialize_replied [OF i] True show ?thesis by (simp add: turn_replies_def replied_def)
next
  case False
  with assms show ?thesis
    by (auto simp: turn_replies_def await_initialize_turn_def request_ids_def Let_def
        split: bio_lsp_msg_type.splits if_splits)
qed

lemma turn_replies_turn:
  assumes "message_turn api sv = Inr sv'" and live: "\<forall>code. sv_phase sv \<noteq> Ended code"
  shows "turn_replies api (received api sv) sv sv'"
  using assms
proof (cases rule: message_turn_cases)
  case (no_message bsz e)
  then show ?thesis by (simp add: turn_replies_def received_def request_ids_def)
next
  case (message bsz msg rest sv2)
  have r: "received api sv = [msg]" "sv_msg sv2 = msg" "sv_ctx sv2 = sv_ctx sv"
    by (simp_all add: received_def message(1,2))
  consider "sv_phase sv = Await_initialize" | "sv_phase sv = Await_initialized" | "sv_phase sv = Serving"
    using live by (cases "sv_phase sv") auto
  then show ?thesis
  proof cases
    case 1
    from await_initialize_replies [OF message(3) [OF 1]] show ?thesis by (simp add: r turn_replies_def)
  next
    case 2
    show ?thesis unfolding message(4) [OF 2] r
      by (auto simp: turn_replies_def await_initialized_turn_def request_ids_def r Let_def split: bio_lsp_msg_type.split)
  next
    case 3
    from message(5) [OF 3] obtain ctx where h: "buxn_ls_handle_msg api msg (sv_ctx sv) = Inr ctx"
      and sv': "lc_out (sv_ctx sv') = lc_out ctx"
      by (auto simp: serving_turn_def r Let_def elim!: obind_InrE)
    from handle_msg_replied [OF h] show ?thesis
      by (auto simp: r turn_replies_def replied_def sv' request_ids_def split: if_splits)
  qed
qed

lemma answered_turn:
  assumes "answered api out ms sv" and "turn_replies api ns sv sv'" and "sv_phase sv \<noteq> Ended 1"
  shows "answered api out (ms @ ns) sv'"
proof -
  from assms(1,3) obtain sent where s: "send_all (la_yy api) sent out = Inr (lc_out (sv_ctx sv))"
    "\<forall>m \<in> set sent. is_reply m \<or> is_notice m" "request_ids ms = reply_ids sent"
    by (auto simp: answered_def)
  from assms(2) consider
      (reply) msg where "ns = [msg]" "in_type msg = BIO_LSP_MSG_REQUEST" "replied api msg (sv_ctx sv) (sv_ctx sv')"
    | (none) "lc_out (sv_ctx sv') = lc_out (sv_ctx sv)" "length ns \<le> 1" "request_ids ns = [] \<or> sv_phase sv' = Ended 1"
    unfolding turn_replies_def by blast
  then show ?thesis
  proof cases
    case m: (reply msg)
    then obtain reply b where r: "bio_lsp_send_msg (la_yy api) reply (lc_out (sv_ctx sv)) = Inr (b, lc_out (sv_ctx sv'))"
      "is_reply reply" "out_id reply = in_id msg" by (auto simp: replied_def)
    with m s send_all_snoc [OF s(1) r(1)] show ?thesis
      unfolding answered_def by (intro exI [of _ "sent @ [reply]"]) (auto simp: request_ids_def reply_ids_def)
  next
    case none
    moreover have "length (request_ids ns) \<le> length ns" by (simp add: request_ids_def)
    moreover have "request_ids (ms @ ns) = request_ids ms @ request_ids ns" by (simp add: request_ids_def)
    ultimately show ?thesis
      using s unfolding answered_def by (intro exI [of _ sent]) auto
  qed
qed

lemma timer_answered:
  assumes "answered api out ms sv" and "timer_turn api sv = Inr sv'"
  shows "answered api out ms sv'"
proof -
  from assms(2) obtain ctx where "buxn_ls_analyze_workspace api ((sv_ctx sv)\<lparr>lc_timer_pending := False\<rparr>) = Inr ctx"
    and sv': "sv' = sv\<lparr>sv_ctx := ctx\<rparr>"
    by (auto simp: timer_turn_def elim!: obind_InrE)
  from analysis_notices [OF this(1)] obtain ns where n: "send_all (la_yy api) ns (lc_out (sv_ctx sv)) = Inr (lc_out ctx)"
    "\<forall>m \<in> set ns. is_notice m" by (auto simp: notices_def)
  then have "reply_ids ns = []" using notice_no_reply by (auto simp: reply_ids_def filter_empty_conv)
  moreover from assms(1) obtain sent where s: "send_all (la_yy api) sent out = Inr (lc_out (sv_ctx sv))"
    "\<forall>m \<in> set sent. is_reply m \<or> is_notice m"
    "if sv_phase sv = Ended 1 then \<exists>rest. length rest \<le> 1 \<and> request_ids ms = reply_ids sent @ rest
     else request_ids ms = reply_ids sent"
    by (auto simp: answered_def)
  ultimately show ?thesis
    using send_all_append [OF s(1) n(1)] n(2) unfolding answered_def
    by (intro exI [of _ "sent @ ns"]) (auto simp: sv' reply_ids_def)
qed

lemma dialogue_answered:
  "dialogue api sv ms sv' \<Longrightarrow> answered api (lc_out (sv_ctx sv)) [] sv \<Longrightarrow>
     answered api (lc_out (sv_ctx sv)) ms sv'"
proof (induction rule: dialogue.induct)
  case (dialogue_message ms sv1 sv2)
  then show ?case
    using answered_turn turn_replies_turn [OF dialogue_message(2,3)] by blast
next
  case (dialogue_timer ms sv1 sv2)
  then show ?case using timer_answered by blast
qed simp

section \<open>The property\<close>

text \<open>C9: In every session the replies that are sent carry, in this order, the ids of the requests that were
  received, one reply for each request, and everything else that is sent is a notification with
  diagnostics. Only the request that ends a session with code 1 may stay without a reply.\<close>

theorem replies_in_order:
  assumes "dialogue api (server_start input out) ms sv"
  shows "\<exists>sent. send_all (la_yy api) sent out = Inr (lc_out (sv_ctx sv)) \<and>
    (\<forall>m \<in> set sent. is_reply m \<or> is_notice m) \<and>
    (sv_phase sv \<noteq> Ended 1 \<longrightarrow> reply_ids sent = request_ids ms) \<and>
    (sv_phase sv = Ended 1 \<longrightarrow> prefix (reply_ids sent) (request_ids ms) \<and>
       length (request_ids ms) \<le> Suc (length (reply_ids sent)))"
proof -
  have out: "lc_out (sv_ctx (server_start input out)) = out" by (simp add: server_start_def)
  have "answered api out [] (server_start input out)"
    unfolding answered_def
    by (rule exI [of _ "[]"]) (simp add: send_all_def server_start_def request_ids_def reply_ids_def)
  with dialogue_answered [OF assms] have "answered api out ms sv" by (simp add: out)
  then show ?thesis by (fastforce simp: answered_def split: if_splits)
qed

text \<open>The session of \<open>demo_server\<close>: one request, answered, and two notifications.\<close>

theorem replies_in_order_witness:
  "\<exists>ms sv sent. dialogue demo_api demo_server ms sv \<and> sv_phase sv = Ended 0 \<and>
     send_all demo_yy sent \<lparr>o_sent = [], o_script = []\<rparr> = Inr (lc_out (sv_ctx sv)) \<and>
     reply_ids sent = request_ids ms"
proof -
  from demo_session_runs obtain sv where sv: "ls_reach demo_api demo_server sv" "sv_phase sv = Ended 0" by blast
  then obtain ms where d: "dialogue demo_api demo_server ms sv" using reach_dialogue by blast
  from replies_in_order [OF d [unfolded demo_server_def]] sv(2) d show ?thesis
    by (auto simp: demo_api_sel)
qed

end
