(* ===== verification/Ls_Editor.thy ===== *)
theory Ls_Editor
  imports Ls_Replies
begin

text \<open>
  What the editor sees in the course of a session. The abstract state is the editor's view of the
  diagnostics, and every message that has been sent since the start counts: at every moment the view is
  what the last analysis found. For \<open>Ls_Edits\<close>: which messages are edits, and which cancel the timer.
\<close>

section \<open>What a turn leaves alone\<close>

definition is_edit :: "bio_lsp_in_msg \<Rightarrow> bool" where
  "is_edit msg \<longleftrightarrow> in_type msg = BIO_LSP_MSG_NOTIFICATION \<and> (\<exists>r. in_method msg = Some (''textDocument/'' @ r))"

text \<open>The requests that cancel the timer.\<close>

definition cancels :: "bio_lsp_in_msg \<Rightarrow> bool" where
  "cancels msg \<longleftrightarrow> in_type msg = BIO_LSP_MSG_REQUEST \<and>
     in_method msg \<in> {Some ''shutdown'', Some ''textDocument/completion''}"

lemma is_edit_iff:
  "in_type msg = BIO_LSP_MSG_NOTIFICATION \<Longrightarrow> in_method msg = Some meth \<Longrightarrow>
     is_edit msg \<longleftrightarrow> strncmp_eq meth ''textDocument/'' (length ''textDocument/'')"
  using strncmp_eq_prefix [of "''textDocument/''" meth] by (auto simp: is_edit_def strncmp_eq_def eq_commute)

lemma notification_effect:
  assumes "handle_notification api msg ctx = Inr ctx'" and "in_type msg = BIO_LSP_MSG_NOTIFICATION"
  shows "lc_analyzer ctx' = lc_analyzer ctx \<and> lc_out ctx' = lc_out ctx \<and>
    lc_previously_diagnosed ctx' = lc_previously_diagnosed ctx \<and>
    (if is_edit msg then lc_timer_pending ctx'
     else lc_workspace ctx' = lc_workspace ctx \<and> lc_timer_pending ctx' = lc_timer_pending ctx)"
proof -
  from assms(1) obtain meth where m: "in_method msg = Some meth"
    by (auto simp: handle_notification_def split: option.splits)
  show ?thesis
    using assms(1) m is_edit_iff [OF assms(2) m] by (auto simp: handle_notification_def strncmp_eq_def elim!: obind_InrE split: if_splits)
qed

lemma request_timer:
  assumes "handler_frame ctx ctx1" and "map_of BUXN_LS_REQUEST_HANDLERS meth = Some h" and "h api req ctx = Inr (v, ctx1)"
    and "meth \<notin> {''shutdown'', ''textDocument/completion''}"
  shows "ctx1 = ctx"
proof -
  from assms(2,4) have "h \<in> {buxn_ls_handle_find_definition, buxn_ls_handle_find_references, buxn_ls_handle_hover,
      buxn_ls_handle_list_doc_symbols, buxn_ls_handle_list_workspace_symbols}"
    by (auto simp: BUXN_LS_REQUEST_HANDLERS_def split: if_splits)
  then show ?thesis using assms(3) by (rule quiet_handlers)
qed

lemma request_effect:
  assumes "handle_request api msg ctx = Inr ctx'" and "in_type msg = BIO_LSP_MSG_REQUEST"
  shows "lc_analyzer ctx' = lc_analyzer ctx \<and> lc_workspace ctx' = lc_workspace ctx \<and>
    lc_previously_diagnosed ctx' = lc_previously_diagnosed ctx \<and>
    (cancels msg \<or> lc_timer_pending ctx' = lc_timer_pending ctx)"
proof -
  from handle_request_reply [OF assms(1)] obtain reply :: bio_lsp_out_msg and ctx1 meth where r: "in_method msg = Some meth"
    "handler_frame ctx ctx1" "ctx' = ctx1\<lparr>lc_out := lc_out ctx'\<rparr>"
    "case map_of BUXN_LS_REQUEST_HANDLERS meth of
       None \<Rightarrow> out_type reply = BIO_LSP_MSG_ERROR \<and> ctx1 = ctx \<and>
         out_value reply = Some (JObj [(''code'', JInt (- 32601)), (''message'', JStr ''Method not found'')])
     | Some h \<Rightarrow> out_type reply = BIO_LSP_MSG_RESULT \<and>
         (\<exists>v. h api (in_value msg) ctx = Inr (v, ctx1) \<and>
              out_value reply = Some (case v of None \<Rightarrow> JNull | Some j \<Rightarrow> j))" by blast
  have fields: "lc_analyzer ctx' = lc_analyzer ctx1" "lc_workspace ctx' = lc_workspace ctx1"
    "lc_previously_diagnosed ctx' = lc_previously_diagnosed ctx1" "lc_timer_pending ctx' = lc_timer_pending ctx1"
    by (subst r(3), simp)+
  have "ctx1 = ctx" if "\<not> cancels msg"
  proof (cases "map_of BUXN_LS_REQUEST_HANDLERS meth")
    case (Some h)
    with r(4) obtain v where "h api (in_value msg) ctx = Inr (v, ctx1)" by auto
    from request_timer [OF r(2) Some this] that r(1) assms(2) show ?thesis by (auto simp: cancels_def)
  qed (use r(4) in simp)
  with fields r(2) show ?thesis by (auto simp: handler_frame_def)
qed

lemma handle_msg_effect:
  assumes "buxn_ls_handle_msg api msg ctx = Inr ctx'"
  shows "lc_analyzer ctx' = lc_analyzer ctx" "lc_previously_diagnosed ctx' = lc_previously_diagnosed ctx"
    "is_edit msg \<Longrightarrow> lc_timer_pending ctx'"
    "\<not> is_edit msg \<Longrightarrow> lc_workspace ctx' = lc_workspace ctx"
    "\<not> is_edit msg \<Longrightarrow> \<not> cancels msg \<Longrightarrow> lc_timer_pending ctx' = lc_timer_pending ctx"
proof -
  have "lc_analyzer ctx' = lc_analyzer ctx \<and> lc_previously_diagnosed ctx' = lc_previously_diagnosed ctx \<and>
    (is_edit msg \<longrightarrow> lc_timer_pending ctx') \<and> (\<not> is_edit msg \<longrightarrow> lc_workspace ctx' = lc_workspace ctx) \<and>
    (\<not> is_edit msg \<longrightarrow> \<not> cancels msg \<longrightarrow> lc_timer_pending ctx' = lc_timer_pending ctx)"
  proof (cases "in_type msg")
    case BIO_LSP_MSG_REQUEST
    with assms have "handle_request api msg ctx = Inr ctx'" by (simp add: buxn_ls_handle_msg_def)
    from request_effect [OF this BIO_LSP_MSG_REQUEST] BIO_LSP_MSG_REQUEST show ?thesis by (auto simp: is_edit_def)
  next
    case BIO_LSP_MSG_NOTIFICATION
    with assms have "handle_notification api msg ctx = Inr ctx'" by (simp add: buxn_ls_handle_msg_def)
    from notification_effect [OF this BIO_LSP_MSG_NOTIFICATION] show ?thesis by (auto split: if_splits)
  qed (use assms in \<open>auto simp: buxn_ls_handle_msg_def is_edit_def\<close>)
  then show "lc_analyzer ctx' = lc_analyzer ctx" "lc_previously_diagnosed ctx' = lc_previously_diagnosed ctx"
    "is_edit msg \<Longrightarrow> lc_timer_pending ctx'"
    "\<not> is_edit msg \<Longrightarrow> lc_workspace ctx' = lc_workspace ctx"
    "\<not> is_edit msg \<Longrightarrow> \<not> cancels msg \<Longrightarrow> lc_timer_pending ctx' = lc_timer_pending ctx" by blast+
qed

text \<open>A turn in which the server goes on serving handles one message.\<close>

lemma serving_turn_message:
  assumes "message_turn api sv = Inr sv'" and "sv_phase sv = Serving" and "sv_phase sv' = Serving"
  obtains msg where "received api sv = [msg]" "buxn_ls_handle_msg api msg (sv_ctx sv) = Inr (sv_ctx sv')"
proof -
  have "\<forall>code. sv_phase sv \<noteq> Ended code" using assms(2) by simp
  from assms(1) this show thesis
  proof (cases rule: message_turn_cases)
    case (no_message bsz e)
    with assms(2,3) show thesis by simp
  next
    case (message bsz msg rest sv2)
    from message(5) [OF assms(2)] obtain ctx where "buxn_ls_handle_msg api msg (sv_ctx sv) = Inr ctx"
      "sv' = (if lc_should_terminate ctx then end_session True 0 (sv2\<lparr>sv_ctx := ctx\<rparr>) else sv2\<lparr>sv_ctx := ctx\<rparr>)"
      by (auto simp: serving_turn_def message(2) Let_def elim!: obind_InrE)
    moreover have "received api sv = [msg]" by (simp add: received_def message(1))
    ultimately show thesis using assms(3) by (intro that [of msg]) (auto split: if_splits)
  qed
qed

lemma serving_backwards:
  "message_turn api sv = Inr sv' \<Longrightarrow> sv_phase sv = Ended code \<Longrightarrow> sv_phase sv' = Ended code"
  by (simp add: message_turn_def)

section \<open>The editor's view in a session\<close>

text \<open>The server is open in the phases in which it receives messages.\<close>

abbreviation ended :: "server \<Rightarrow> bool" where
  "ended sv \<equiv> \<exists>code. sv_phase sv = Ended code"

definition starting :: "server \<Rightarrow> bool" where
  "starting sv \<longleftrightarrow> sv_phase sv \<in> {Await_initialize, Await_initialized}"

lemma starting_simps [simp]:
  "sv_phase sv = Await_initialize \<Longrightarrow> starting sv" "sv_phase sv = Await_initialized \<Longrightarrow> starting sv"
  "sv_phase sv = Serving \<Longrightarrow> \<not> starting sv" "sv_phase sv = Ended code \<Longrightarrow> \<not> starting sv"
  by (simp_all add: starting_def)

text \<open>All that has been sent leaves the editor with the view \<open>v\<close>, and the files that it shows anything for
  are those diagnosed before. Before the server serves, nothing has been found.\<close>

definition view_kept :: "ls_api \<Rightarrow> out_channel \<Rightarrow> (string \<Rightarrow> json list) \<Rightarrow> server \<Rightarrow> bool" where
  "view_kept api out v sv \<longleftrightarrow>
     o_script (lc_out (sv_ctx sv)) = [] \<and>
     (\<exists>sent. send_all (la_yy api) sent out = Inr (lc_out (sv_ctx sv)) \<and> client_view sent (\<lambda>u. []) = v) \<and>
     (\<not> ended sv \<longrightarrow> (\<forall>u. v u \<noteq> [] \<longrightarrow> u \<in> set (bhash_keys (lc_previously_diagnosed (sv_ctx sv))))) \<and>
     (starting sv \<longrightarrow> v = (\<lambda>u. []) \<and> an_diagnostics (lc_analyzer (sv_ctx sv)) = [])"

lemma reply_no_notice: "is_reply msg \<Longrightarrow> notice msg = None"
  by (auto simp: is_reply_def notice_def split: option.split json.split)

lemma diags_of_Nil [simp]: "diags_of [] = (\<lambda>u. [])"
  by (simp add: diags_of_def fun_eq_iff)

text \<open>Sending nothing, or a reply, does not change the view.\<close>

lemma view_kept_quiet:
  assumes "view_kept api out v sv" and "lc_out (sv_ctx sv') = lc_out (sv_ctx sv) \<or> replied api msg (sv_ctx sv) (sv_ctx sv')"
    and "\<not> ended sv' \<Longrightarrow> lc_previously_diagnosed (sv_ctx sv') = lc_previously_diagnosed (sv_ctx sv) \<or> v = (\<lambda>u. [])"
    and "starting sv' \<Longrightarrow> starting sv \<and> an_diagnostics (lc_analyzer (sv_ctx sv')) = []" and "\<not> ended sv"
  shows "view_kept api out v sv'"
proof -
  from assms(1,5) obtain sent where s: "o_script (lc_out (sv_ctx sv)) = []"
    "send_all (la_yy api) sent out = Inr (lc_out (sv_ctx sv))" "client_view sent (\<lambda>u. []) = v"
    "\<forall>u. v u \<noteq> [] \<longrightarrow> u \<in> set (bhash_keys (lc_previously_diagnosed (sv_ctx sv)))"
    "starting sv \<longrightarrow> v = (\<lambda>u. [])"
    by (auto simp: view_kept_def)
  from assms(2) obtain ms where m: "o_script (lc_out (sv_ctx sv')) = []"
    "send_all (la_yy api) (sent @ ms) out = Inr (lc_out (sv_ctx sv'))"
    "client_view (sent @ ms) (\<lambda>u. []) = client_view sent (\<lambda>u. [])"
  proof
    assume "lc_out (sv_ctx sv') = lc_out (sv_ctx sv)"
    with s that [of "[]"] show ?thesis by simp
  next
    assume "replied api msg (sv_ctx sv) (sv_ctx sv')"
    then obtain reply b where r: "bio_lsp_send_msg (la_yy api) reply (lc_out (sv_ctx sv)) = Inr (b, lc_out (sv_ctx sv'))"
      "is_reply reply" by (auto simp: replied_def)
    from send_success [OF s(1) r(1)] send_all_snoc [OF s(2) r(1)] that [of "[reply]"] show ?thesis
      by (simp add: client_view_append reply_no_notice [OF r(2)])
  qed
  have "\<exists>sent. send_all (la_yy api) sent out = Inr (lc_out (sv_ctx sv')) \<and> client_view sent (\<lambda>u. []) = v"
    using m(2,3) s(3) by blast
  moreover have "\<not> ended sv' \<longrightarrow> (\<forall>u. v u \<noteq> [] \<longrightarrow> u \<in> set (bhash_keys (lc_previously_diagnosed (sv_ctx sv'))))"
    using s(4) assms(3) by auto
  ultimately show ?thesis using m(1) s(5) assms(4) unfolding view_kept_def by blast
qed

lemma initialize_effect:
  "buxn_ls_initialize api msg ctx = Inr (b, ctx') \<Longrightarrow> an_diagnostics (lc_analyzer ctx') = []"
  by (auto simp: buxn_ls_initialize_def buxn_ls_end_msg_def buxn_ls_analyzer_init_def Let_def
      elim!: obind_InrE split: option.splits)

text \<open>A message changes neither the view nor what the analysis has found.\<close>

lemma view_kept_turn:
  assumes "message_turn api sv = Inr sv'" and live: "\<forall>code. sv_phase sv \<noteq> Ended code" and "view_kept api out v sv"
  shows "view_kept api out v sv'" "starting sv' \<Longrightarrow> starting sv"
    "\<not> ended sv' \<Longrightarrow> an_diagnostics (lc_analyzer (sv_ctx sv')) = an_diagnostics (lc_analyzer (sv_ctx sv))"
proof -
  have open_sv: "\<not> ended sv" using live by blast
  have none: "v = (\<lambda>u. [])" "an_diagnostics (lc_analyzer (sv_ctx sv)) = []" if "starting sv"
    using assms(3) that by (auto simp: view_kept_def)
  note quiet = view_kept_quiet [OF assms(3) _ _ _ open_sv]
  have "view_kept api out v sv' \<and> (starting sv' \<longrightarrow> starting sv) \<and>
    (\<not> ended sv' \<longrightarrow> an_diagnostics (lc_analyzer (sv_ctx sv')) = an_diagnostics (lc_analyzer (sv_ctx sv)))"
    using assms(1,2)
  proof (cases rule: message_turn_cases)
    case (no_message bsz e)
    then show ?thesis by (intro conjI quiet) auto
  next
    case (message bsz msg rest sv2)
    have sv2: "sv_ctx sv2 = sv_ctx sv" "sv_phase sv2 = sv_phase sv" "sv_msg sv2 = msg" by (simp_all add: message(2))
    consider "sv_phase sv = Await_initialize" | "sv_phase sv = Await_initialized" | "sv_phase sv = Serving"
      using live by (cases "sv_phase sv") auto
    then show ?thesis
    proof cases
      case 1
      from message(3) [OF 1] show ?thesis
      proof (cases rule: await_initialize_cases)
        case (started ctx)
        note i = initialize_replied [OF started(2)] initialize_effect [OF started(2)]
        with started none 1 sv2 show ?thesis
          by (intro conjI quiet [of sv' "sv_msg sv2"]) simp_all
      next
        case (failed ctx)
        note i = initialize_replied [OF failed(2)]
        with failed sv2 show ?thesis by (intro conjI quiet [of sv' "sv_msg sv2"]) simp_all
      qed (use none(2) 1 sv2 in \<open>auto intro!: quiet\<close>)
    next
      case 2
      show ?thesis unfolding message(4) [OF 2]
        by (cases rule: await_initialized_cases [of sv2]) (use none(2) sv2 2 in \<open>auto intro!: quiet\<close>)
    next
      case 3
      from message(5) [OF 3] obtain ctx where h: "buxn_ls_handle_msg api msg (sv_ctx sv) = Inr ctx"
        and sv': "sv' = (if lc_should_terminate ctx then end_session True 0 (sv2\<lparr>sv_ctx := ctx\<rparr>)
          else sv2\<lparr>sv_ctx := ctx\<rparr>)"
        by (auto simp: serving_turn_def sv2 Let_def elim!: obind_InrE)
      have out: "lc_out (sv_ctx sv') = lc_out ctx" by (simp add: sv')
      have "view_kept api out v sv'"
        by (rule quiet [of sv' msg])
          (use handle_msg_replied [OF h] handle_msg_effect(1,2) [OF h] out sv' sv2 3 in
            \<open>auto simp: replied_def split: if_splits\<close>)
      with sv' sv2 3 handle_msg_effect(1) [OF h] show ?thesis by auto
    qed
  qed
  then show "view_kept api out v sv'" "starting sv' \<Longrightarrow> starting sv"
    "\<not> ended sv' \<Longrightarrow> an_diagnostics (lc_analyzer (sv_ctx sv')) = an_diagnostics (lc_analyzer (sv_ctx sv))" by blast+
qed

text \<open>Publishing makes the view what the analysis has found.\<close>

lemma view_kept_publish:
  assumes "view_kept api out v sv" and "sv_phase sv = Serving" and "ls_inv ctx" and "lc_out ctx = lc_out (sv_ctx sv)"
    and "lc_previously_diagnosed ctx = lc_previously_diagnosed (sv_ctx sv)"
    and "sorted (map diag_uri (an_diagnostics (lc_analyzer ctx)))" and "publish_diagnostics api ctx = Inr ctx'"
  shows "view_kept api out (diags_of (an_diagnostics (lc_analyzer ctx'))) (sv\<lparr>sv_ctx := ctx'\<rparr>)"
proof -
  from assms(1,2,4,5) obtain sent where s: "o_script (lc_out ctx) = []" "send_all (la_yy api) sent out = Inr (lc_out ctx)"
    "\<forall>u. client_view sent (\<lambda>u. []) u \<noteq> [] \<longrightarrow> u \<in> set (bhash_keys (lc_previously_diagnosed ctx))"
    by (auto simp: view_kept_def)
  from publish_mirrored [OF assms(3) s(1,3) assms(6,7)] obtain msgs where
    m: "send_all (la_yy api) msgs (lc_out ctx) = Inr (lc_out ctx')"
    "client_view msgs (client_view sent (\<lambda>u. [])) = diags_of (an_diagnostics (lc_analyzer ctx'))"
    "\<forall>u. client_view msgs (client_view sent (\<lambda>u. [])) u \<noteq> [] \<longrightarrow> u \<in> set (bhash_keys (lc_previously_diagnosed ctx'))"
    by blast
  have "o_script (lc_out ctx') = []" by (rule send_all_script [OF m(1) s(1)])
  with send_all_append [OF s(2) m(1)] m(2,3) assms(2) show ?thesis
    unfolding view_kept_def by (intro conjI exI [of _ "sent @ msgs"]) (simp_all add: client_view_append)
qed

section \<open>Edits and what cancels them\<close>

text \<open>There was an edit, and no request has cancelled the analysis of the last one.\<close>

definition edited :: "bio_lsp_in_msg list \<Rightarrow> bool" where
  "edited ms \<longleftrightarrow> (\<exists>us e vs. ms = us @ e # vs \<and> is_edit e \<and> (\<forall>m \<in> set vs. \<not> cancels m))"

lemma edited_snoc: "edited (ms @ [m]) \<longleftrightarrow> is_edit m \<or> edited ms \<and> \<not> cancels m"
proof
  assume "edited (ms @ [m])"
  then obtain us e vs where e: "ms @ [m] = us @ e # vs" "is_edit e" "\<forall>m \<in> set vs. \<not> cancels m"
    unfolding edited_def by blast
  then show "is_edit m \<or> edited ms \<and> \<not> cancels m"
    by (cases vs rule: rev_cases) (auto simp: edited_def)
next
  assume "is_edit m \<or> edited ms \<and> \<not> cancels m"
  then show "edited (ms @ [m])"
  proof
    assume "is_edit m"
    then show ?thesis unfolding edited_def by (intro exI [of _ ms] exI [of _ m] exI [of _ "[]"]) simp
  next
    assume "edited ms \<and> \<not> cancels m"
    then obtain us e vs where "ms = us @ e # vs" "is_edit e" "\<forall>m \<in> set vs. \<not> cancels m" "\<not> cancels m"
      unfolding edited_def by blast
    then show ?thesis unfolding edited_def by (intro exI [of _ us] exI [of _ e] exI [of _ "vs @ [m]"]) auto
  qed
qed

section \<open>A session with an edit\<close>

lemmas ls_reach_step = reach_step [of "ls_step api" for api]

text \<open>The editor initialises the server and opens a document, in which the assembler finds an error; then
  the timer fires.\<close>

definition edit_yy :: json_api where
  "edit_yy = (ref_json
     [(JObj [(''id'', JInt 1), (''method'', JStr ''initialize''),
             (''params'', JObj [(''rootPath'', JStr ''/r'')])], ''{i}''),
      (JObj [(''method'', JStr ''initialized'')], ''{n}''),
      (JObj [(''method'', JStr ''textDocument/didOpen''), (''params'', JObj [(''textDocument'',
         JObj [(''uri'', JStr ''file:///r/a.tal''), (''text'', JStr ''@a ;a'')])])], ''{o}'')])
     \<lparr>yy_write := (\<lambda>j. Some ''{}'')\<rparr>"

definition edit_api :: ls_api where
  "edit_api = demo_api\<lparr>la_yy := edit_yy, la_asm := demo_error_asm\<rparr>"

definition edit_server :: "string \<Rightarrow> server" where
  "edit_server tail = server_start (demo_frame ''{i}'' @ demo_frame ''{n}'' @ demo_frame ''{o}'' @ tail) \<lparr>o_sent = [], o_script = []\<rparr>"

definition edit_open :: bio_lsp_in_msg where
  "edit_open = \<lparr>in_type = BIO_LSP_MSG_NOTIFICATION, in_id = None, in_method = Some ''textDocument/didOpen'',
     in_value = Some (JObj [(''textDocument'', JObj [(''uri'', JStr ''file:///r/a.tal''), (''text'', JStr ''@a ;a'')])])\<rparr>"

lemma edit_api_sel: "la_yy edit_api = edit_yy" "la_asm edit_api = demo_error_asm" "la_yuarel edit_api = demo_url"
  "la_initialize_json edit_api = Some (JObj [])" "la_json_memory edit_api n = 12 * n + 256"
  by (simp_all add: edit_api_def demo_api_def)

lemma edit_writes: "writes_small edit_api"
  by (simp add: writes_small_def edit_api_sel edit_yy_def)

lemma edit_recv:
  "length body = 3 \<Longrightarrow> buxn_ls_recv_msg edit_api (demo_frame body @ r) bsz msg =
    Inr (max 295 bsz, case bio_lsp_parse_msg edit_yy body msg of Inl e \<Rightarrow> Inl e | Inr msg' \<Rightarrow> Inr (msg', r))"
  using recv_frame [of 3 body edit_api r bsz msg] by (simp add: demo_frame_def edit_api_sel)

lemma edit_parse:
  "bio_lsp_parse_msg edit_yy ''{i}'' msg = Inr \<lparr>in_type = BIO_LSP_MSG_REQUEST, in_id = Some (JInt 1),
     in_method = Some ''initialize'', in_value = Some (JObj [(''rootPath'', JStr ''/r'')])\<rparr>"
  "bio_lsp_parse_msg edit_yy ''{n}'' msg = Inr \<lparr>in_type = BIO_LSP_MSG_NOTIFICATION, in_id = None,
     in_method = Some ''initialized'', in_value = None\<rparr>"
  "bio_lsp_parse_msg edit_yy ''{o}'' msg = Inr edit_open"
  by (simp_all add: bio_lsp_parse_msg_def edit_yy_def edit_open_def yy_get_cstr_def cstr_def NUL_def Let_def)

lemma edit_initialize:
  "\<exists>ctx'. buxn_ls_initialize edit_api \<lparr>in_type = BIO_LSP_MSG_REQUEST, in_id = Some (JInt 1),
     in_method = Some ''initialize'', in_value = Some (JObj [(''rootPath'', JStr ''/r'')])\<rparr> ctx = Inr (True, ctx') \<and>
     lc_workspace ctx' = buxn_ls_workspace_init ''/r'' \<and> lc_analyzer ctx' = buxn_ls_analyzer_init \<and>
     lc_should_terminate ctx' = lc_should_terminate ctx"
proof -
  have root: "find_root_dir edit_api (Some (JObj [(''rootPath'', JStr ''/r'')])) = Inr (Some ''/r'')"
    by (simp add: find_root_dir_def file_url_path_def edit_api_sel edit_yy_def yy_get_cstr_def cstr_def
        NUL_def Let_def)
  let ?reply = "\<lparr>out_type = BIO_LSP_MSG_RESULT, out_id = Some (JInt 1), out_method = None, out_value = Some (JObj [])\<rparr>"
  define ctx2 where "ctx2 = ctx\<lparr>lc_name_buf := coro_name 0, lc_analyzer := buxn_ls_analyzer_init,
    lc_completion_map := [], lc_currently_diagnosed := [], lc_previously_diagnosed := [],
    lc_workspace := buxn_ls_workspace_init ''/r''\<rparr>"
  obtain b ctx' where e: "buxn_ls_end_msg edit_api ?reply ctx2 = Inr (b, ctx')" using end_msg_total [OF edit_writes] by blast
  then have "ctx' = ctx2\<lparr>lc_out := lc_out ctx'\<rparr>" by (rule end_msg_frame(2))
  then have "lc_workspace ctx' = lc_workspace ctx2" "lc_analyzer ctx' = lc_analyzer ctx2"
    "lc_should_terminate ctx' = lc_should_terminate ctx2" by (metis buxn_ls_ctx.select_convs buxn_ls_ctx.surjective buxn_ls_ctx.update_convs(1))+
  with e show ?thesis
    by (simp add: buxn_ls_initialize_def root buxn_ls_begin_msg_def edit_api_sel edit_yy_def ctx2_def Let_def)
qed

lemma edit_open_update: "buxn_ls_workspace_update edit_yy demo_url append_layout (buxn_ls_workspace_init ''/r'') edit_open = Inr demo_ws"
  by (simp add: buxn_ls_workspace_update_def edit_open_def edit_yy_def yy_get_cstr_def cstr_def NUL_def demo_url_def
      buxn_ls_workspace_resolve_path_def buxn_ls_workspace_init_def strncmp_eq_def doc_text_def demo_ws_def
      bhash_put_append_layout bhash_has_def bhash_get_def Let_def)

text \<open>The document has been opened, and more is to come.\<close>

lemma edit_opened:
  "\<exists>sv0 sv. ls_reach edit_api (edit_server tail) sv0 \<and> sv_phase sv0 = Serving \<and>
     message_turn edit_api sv0 = Inr sv \<and> received edit_api sv0 = [edit_open] \<and>
     sv_phase sv = Serving \<and> sv_in sv = tail \<and> lc_timer_pending (sv_ctx sv) \<and> lc_workspace (sv_ctx sv) = demo_ws \<and>
     lc_analyzer (sv_ctx sv) = buxn_ls_analyzer_init"
proof -
  have start: "sv_phase (edit_server tail) = Await_initialize"
    "sv_in (edit_server tail) = demo_frame ''{i}'' @ demo_frame ''{n}'' @ demo_frame ''{o}'' @ tail"
    "\<not> lc_should_terminate (sv_ctx (edit_server tail))"
    by (simp_all add: edit_server_def server_start_def)
  obtain sv1 where s1: "message_turn edit_api (edit_server tail) = Inr sv1"
    "sv_phase sv1 = Await_initialized" "sv_in sv1 = demo_frame ''{n}'' @ demo_frame ''{o}'' @ tail"
    "lc_workspace (sv_ctx sv1) = buxn_ls_workspace_init ''/r''" "lc_analyzer (sv_ctx sv1) = buxn_ls_analyzer_init"
    "\<not> lc_should_terminate (sv_ctx sv1)"
    using edit_initialize [of "sv_ctx (edit_server tail)"] start(3)
    by (auto simp: message_turn_def start edit_recv edit_parse await_initialize_turn_def Let_def)
  obtain sv2 where s2: "message_turn edit_api sv1 = Inr sv2"
    "sv_phase sv2 = Serving" "sv_in sv2 = demo_frame ''{o}'' @ tail" "sv_ctx sv2 = sv_ctx sv1"
    by (simp add: message_turn_def s1 edit_recv edit_parse await_initialized_turn_def Let_def)
  have "buxn_ls_handle_msg edit_api edit_open (sv_ctx sv1) = Inr ((sv_ctx sv1)\<lparr>lc_workspace := demo_ws, lc_timer_pending := True\<rparr>)"
    by (simp add: buxn_ls_handle_msg_def handle_notification_def edit_open_def edit_api_sel s1 strncmp_eq_def
        edit_open_update [unfolded edit_open_def] demo_error_asm_def demo_asm_def)
  then obtain sv3 where s3: "message_turn edit_api sv2 = Inr sv3" "sv_phase sv3 = Serving" "sv_in sv3 = tail"
    "sv_ctx sv3 = (sv_ctx sv1)\<lparr>lc_workspace := demo_ws, lc_timer_pending := True\<rparr>"
    using edit_recv [of "''{o}''" tail]
    by (simp add: message_turn_def s2 edit_parse serving_turn_def s1(6) Let_def)
  have r: "received edit_api sv2 = [edit_open]" using edit_recv [of "''{o}''" tail] by (simp add: received_def s2(3) edit_parse)
  have reach: "ls_reach edit_api (edit_server tail) sv2"
    by (rule ls_reach_step [OF ls_reach_step [OF reach_refl step_message [OF s1(1)]] step_message [OF s2(1)]]) (simp_all add: s1 s2 start)
  show ?thesis using reach s2(2) r s3 s1(5) by (intro exI [of _ sv2] exI [of _ sv3]) simp
qed

lemma edit_session:
  "\<exists>sv0 sv. ls_reach edit_api (edit_server tail) sv0 \<and> sv_phase sv0 = Serving \<and> dialogue edit_api sv0 [edit_open] sv \<and>
     sv_phase sv = Serving \<and> \<not> lc_timer_pending (sv_ctx sv) \<and> lc_workspace (sv_ctx sv) = demo_ws \<and>
     map diag_uri (an_diagnostics (lc_analyzer (sv_ctx sv))) = [Some ''file:///r/a.tal'']"
proof -
  from edit_opened [of tail] obtain sv2 sv3 where reach: "ls_reach edit_api (edit_server tail) sv2" "sv_phase sv2 = Serving"
    and s3: "message_turn edit_api sv2 = Inr sv3" "received edit_api sv2 = [edit_open]" "sv_phase sv3 = Serving"
      "lc_timer_pending (sv_ctx sv3)" "lc_workspace (sv_ctx sv3) = demo_ws" "lc_analyzer (sv_ctx sv3) = buxn_ls_analyzer_init"
    by (elim exE conjE)
  have d: "dialogue edit_api sv2 ([] @ received edit_api sv2) sv3"
    by (rule dialogue_message [OF dialogue_start s3(1)]) (simp add: reach)
  let ?ctx = "(sv_ctx sv3)\<lparr>lc_timer_pending := False\<rparr>"
  from demo_diag_analysis obtain a where a: "buxn_ls_analyze demo_error_asm demo_ws buxn_ls_analyzer_init = Inr a"
    "map diag_uri (an_diagnostics a) = [Some ''file:///r/a.tal'']" by (elim exE conjE)
  then obtain e where e: "an_diagnostics a = [e]" "diag_uri e = Some ''file:///r/a.tal''" by (cases "an_diagnostics a") auto
  obtain ctx where p: "publish_diagnostics edit_api (?ctx\<lparr>lc_analyzer := a\<rparr>) = Inr ctx"
    using publish_diagnostics_total [OF edit_writes, of "?ctx\<lparr>lc_analyzer := a\<rparr>"] e by auto
  then have t: "timer_turn edit_api sv3 = Inr (sv3\<lparr>sv_ctx := ctx\<rparr>)"
    by (simp add: timer_turn_def buxn_ls_analyze_workspace_def edit_api_sel s3 a(1))
  have "session_inv sv3"
    using ls.reach_inv [OF ls_reach_step [OF reach(1) step_message [OF s3(1)]], unfolded edit_server_def] start_session_inv reach(2) by simp
  then have "lc_currently_diagnosed (sv_ctx sv3) = []" by (simp add: session_inv_def server_inv_def ls_inv_def)
  note f = publish_diagnostics_frame [OF p, simplified, unfolded this, simplified]
  show ?thesis
    using reach dialogue_timer [OF d _ t] s3 f a(2)
    by (intro exI [of _ sv2] exI [of _ "sv3\<lparr>sv_ctx := ctx\<rparr>"]) simp
qed

end
