(* ===== verification/Ls_Async.thy ===== *)
theory Ls_Async
  imports Ls_Total Ls_Editor Analyze_Steps
begin

text \<open>
  A session in which the analysis is suspended: the timer's callback is a coroutine that waits for the
  files it reads, and meanwhile the server receives messages, which change the documents and arm the
  timer again. \<open>Ls_Main\<close> has the callback in one piece; here it is taken apart into the turns of
  \<open>Analyze_Steps\<close>.

  The publication of the diagnostics is the last turn of the callback and is not taken apart. A callback
  that is suspended when the session ends is not resumed: what it works on has been freed.
\<close>

section \<open>Sessions with suspended analyses\<close>

record session =
  se_server :: server
  se_running :: "analysis list"

definition set_ctx :: "buxn_ls_ctx \<Rightarrow> session \<Rightarrow> session" where
  "set_ctx ctx s = s\<lparr>se_server := (se_server s)\<lparr>sv_ctx := ctx\<rparr>\<rparr>"

text \<open>The callback is entered, and runs until it starts on the first file.\<close>

definition timer_begin :: "ls_api \<Rightarrow> session \<Rightarrow> session outcome" where
  "timer_begin api s =
     (let ctx = (sv_ctx (se_server s))\<lparr>lc_timer_pending := False\<rparr>
      in obind (begin_analysis (la_asm api) (lc_workspace ctx) (lc_analyzer ctx)) (\<lambda>(co, a).
         Inr (set_ctx (ctx\<lparr>lc_analyzer := a\<rparr>) s\<lparr>se_running := se_running s @ [co]\<rparr>)))"

text \<open>A suspended callback runs for one turn, with the documents as they are now.\<close>

definition analysis_resume :: "ls_api \<Rightarrow> nat \<Rightarrow> session \<Rightarrow> session outcome" where
  "analysis_resume api i s =
     (let ctx = sv_ctx (se_server s)
      in obind (analysis_turn (la_asm api) (lc_workspace ctx) (se_running s ! i) (lc_analyzer ctx)) (\<lambda>(r, a).
         let ctx1 = ctx\<lparr>lc_analyzer := a\<rparr>
         in case r of
              Some co \<Rightarrow> Inr (set_ctx ctx1 s\<lparr>se_running := (se_running s)[i := co]\<rparr>)
            | None \<Rightarrow>
                obind (publish_diagnostics api ctx1) (\<lambda>ctx2.
                Inr (set_ctx ctx2 s\<lparr>se_running := take i (se_running s) @ drop (Suc i) (se_running s)\<rparr>))))"

inductive session_step :: "ls_api \<Rightarrow> session \<Rightarrow> session \<Rightarrow> bool" for api where
  message: "message_turn api (se_server s) = Inr sv \<Longrightarrow> (\<forall>code. sv_phase (se_server s) \<noteq> Ended code) \<Longrightarrow>
     session_step api s (s\<lparr>se_server := sv\<rparr>)"
| timer: "lc_timer_pending (sv_ctx (se_server s)) \<Longrightarrow> timer_begin api s = Inr s' \<Longrightarrow> session_step api s s'"
| resume: "sv_phase (se_server s) = Serving \<Longrightarrow> i < length (se_running s) \<Longrightarrow> analysis_resume api i s = Inr s' \<Longrightarrow>
     session_step api s s'"

inductive_cases session_stepE: "session_step api s s'"

text \<open>
  Nothing in the code keeps the timer from firing while an analysis is suspended, and the second analysis
  then works on the tables of the first. The properties are about the sessions in which it does not.
\<close>

definition serial_step :: "ls_api \<Rightarrow> session \<Rightarrow> session \<Rightarrow> bool" where
  "serial_step api s s' \<longleftrightarrow> session_step api s s' \<and> length (se_running s') \<le> 1"

definition idle :: "server \<Rightarrow> session" where
  "idle sv = \<lparr>se_server = sv, se_running = []\<rparr>"

section \<open>The invariant\<close>

definition running_inv :: "session \<Rightarrow> bool" where
  "running_inv s \<longleftrightarrow>
     session_inv (se_server s) \<and> length (se_running s) \<le> 1 \<and>
     (sv_phase (se_server s) = Serving \<longrightarrow>
        (\<forall>co\<in>set (se_running s). moment co (lc_analyzer (sv_ctx (se_server s))))) \<and>
     (sv_phase (se_server s) \<in> {Await_initialize, Await_initialized} \<longrightarrow> se_running s = [])"

lemma serving_analyzer:
  assumes "message_turn api sv = Inr sv'" and "sv_phase sv = Serving" and "sv_phase sv' = Serving"
  shows "lc_analyzer (sv_ctx sv') = lc_analyzer (sv_ctx sv)"
  using assms by (elim serving_turn_message) (auto dest: handle_msg_effect(1))

lemma serving_stays:
  assumes "message_turn api sv = Inr sv'" and "sv_phase sv = Serving"
  shows "sv_phase sv' = Serving \<or> (\<exists>code. sv_phase sv' = Ended code)"
proof -
  have "\<forall>code. sv_phase sv \<noteq> Ended code" using assms(2) by simp
  from assms(1) this show ?thesis
  proof (cases rule: message_turn_cases)
    case (message bsz msg rest sv3)
    from message(2,5) assms(2) show ?thesis by (auto simp: serving_turn_def Let_def elim!: obind_InrE)
  qed simp
qed

lemma running_inv_message:
  assumes "message_turn api (se_server s) = Inr sv" and "\<forall>code. sv_phase (se_server s) \<noteq> Ended code" and "running_inv s"
  shows "running_inv (s\<lparr>se_server := sv\<rparr>)"
proof -
  have i: "session_inv sv" using message_turn_inv [OF assms(1,2)] assms(3) by (simp add: running_inv_def)
  show ?thesis
  proof (cases "sv_phase (se_server s) = Serving")
    case True
    from serving_stays [OF assms(1) True] serving_analyzer [OF assms(1) True] i True assms(3) show ?thesis
      by (auto simp: running_inv_def)
  next
    case False
    with assms(2) have "sv_phase (se_server s) \<in> {Await_initialize, Await_initialized}"
      by (cases "sv_phase (se_server s)") auto
    with i assms(3) show ?thesis by (auto simp: running_inv_def)
  qed
qed

lemma serving_ls_inv:
  "sv_phase sv = Serving \<Longrightarrow> session_inv sv \<longleftrightarrow>
     ls_inv (sv_ctx sv) \<and> \<not> lc_should_terminate (sv_ctx sv) \<and> \<not> exit_msg (sv_msg sv)"
  by (auto simp: session_inv_def server_inv_def)

lemma timer_serving: "session_inv sv \<Longrightarrow> lc_timer_pending (sv_ctx sv) \<Longrightarrow> sv_phase sv = Serving"
  by (auto simp: session_inv_def server_inv_def)

lemma running_inv_timer:
  assumes "timer_begin api s = Inr s'" and "lc_timer_pending (sv_ctx (se_server s))" and "running_inv s"
    and one: "length (se_running s') \<le> 1"
  shows "running_inv s'"
proof -
  let ?ctx = "sv_ctx (se_server s)"
  from assms(1) obtain co a where b: "begin_analysis (la_asm api) (lc_workspace ?ctx) (lc_analyzer ?ctx) = Inr (co, a)"
    and s': "s' = set_ctx (?ctx\<lparr>lc_timer_pending := False, lc_analyzer := a\<rparr>) s\<lparr>se_running := se_running s @ [co]\<rparr>"
    by (auto simp: timer_begin_def Let_def ok_simps)
  from assms(3) have i: "session_inv (se_server s)" by (simp add: running_inv_def)
  note serving = timer_serving [OF i assms(2)]
  from i serving have "ls_inv ?ctx" by (simp add: serving_ls_inv)
  then have "moment co a" using begin_moment [OF _ _ b] by (simp add: ls_inv_def analyzer_ok_def)
  with moment_ok [OF this] i serving s' one show ?thesis
    by (auto simp: running_inv_def set_ctx_def serving_ls_inv ls_inv_def)
qed

text \<open>A resumed callback is suspended again, or ends with the publication.\<close>

lemma analysis_resume_cases:
  assumes "analysis_resume api i s = Inr s'" and "se_running s = [co]" and "i = 0"
  obtains (suspended) co' a where
      "analysis_turn (la_asm api) (lc_workspace (sv_ctx (se_server s))) co (lc_analyzer (sv_ctx (se_server s))) = Inr (Some co', a)"
      "s' = set_ctx ((sv_ctx (se_server s))\<lparr>lc_analyzer := a\<rparr>) s\<lparr>se_running := [co']\<rparr>"
  | (over) a ctx where
      "analysis_turn (la_asm api) (lc_workspace (sv_ctx (se_server s))) co (lc_analyzer (sv_ctx (se_server s))) = Inr (None, a)"
      "publish_diagnostics api ((sv_ctx (se_server s))\<lparr>lc_analyzer := a\<rparr>) = Inr ctx"
      "s' = set_ctx ctx s\<lparr>se_running := []\<rparr>"
proof -
  from assms obtain r a where t: "analysis_turn (la_asm api) (lc_workspace (sv_ctx (se_server s))) co
      (lc_analyzer (sv_ctx (se_server s))) = Inr (r, a)"
    by (auto simp: analysis_resume_def Let_def ok_simps)
  show thesis
  proof (cases r)
    case None
    with assms t that(2) show ?thesis by (auto simp: analysis_resume_def Let_def ok_simps)
  next
    case (Some co')
    with assms t that(1) show ?thesis by (auto simp: analysis_resume_def Let_def ok_simps)
  qed
qed

lemma running_inv_resume:
  assumes "analysis_resume api i s = Inr s'" and "i < length (se_running s)"
    and serving: "sv_phase (se_server s) = Serving" and "running_inv s"
  shows "running_inv s'"
proof -
  let ?ctx = "sv_ctx (se_server s)"
  from assms(2,4) obtain co where co: "se_running s = [co]" "i = 0"
    by (cases "se_running s") (auto simp: running_inv_def)
  with assms(4) serving have m: "moment co (lc_analyzer ?ctx)" and inv: "ls_inv ?ctx"
    and more: "\<not> lc_should_terminate ?ctx" "\<not> exit_msg (sv_msg (se_server s))"
    by (auto simp: running_inv_def serving_ls_inv)
  have "workspace_inv (lc_workspace ?ctx)" using inv by (simp add: ls_inv_def)
  note tm = turn_moment [OF this m]
  from assms(1) co show ?thesis
  proof (cases rule: analysis_resume_cases)
    case (suspended co' a)
    with tm [OF suspended(1)] moment_ok inv more serving show ?thesis
      by (auto simp: running_inv_def set_ctx_def serving_ls_inv ls_inv_def)
  next
    case (over a ctx)
    have "bhash_inv (lc_currently_diagnosed (?ctx\<lparr>lc_analyzer := a\<rparr>))" using inv by (simp add: ls_inv_def)
    from publish_diagnostics_frame [OF over(2) this] tm [OF over(1)] over(3) inv more serving show ?thesis
      by (simp add: running_inv_def set_ctx_def serving_ls_inv ls_inv_def)
  qed
qed

lemma serial_inv: "serial_step api s s' \<Longrightarrow> running_inv s \<Longrightarrow> running_inv s'"
  unfolding serial_step_def
  by (elim conjE session_stepE) (use running_inv_message running_inv_timer running_inv_resume in blast)+

interpretation sa: step_system "serial_step api" running_inv for api
  by unfold_locales (rule serial_inv)

lemma start_running: "running_inv (idle (server_start input out))"
  using start_session_inv by (simp add: running_inv_def idle_def)

section \<open>A callback in one piece is one that nothing interrupts\<close>

definition holding :: "server \<Rightarrow> analyzer \<Rightarrow> analysis \<Rightarrow> session" where
  "holding sv a co = \<lparr>se_server = sv\<lparr>sv_ctx := (sv_ctx sv)\<lparr>lc_analyzer := a\<rparr>\<rparr>, se_running = [co]\<rparr>"

lemma holding_sel [simp]:
  "sv_phase (se_server (holding sv a co)) = sv_phase sv" "se_running (holding sv a co) = [co]"
  "sv_ctx (se_server (holding sv a co)) = (sv_ctx sv)\<lparr>lc_analyzer := a\<rparr>"
  by (simp_all add: holding_def)

lemmas serial_more = rtranclp.rtrancl_into_rtrancl [of "serial_step api" for api]

lemma turns_are_steps:
  assumes "(analysis_step (la_asm api) (lc_workspace (sv_ctx sv)))\<^sup>*\<^sup>* s t" and "s = (Some co, a)" and "t = (Some co', a')"
    and serving: "sv_phase sv = Serving"
  shows "(serial_step api)\<^sup>*\<^sup>* (holding sv a co) (holding sv a' co')"
  using assms(1-3)
proof (induction arbitrary: co' a' rule: rtranclp_induct)
  case (step t1 t2)
  then obtain co1 a1 where t1: "t1 = (Some co1, a1)"
    and t: "analysis_turn (la_asm api) (lc_workspace (sv_ctx sv)) co1 a1 = Inr (Some co', a')"
    by (auto elim!: analysis_step.cases)
  have "analysis_resume api 0 (holding sv a1 co1) = Inr (holding sv a' co')"
    by (simp add: analysis_resume_def t) (simp add: holding_def set_ctx_def)
  then have "serial_step api (holding sv a1 co1) (holding sv a' co')"
    unfolding serial_step_def by (intro conjI resume [of _ 0]) (simp_all add: serving)
  with step.IH [OF step.prems(1) t1] show ?case by (rule serial_more)
qed simp

lemma timer_turn_steps:
  assumes "timer_turn api sv = Inr sv'" and pending: "lc_timer_pending (sv_ctx sv)" and serving: "sv_phase sv = Serving"
  shows "(serial_step api)\<^sup>*\<^sup>* (idle sv) (idle sv')"
proof -
  let ?ctx = "(sv_ctx sv)\<lparr>lc_timer_pending := False\<rparr>"
  let ?sv = "sv\<lparr>sv_ctx := ?ctx\<rparr>"
  let ?ws = "lc_workspace (sv_ctx sv)"
  from assms(1) obtain a' ctx where a: "buxn_ls_analyze (la_asm api) ?ws (lc_analyzer (sv_ctx sv)) = Inr a'"
    and p: "publish_diagnostics api (?ctx\<lparr>lc_analyzer := a'\<rparr>) = Inr ctx" and sv': "sv' = sv\<lparr>sv_ctx := ctx\<rparr>"
    by (auto simp: timer_turn_def buxn_ls_analyze_workspace_def ok_simps)
  then obtain co a1 where b: "begin_analysis (la_asm api) ?ws (lc_analyzer (sv_ctx sv)) = Inr (co, a1)"
    and f: "finish_analysis (la_asm api) ?ws (Some co, a1) = Inr a'" by (auto simp: begin_finish ok_simps)
  have "timer_begin api (idle sv) = Inr (holding ?sv a1 co)"
    by (simp add: timer_begin_def idle_def b) (simp add: holding_def set_ctx_def)
  then have start: "serial_step api (idle sv) (holding ?sv a1 co)"
    unfolding serial_step_def by (intro conjI timer) (simp_all add: idle_def pending)
  have "co = \<lparr>co_index = 0, co_call = None\<rparr>" using b by (auto simp: begin_analysis_def ok_simps)
  with f have "(analysis_step (la_asm api) ?ws)\<^sup>*\<^sup>* (Some co, a1) (None, a')"
    using finish_steps [of "la_asm api" ?ws a1 a'] by simp
  then obtain co2 a2 where turns: "(analysis_step (la_asm api) ?ws)\<^sup>*\<^sup>* (Some co, a1) (Some co2, a2)"
    and last: "analysis_turn (la_asm api) ?ws co2 a2 = Inr (None, a')"
    by (cases rule: rtranclp.cases) (auto elim!: analysis_step.cases)
  have "analysis_resume api 0 (holding ?sv a2 co2) = Inr (idle sv')"
    by (simp add: analysis_resume_def last p) (simp add: holding_def set_ctx_def idle_def sv')
  then have "serial_step api (holding ?sv a2 co2) (idle sv')"
    unfolding serial_step_def by (intro conjI resume [of _ 0]) (simp_all add: serving idle_def)
  moreover have "(serial_step api)\<^sup>*\<^sup>* (holding ?sv a1 co) (holding ?sv a2 co2)"
    by (rule turns_are_steps [of api ?sv "(Some co, a1)" "(Some co2, a2)"]) (use turns serving in simp_all)
  ultimately show ?thesis
    using start by (meson converse_rtranclp_into_rtranclp serial_more)
qed

lemma reach_serial:
  "ls_reach api sv sv' \<Longrightarrow> session_inv sv \<Longrightarrow> (serial_step api)\<^sup>*\<^sup>* (idle sv) (idle sv')"
proof (induction rule: reach_induct)
  case (more sv1 sv2)
  then have i: "session_inv sv1" using ls.reach_inv by blast
  from more(2) have "(serial_step api)\<^sup>*\<^sup>* (idle sv1) (idle sv2)"
  proof (elim ls_stepE)
    assume "message_turn api sv1 = Inr sv2" "\<forall>code. sv_phase sv1 \<noteq> Ended code"
    then have "session_step api (idle sv1) (idle sv1\<lparr>se_server := sv2\<rparr>)" by (intro message) (simp_all add: idle_def)
    then show ?thesis by (intro reach_one) (simp add: serial_step_def idle_def)
  next
    assume "lc_timer_pending (sv_ctx sv1)" "timer_turn api sv1 = Inr sv2"
    then show ?thesis using timer_turn_steps timer_serving [OF i] by blast
  qed
  with more show ?case by (meson rtranclp_trans)
qed simp

section \<open>The editor's view\<close>

text \<open>The editor shows what the last analysis that has ended has found; between analyses that is what the
  analyzer holds.\<close>

definition view_inv :: "ls_api \<Rightarrow> out_channel \<Rightarrow> session \<Rightarrow> bool" where
  "view_inv api out s \<longleftrightarrow> running_inv s \<and>
     (\<exists>v. view_kept api out v (se_server s) \<and>
        (se_running s = [] \<and> \<not> ended (se_server s) \<longrightarrow>
           v = diags_of (an_diagnostics (lc_analyzer (sv_ctx (se_server s))))))"

lemma last_turn_sorts:
  assumes "analysis_turn api ws co a = Inr (None, a')" and "qsort_ok (aa_qsort api)"
  shows "sorted (map diag_uri (an_diagnostics a'))"
  using assms(1) sort_diagnostics_sorts [OF _ assms(2)]
  by (auto simp: analysis_turn_def Let_def ok_simps split: option.splits asm_run.splits if_splits)

lemma view_inv_resume:
  assumes r: "analysis_resume api i s = Inr s'" "i < length (se_running s)" "sv_phase (se_server s) = Serving"
    and "view_inv api out s" and sorts: "qsort_ok (aa_qsort (la_asm api))"
  shows "view_inv api out s'"
proof -
  let ?ctx = "sv_ctx (se_server s)"
  from assms(4) have inv: "running_inv s" by (simp add: view_inv_def)
  note inv' = running_inv_resume [OF r inv]
  from assms(4) obtain v where v: "view_kept api out v (se_server s)" by (auto simp: view_inv_def)
  from r(2) inv obtain co where co: "se_running s = [co]" "i = 0"
    by (cases "se_running s") (auto simp: running_inv_def)
  from r(1) co show ?thesis
  proof (cases rule: analysis_resume_cases)
    case (suspended co' a)
    have "view_kept api out v (se_server s')" using v r(3) by (simp add: suspended set_ctx_def view_kept_def)
    with inv' suspended show ?thesis by (auto simp: view_inv_def)
  next
    case (over a ctx)
    from inv r(3) co have i: "ls_inv ?ctx" "moment co (lc_analyzer ?ctx)" by (auto simp: running_inv_def serving_ls_inv)
    then have "workspace_inv (lc_workspace ?ctx)" by (simp add: ls_inv_def)
    from turn_moment [OF this i(2) over(1)] i(1) have "ls_inv (?ctx\<lparr>lc_analyzer := a\<rparr>)" by (simp add: ls_inv_def)
    from view_kept_publish [OF v r(3) this _ _ _ over(2)] last_turn_sorts [OF over(1) sorts]
    have "view_kept api out (diags_of (an_diagnostics (lc_analyzer ctx))) ((se_server s)\<lparr>sv_ctx := ctx\<rparr>)" by simp
    then show ?thesis using inv' over(3) unfolding view_inv_def by (auto simp: set_ctx_def)
  qed
qed

lemma view_inv_step:
  assumes "serial_step api s s'" and "view_inv api out s" and sorts: "qsort_ok (aa_qsort (la_asm api))"
  shows "view_inv api out s'"
proof -
  have inv': "running_inv s'" using serial_inv [OF assms(1)] assms(2) by (simp add: view_inv_def)
  from assms(2) obtain v where v: "view_kept api out v (se_server s)"
    "se_running s = [] \<and> \<not> ended (se_server s) \<longrightarrow> v = diags_of (an_diagnostics (lc_analyzer (sv_ctx (se_server s))))"
    by (auto simp: view_inv_def)
  from assms(1) show ?thesis unfolding serial_step_def
  proof (elim conjE session_stepE)
    fix sv
    assume m: "message_turn api (se_server s) = Inr sv" "\<forall>code. sv_phase (se_server s) \<noteq> Ended code" "s' = s\<lparr>se_server := sv\<rparr>"
    from view_kept_turn [OF m(1,2) v(1)] v(2) m(2) inv' m(3) show ?thesis
      unfolding view_inv_def by (intro conjI exI [of _ v]) auto
  next
    assume t: "lc_timer_pending (sv_ctx (se_server s))" "timer_begin api s = Inr s'"
    have "sv_phase (se_server s) = Serving" using timer_serving t(1) assms(2) by (simp add: view_inv_def running_inv_def)
    with t(2) v(1) have "view_kept api out v (se_server s') \<and> se_running s' \<noteq> []"
      by (auto simp: timer_begin_def Let_def ok_simps set_ctx_def view_kept_def)
    with inv' show ?thesis unfolding view_inv_def by blast
  qed (use view_inv_resume [OF _ _ _ assms(2) sorts] in blast)
qed

section \<open>No message is too much\<close>

lemma await_initialize_total:
  assumes "libs_ok api" and "roots_ok api (in_value (sv_msg sv))"
  shows "\<exists>sv'. await_initialize_turn api sv = Inr sv'"
  using initialize_total [OF assms, of "sv_ctx sv"]
  by (auto simp: await_initialize_turn_def Let_def split: bio_lsp_msg_type.split)

lemma message_turn_total:
  assumes "libs_ok api" and inv: "session_inv sv" and open_sv: "\<not> ended sv" and "docs_small (lc_workspace (sv_ctx sv))"
    and "\<forall>n rest. bio_lsp_recv_msg_header (sv_in sv) = Inr (n, rest) \<longrightarrow> la_json_memory api n + n < 2 ^ 64"
    and msgs: "\<forall>msg\<in>set (received api sv). msg_ok api (sv_ctx sv) msg"
  shows "\<exists>sv'. message_turn api sv = Inr sv'"
proof -
  from recv_msg_total [OF assms(5)] obtain bsz received where
    r: "buxn_ls_recv_msg api (sv_in sv) (sv_buf_size sv) (sv_msg sv) = Inr (bsz, received)" by (metis surj_pair)
  show ?thesis
  proof (cases received)
    case (Inl e)
    with r show ?thesis by (auto simp: message_turn_def Let_def split: phase.split)
  next
    case (Inr m)
    obtain msg rest where m: "m = (msg, rest)" by (cases m)
    let ?sv = "sv\<lparr>sv_buf_size := bsz, sv_msg := msg, sv_in := rest\<rparr>"
    have ok: "msg_ok api (sv_ctx sv) msg" using msgs r Inr m by (simp add: received_def)
    have init: "\<exists>sv'. await_initialize_turn api ?sv = Inr sv'"
      using await_initialize_total [OF assms(1), of ?sv] ok by (simp add: msg_ok_def)
    have "ls_inv (sv_ctx sv)" using inv by (simp add: session_inv_def server_inv_def)
    from handle_msg_total [OF assms(1) this assms(4) ok] recv_msg_method [OF r [unfolded Inr m]]
    have "\<exists>sv'. serving_turn api ?sv = Inr sv'" by (auto simp: serving_turn_def Let_def)
    with init r Inr m open_sv show ?thesis by (cases "sv_phase sv") (simp_all add: message_turn_def Let_def)
  qed
qed

section \<open>A session with an edit during the analysis\<close>

text \<open>The document is opened, the timer fires, and while the analysis is suspended it is opened again.\<close>

lemma edit_suspended:
  "\<exists>s. (serial_step edit_api)\<^sup>*\<^sup>* (idle (edit_server (demo_frame ''{o}''))) s \<and> length (se_running s) = 1 \<and>
     sv_phase (se_server s) = Serving \<and> lc_workspace (sv_ctx (se_server s)) = demo_ws \<and>
     sv_in (se_server s) = demo_frame ''{o}''"
proof -
  from edit_opened [of "demo_frame ''{o}''"] obtain sv0 sv where
    r: "ls_reach edit_api (edit_server (demo_frame ''{o}'')) sv0" "sv_phase sv0 = Serving" "message_turn edit_api sv0 = Inr sv"
    and s: "sv_phase sv = Serving" "sv_in sv = demo_frame ''{o}''" "lc_timer_pending (sv_ctx sv)"
      "lc_workspace (sv_ctx sv) = demo_ws" "lc_analyzer (sv_ctx sv) = buxn_ls_analyzer_init"
    by (elim exE conjE)
  have "ls_reach edit_api (edit_server (demo_frame ''{o}'')) sv"
    by (rule ls_reach_step [OF r(1) step_message [OF r(3)]]) (simp add: r(2))
  then have i: "(serial_step edit_api)\<^sup>*\<^sup>* (idle (edit_server (demo_frame ''{o}''))) (idle sv)"
    by (rule reach_serial) (simp add: edit_server_def start_session_inv)
  from demo_diag_analysis obtain co a where "begin_analysis demo_error_asm demo_ws buxn_ls_analyzer_init = Inr (co, a)"
    by (auto simp: begin_finish ok_simps)
  then have b: "timer_begin edit_api (idle sv) = Inr (holding (sv\<lparr>sv_ctx := (sv_ctx sv)\<lparr>lc_timer_pending := False\<rparr>\<rparr>) a co)"
    by (simp add: timer_begin_def idle_def s edit_api_sel) (simp add: holding_def set_ctx_def)
  have "serial_step edit_api (idle sv) (holding (sv\<lparr>sv_ctx := (sv_ctx sv)\<lparr>lc_timer_pending := False\<rparr>\<rparr>) a co)"
    unfolding serial_step_def by (intro conjI timer [OF _ b]) (simp_all add: idle_def s)
  from serial_more [OF i this] s show ?thesis
    by (intro exI [of _ "holding (sv\<lparr>sv_ctx := (sv_ctx sv)\<lparr>lc_timer_pending := False\<rparr>\<rparr>) a co"]) (simp add: holding_def)
qed

lemma edit_libs_ok: "libs_ok edit_api"
  using edit_writes by (simp add: libs_ok_def edit_api_def demo_api_def demo_error_asm_def demo_asm_def ref_utf8_ok)

section \<open>Properties\<close>

text \<open>C21: In the sessions in which the timer does not fire while an analysis is suspended, with messages coming
  in while the analysis waits for a file, the server's state is well-formed at every moment: the
  workspace, the tables, and the analyzer that the handlers read, half-built as it may be. The suspended
  analysis has its invariant (\<open>moment\<close>): the sources it has queued, the entry file it is at and the context of
  the run under way belong to the analyzer as it is now. Before the session serves, none is suspended.
  That the next turn of the analysis does not fault is not part of it.\<close>

theorem interleaved_sessions_well_formed:
  assumes "(serial_step api)\<^sup>*\<^sup>* (idle (server_start input out)) s"
  shows "session_inv (se_server s) \<and>
    (sv_phase (se_server s) = Serving \<longrightarrow>
       (\<forall>co\<in>set (se_running s). moment co (lc_analyzer (sv_ctx (se_server s))))) \<and>
    (starting (se_server s) \<longrightarrow> se_running s = [])"
  using sa.reach_inv [OF assms start_running] by (auto simp: running_inv_def starting_def)

theorem interleaved_sessions_well_formed_witness:
  "\<exists>s co. (serial_step edit_api)\<^sup>*\<^sup>* (idle (edit_server (demo_frame ''{o}''))) s \<and>
     se_running s = [co] \<and> moment co (lc_analyzer (sv_ctx (se_server s)))"
proof -
  from edit_suspended obtain s where s: "(serial_step edit_api)\<^sup>*\<^sup>* (idle (edit_server (demo_frame ''{o}''))) s"
    "length (se_running s) = 1" "sv_phase (se_server s) = Serving" by blast
  from s(2) obtain co where "se_running s = [co]" by (auto simp: length_Suc_conv)
  with interleaved_sessions_well_formed [OF s(1) [unfolded edit_server_def]] s(1,3) show ?thesis by auto
qed

text \<open>C4: The server does not fault on a message: in every state that a session can reach in which the timer
  does not fire while an analysis is suspended, also during an analysis, the turn that receives the next
  message returns, whatever message there is and whether or not it can be received. It needs,
  besides that of the timer, which the code does not ensure: a JSON library that does not write texts of a terabyte; for the message, a length
  that does not wrap, URIs that the parser gives the parts which the code uses, and a line that is
  not negative; documents below half the address space.\<close>

theorem messages_never_fault:
  assumes "(serial_step api)\<^sup>*\<^sup>* (idle (server_start input out)) s" and "\<not> ended (se_server s)"
    and "libs_ok api" and "docs_small (lc_workspace (sv_ctx (se_server s)))"
    and "\<forall>n rest. bio_lsp_recv_msg_header (sv_in (se_server s)) = Inr (n, rest) \<longrightarrow> la_json_memory api n + n < 2 ^ 64"
    and "\<forall>msg\<in>set (received api (se_server s)). msg_ok api (sv_ctx (se_server s)) msg"
  shows "\<exists>sv'. message_turn api (se_server s) = Inr sv'"
  using message_turn_total [OF assms(3) _ assms(2,4,5,6)] sa.reach_inv [OF assms(1) start_running]
  by (simp add: running_inv_def)

theorem messages_never_fault_witness:
  "\<exists>s sv'. (serial_step edit_api)\<^sup>*\<^sup>* (idle (edit_server (demo_frame ''{o}''))) s \<and> length (se_running s) = 1 \<and>
     received edit_api (se_server s) = [edit_open] \<and> message_turn edit_api (se_server s) = Inr sv'"
proof -
  from edit_suspended obtain s where s: "(serial_step edit_api)\<^sup>*\<^sup>* (idle (edit_server (demo_frame ''{o}''))) s"
    "length (se_running s) = 1" "sv_phase (se_server s) = Serving" "lc_workspace (sv_ctx (se_server s)) = demo_ws"
    "sv_in (se_server s) = demo_frame ''{o}''" by blast
  have r: "received edit_api (se_server s) = [edit_open]"
    using edit_recv [of "''{o}''" "[]"] by (simp add: received_def s(5) edit_parse)
  have "docs_small demo_ws" by (simp add: docs_small_def demo_ws_def bhash_get_def)
  moreover have "msg_ok edit_api (sv_ctx (se_server s)) edit_open"
    by (simp add: msg_ok_def edit_open_def msg_uri_def roots_ok_def path_ok_def scheme_ok_def edit_api_sel edit_yy_def
        yy_get_cstr_def cstr_def NUL_def demo_url_def Let_def)
  moreover have "bio_lsp_recv_msg_header (demo_frame ''{o}'') = Inr (3, ''{o}'')"
    using recv_header_text [of 3 "''{o}''"] by (simp add: demo_frame_def)
  ultimately obtain sv' where "message_turn edit_api (se_server s) = Inr sv'"
    using messages_never_fault [OF s(1) [unfolded edit_server_def] _ edit_libs_ok] s r by (auto simp: edit_api_sel)
  with s r show ?thesis by blast
qed

text \<open>C3: The editor shows what the server knows: at every moment of a session between two analyses, all
  messages sent since the start, replies and notifications in whatever order, leave the editor with
  exactly the diagnostics of the last analysis, for every URI in their order, and with none before the
  first. It needs that \<open>qsort\<close> sorts as the C standard says, that the channel does not fail, and that the
  timer does not fire during an analysis.\<close>

theorem editor_shows_last_analysis:
  assumes "(serial_step api)\<^sup>*\<^sup>* (idle (server_start input out)) s" and "\<not> ended (se_server s)" and "o_script out = []"
    and "qsort_ok (aa_qsort (la_asm api))"
  shows "\<exists>sent. send_all (la_yy api) sent out = Inr (lc_out (sv_ctx (se_server s))) \<and>
    (se_running s = [] \<longrightarrow> client_view sent (\<lambda>u. []) = diags_of (an_diagnostics (lc_analyzer (sv_ctx (se_server s)))))"
proof -
  have "view_inv api out (idle (server_start input out))"
    using start_running assms(3) unfolding view_inv_def
    by (intro conjI exI [of _ "\<lambda>u. []"]) (auto simp: view_kept_def idle_def server_start_def send_all_def
        buxn_ls_analyzer_init_def intro!: exI [of _ "[]"])
  with assms(1) have "view_inv api out s"
    by (induction rule: rtranclp_induct) (use view_inv_step assms(4) in blast)+
  with assms(2) show ?thesis by (auto simp: view_inv_def view_kept_def)
qed

theorem editor_shows_last_analysis_witness:
  "\<exists>sv sent. (serial_step edit_api)\<^sup>*\<^sup>* (idle (edit_server [])) (idle sv) \<and>
     send_all edit_yy sent \<lparr>o_sent = [], o_script = []\<rparr> = Inr (lc_out (sv_ctx sv)) \<and>
     length (client_view sent (\<lambda>u. []) ''file:///r/a.tal'') = 1"
proof -
  from edit_session [of "[]"] obtain sv0 sv where s: "ls_reach edit_api (edit_server []) sv0" "dialogue edit_api sv0 [edit_open] sv"
    "sv_phase sv = Serving" "map diag_uri (an_diagnostics (lc_analyzer (sv_ctx sv))) = [Some ''file:///r/a.tal'']"
    by (elim exE conjE)
  have "ls_reach edit_api sv0 sv" using s(2) reach_dialogue by blast
  with s(1) have "ls_reach edit_api (edit_server []) sv" by (rule rtranclp_trans)
  then have r: "(serial_step edit_api)\<^sup>*\<^sup>* (idle (edit_server [])) (idle sv)"
    by (rule reach_serial) (simp add: edit_server_def start_session_inv)
  have "qsort_ok (aa_qsort (la_asm edit_api))"
    by (simp add: edit_api_sel demo_error_asm_def insertion_sort_ok)
  with editor_shows_last_analysis [OF r [unfolded edit_server_def]] s(3) obtain sent where
    "send_all edit_yy sent \<lparr>o_sent = [], o_script = []\<rparr> = Inr (lc_out (sv_ctx sv))"
    "client_view sent (\<lambda>u. []) = diags_of (an_diagnostics (lc_analyzer (sv_ctx sv)))" by (auto simp: edit_api_sel idle_def)
  moreover from s(4) obtain e where "an_diagnostics (lc_analyzer (sv_ctx sv)) = [e]" "diag_uri e = Some ''file:///r/a.tal''"
    by (cases "an_diagnostics (lc_analyzer (sv_ctx sv))") auto
  ultimately show ?thesis using r by (intro exI [of _ sv] exI [of _ sent]) (simp add: diags_of_def)
qed

end
