(* ===== verification/Ls_Edits.thy ===== *)
theory Ls_Edits
  imports Ls_Async
begin

text \<open>
  Edits are analysed, in the sessions of \<open>Ls_Async\<close>, where messages come in while an analysis is suspended:
  an analysis that nothing has edited since it began is one of the documents as they are now, from its
  first turn to its last, because its turns come to the same outcome wherever they are resumed.
\<close>

section \<open>The messages of a session\<close>

text \<open>The runs of \<open>serial_step\<close>, with the messages that are received on the way.\<close>

inductive session_dialogue :: "ls_api \<Rightarrow> session \<Rightarrow> bio_lsp_in_msg list \<Rightarrow> session \<Rightarrow> bool" for api s0 where
  dialogue_begins: "session_dialogue api s0 [] s0"
| dialogue_received: "session_dialogue api s0 ms s \<Longrightarrow> message_turn api (se_server s) = Inr sv \<Longrightarrow>
     (\<forall>code. sv_phase (se_server s) \<noteq> Ended code) \<Longrightarrow>
     session_dialogue api s0 (ms @ received api (se_server s)) (s\<lparr>se_server := sv\<rparr>)"
| dialogue_fired: "session_dialogue api s0 ms s \<Longrightarrow> lc_timer_pending (sv_ctx (se_server s)) \<Longrightarrow>
     se_running s = [] \<Longrightarrow> timer_begin api s = Inr s' \<Longrightarrow> session_dialogue api s0 ms s'"
| dialogue_resumed: "session_dialogue api s0 ms s \<Longrightarrow> sv_phase (se_server s) = Serving \<Longrightarrow> i < length (se_running s) \<Longrightarrow>
     analysis_resume api i s = Inr s' \<Longrightarrow> session_dialogue api s0 ms s'"

lemma timer_begin_running: "timer_begin api s = Inr s' \<Longrightarrow> length (se_running s') = Suc (length (se_running s))"
  by (auto simp: timer_begin_def Let_def ok_simps set_ctx_def)

lemma resume_running:
  "analysis_resume api i s = Inr s' \<Longrightarrow> i < length (se_running s) \<Longrightarrow> length (se_running s') \<le> length (se_running s)"
  by (auto simp: analysis_resume_def Let_def ok_simps set_ctx_def split: option.splits)

lemma reach_session_dialogue:
  "(serial_step api)\<^sup>*\<^sup>* s0 s \<longleftrightarrow> (\<exists>ms. session_dialogue api s0 ms s)" if "length (se_running s0) \<le> 1"
proof
  assume "(serial_step api)\<^sup>*\<^sup>* s0 s"
  then show "\<exists>ms. session_dialogue api s0 ms s"
  proof (induction rule: rtranclp_induct)
    case (step s1 s2)
    then obtain ms where d: "session_dialogue api s0 ms s1" by blast
    from step(2) show ?case unfolding serial_step_def
      by (elim conjE session_stepE) (use d timer_begin_running in \<open>fastforce intro: session_dialogue.intros\<close>)+
  qed (blast intro: dialogue_begins)
next
  assume "\<exists>ms. session_dialogue api s0 ms s"
  then obtain ms where "session_dialogue api s0 ms s" by blast
  then have "(serial_step api)\<^sup>*\<^sup>* s0 s \<and> length (se_running s) \<le> 1"
  proof induction
    case (dialogue_received ms s sv)
    then have "serial_step api s (s\<lparr>se_server := sv\<rparr>)" by (simp add: serial_step_def message)
    with dialogue_received serial_more show ?case by fastforce
  next
    case (dialogue_fired ms s s')
    then have "serial_step api s s'" by (auto simp: serial_step_def timer_begin_running intro: timer)
    with dialogue_fired serial_more timer_begin_running show ?case by fastforce
  next
    case (dialogue_resumed ms s i s')
    then have n: "length (se_running s') \<le> 1" using resume_running [OF dialogue_resumed(4,3)] by simp
    then have "serial_step api s s'" using dialogue_resumed by (simp add: serial_step_def resume)
    from serial_more [OF conjunct1 [OF dialogue_resumed.IH] this] n show ?case by blast
  qed (use that in auto)
  then show "(serial_step api)\<^sup>*\<^sup>* s0 s" by blast
qed

section \<open>The analysis follows the edits\<close>

text \<open>What the analyzer holds, or comes to when the analysis that is under way goes on to its end, is the
  outcome of an analysis of the documents as they are.\<close>

definition outcome_of :: "asm_api \<Rightarrow> buxn_ls_workspace \<Rightarrow> analysis list \<Rightarrow> analyzer \<Rightarrow> bool" where
  "outcome_of api ws running a \<longleftrightarrow>
     (\<exists>a0. analyzer_ok a0 \<and>
        (case running of
           [] \<Rightarrow> buxn_ls_analyze api ws a0 = Inr a
         | co # _ \<Rightarrow> buxn_ls_analyze api ws a0 = finish_analysis api ws (Some co, a)))"

abbreviation analysis_current :: "ls_api \<Rightarrow> session \<Rightarrow> bool" where
  "analysis_current api s \<equiv>
     outcome_of (la_asm api) (lc_workspace (sv_ctx (se_server s))) (se_running s) (lc_analyzer (sv_ctx (se_server s)))"

lemma begin_current:
  assumes "timer_begin api s = Inr s'" and "se_running s = []" and "ls_inv (sv_ctx (se_server s))"
  shows "analysis_current api s'"
proof -
  let ?ctx = "sv_ctx (se_server s)"
  from assms(1,2) obtain co a where b: "begin_analysis (la_asm api) (lc_workspace ?ctx) (lc_analyzer ?ctx) = Inr (co, a)"
    and s': "s' = set_ctx (?ctx\<lparr>lc_timer_pending := False, lc_analyzer := a\<rparr>) s\<lparr>se_running := [co]\<rparr>"
    by (auto simp: timer_begin_def Let_def ok_simps)
  have "buxn_ls_analyze (la_asm api) (lc_workspace ?ctx) (lc_analyzer ?ctx) =
      finish_analysis (la_asm api) (lc_workspace ?ctx) (Some co, a)"
    using b by (simp add: begin_finish)
  with assms(3) have "outcome_of (la_asm api) (lc_workspace ?ctx) [co] a"
    unfolding outcome_of_def by (intro exI [of _ "lc_analyzer ?ctx"]) (simp add: ls_inv_def)
  then show ?thesis by (simp add: s' set_ctx_def)
qed

lemma resume_current:
  assumes r: "analysis_resume api i s = Inr s'" and "i < length (se_running s)" and "running_inv s"
    and serving: "sv_phase (se_server s) = Serving"
  shows "analysis_current api s \<Longrightarrow> analysis_current api s'"
    and "lc_timer_pending (sv_ctx (se_server s')) = lc_timer_pending (sv_ctx (se_server s))"
proof -
  let ?ctx = "sv_ctx (se_server s)" and ?api = "la_asm api"
  from assms(2,3) obtain co where co: "se_running s = [co]" "i = 0"
    by (cases "se_running s") (auto simp: running_inv_def)
  have a0: "\<exists>a0. analyzer_ok a0 \<and> buxn_ls_analyze ?api (lc_workspace ?ctx) a0 =
       obind (analysis_turn ?api (lc_workspace ?ctx) co (lc_analyzer ?ctx)) (finish_analysis ?api (lc_workspace ?ctx))"
    if "analysis_current api s"
    using that co by (auto simp: outcome_of_def turn_finish)
  from r co have "(analysis_current api s \<longrightarrow> analysis_current api s') \<and>
      lc_timer_pending (sv_ctx (se_server s')) = lc_timer_pending ?ctx"
  proof (cases rule: analysis_resume_cases)
    case (suspended co' a)
    have "outcome_of ?api (lc_workspace ?ctx) [co'] a" if "analysis_current api s"
      using a0 [OF that] suspended(1) by (simp add: outcome_of_def)
    then show ?thesis by (simp add: suspended(2) set_ctx_def)
  next
    case (over a ctx)
    have "bhash_inv (lc_currently_diagnosed (?ctx\<lparr>lc_analyzer := a\<rparr>))"
      using assms(3) serving by (simp add: running_inv_def serving_ls_inv ls_inv_def)
    note f = publish_diagnostics_frame [OF over(2) this]
    have "outcome_of ?api (lc_workspace ?ctx) [] a" if "analysis_current api s"
      using a0 [OF that] over(1) by (simp add: outcome_of_def finish_analysis_def)
    then show ?thesis using f by (simp add: over(3) set_ctx_def)
  qed
  then show "analysis_current api s \<Longrightarrow> analysis_current api s'"
    "lc_timer_pending (sv_ctx (se_server s')) = lc_timer_pending ?ctx" by blast+
qed

lemma message_current:
  assumes "message_turn api (se_server s) = Inr sv" and serving: "sv_phase (se_server s) = Serving" "sv_phase sv = Serving"
    and "edited (ms @ received api (se_server s))"
    and before: "edited ms \<Longrightarrow> lc_timer_pending (sv_ctx (se_server s)) \<or> analysis_current api s"
  shows "lc_timer_pending (sv_ctx sv) \<or> analysis_current api (s\<lparr>se_server := sv\<rparr>)"
proof -
  from serving_turn_message [OF assms(1) serving] obtain msg where
    m: "received api (se_server s) = [msg]" "buxn_ls_handle_msg api msg (sv_ctx (se_server s)) = Inr (sv_ctx sv)" .
  note h = handle_msg_effect [OF m(2)]
  show ?thesis
  proof (cases "is_edit msg")
    case False
    with assms(4) m(1) have "edited ms" "\<not> cancels msg" by (simp_all add: edited_snoc)
    with before h(1,4,5) False show ?thesis by simp
  qed (use h(3) in simp)
qed

lemma dialogue_current:
  "session_dialogue api s0 ms s \<Longrightarrow> running_inv s0 \<Longrightarrow> sv_phase (se_server s0) = Serving \<Longrightarrow>
     running_inv s \<and> (sv_phase (se_server s) = Serving \<or> ended (se_server s)) \<and>
     (sv_phase (se_server s) = Serving \<and> edited ms \<longrightarrow>
        lc_timer_pending (sv_ctx (se_server s)) \<or> analysis_current api s)"
proof (induction rule: session_dialogue.induct)
  case dialogue_begins
  then show ?case by (auto simp: edited_def)
next
  case (dialogue_received ms s sv)
  then have i: "running_inv s" "sv_phase (se_server s) = Serving" by auto
  have "sv_phase sv = Serving \<or> ended sv" by (rule serving_stays [OF dialogue_received(2) i(2)])
  with message_current [OF dialogue_received(2) i(2)] dialogue_received i
    running_inv_message [OF dialogue_received(2,3) i(1)] show ?case by fastforce
next
  case (dialogue_fired ms s s')
  then have i: "running_inv s" "session_inv (se_server s)" by (auto simp: running_inv_def)
  note serving = timer_serving [OF i(2) dialogue_fired(2)]
  have "length (se_running s') \<le> 1" using timer_begin_running [OF dialogue_fired(4)] dialogue_fired(3) by simp
  note inv = running_inv_timer [OF dialogue_fired(4,2) i(1) this]
  have "ls_inv (sv_ctx (se_server s))" using i(2) serving by (simp add: serving_ls_inv)
  with begin_current [OF dialogue_fired(4,3)] inv serving dialogue_fired(4) show ?case
    by (auto simp: timer_begin_def Let_def ok_simps set_ctx_def)
next
  case (dialogue_resumed ms s i s')
  then have inv: "running_inv s" by blast
  note keeps = resume_current [OF dialogue_resumed(4,3) inv dialogue_resumed(2)]
  note inv' = running_inv_resume [OF dialogue_resumed(4,3,2) inv]
  have "sv_phase (se_server s') = sv_phase (se_server s)"
    using dialogue_resumed(4) by (auto simp: analysis_resume_def Let_def ok_simps set_ctx_def split: option.splits)
  with keeps inv' dialogue_resumed show ?case by auto
qed

section \<open>The property\<close>

text \<open>C5: Edits are analysed: whenever the server has received an edit, and nothing has cancelled the timer
  since the last one, the timer is pending, or an analysis of the documents exactly as they are now is
  under way (run to its end from where it is, it comes to the outcome of that analysis, faults included),
  or the analyzer holds the outcome of such an analysis. Messages may come in while an analysis is
  suspended; the sessions are those in which the timer does not fire while one is. Completion and
  \<open>shutdown\<close> are the only requests that cancel.\<close>

theorem edits_are_analysed:
  assumes "(serial_step api)\<^sup>*\<^sup>* (idle (server_start input out)) s0" and "sv_phase (se_server s0) = Serving"
    and "session_dialogue api s0 ms s" and "sv_phase (se_server s) = Serving" and "edited ms"
    and "\<not> lc_timer_pending (sv_ctx (se_server s))"
  shows "\<exists>a0. analyzer_ok a0 \<and>
    (case se_running s of
       [] \<Rightarrow> buxn_ls_analyze (la_asm api) (lc_workspace (sv_ctx (se_server s))) a0 = Inr (lc_analyzer (sv_ctx (se_server s)))
     | co # _ \<Rightarrow>
         buxn_ls_analyze (la_asm api) (lc_workspace (sv_ctx (se_server s))) a0 =
           finish_analysis (la_asm api) (lc_workspace (sv_ctx (se_server s))) (Some co, lc_analyzer (sv_ctx (se_server s))))"
  using dialogue_current [OF assms(3) sa.reach_inv [OF assms(1) start_running] assms(2)] assms(4-6)
  by (simp add: outcome_of_def)

text \<open>A document is opened and the timer fires: its analysis is under way, and then over.\<close>

theorem edits_are_analysed_witness:
  "\<exists>s0 s co a0. session_dialogue edit_api s0 [edit_open] s \<and> se_running s = [co] \<and>
     lc_workspace (sv_ctx (se_server s)) = demo_ws \<and> buxn_ls_analyze demo_error_asm demo_ws a0 =
       finish_analysis demo_error_asm demo_ws (Some co, lc_analyzer (sv_ctx (se_server s)))"
proof -
  from edit_opened [of "[]"] obtain sv0 sv where
    r: "ls_reach edit_api (edit_server []) sv0" "sv_phase sv0 = Serving" "message_turn edit_api sv0 = Inr sv"
      "received edit_api sv0 = [edit_open]"
    and s: "sv_phase sv = Serving" "lc_timer_pending (sv_ctx sv)" "lc_workspace (sv_ctx sv) = demo_ws"
      "lc_analyzer (sv_ctx sv) = buxn_ls_analyzer_init"
    by (elim exE conjE)
  have start: "(serial_step edit_api)\<^sup>*\<^sup>* (idle (edit_server [])) (idle sv0)"
    by (rule reach_serial [OF r(1)]) (simp add: edit_server_def start_session_inv)
  from demo_diag_analysis obtain co a where b: "begin_analysis demo_error_asm demo_ws buxn_ls_analyzer_init = Inr (co, a)"
    by (auto simp: begin_finish ok_simps)
  let ?s = "holding (sv\<lparr>sv_ctx := (sv_ctx sv)\<lparr>lc_timer_pending := False\<rparr>\<rparr>) a co"
  have "session_dialogue edit_api (idle sv0) ([] @ received edit_api (se_server (idle sv0))) ((idle sv0)\<lparr>se_server := sv\<rparr>)"
    by (rule dialogue_received [OF dialogue_begins]) (simp_all add: idle_def r)
  then have d: "session_dialogue edit_api (idle sv0) [edit_open] (idle sv)" by (simp add: idle_def r(4))
  have t: "session_dialogue edit_api (idle sv0) [edit_open] ?s"
    by (rule dialogue_fired [OF d]) (simp_all add: idle_def s timer_begin_def edit_api_sel b holding_def set_ctx_def)
  have "edited [edit_open]" using edited_snoc [of "[]" edit_open] by (simp add: is_edit_def edit_open_def)
  with edits_are_analysed [OF start [unfolded edit_server_def] _ t] r(2) s obtain a0 where
    "buxn_ls_analyze demo_error_asm demo_ws a0 = finish_analysis demo_error_asm demo_ws (Some co, a)"
    by (auto simp: edit_api_sel idle_def)
  with t s(3) show ?thesis by (intro exI [of _ "idle sv0"] exI [of _ ?s] exI [of _ co] exI [of _ a0]) simp
qed

end
