(* ===== verification/Entry.thy ===== *)
theory Entry
  imports Ls_Main
begin

text \<open>
  The ways to start the program: option parsing and the choice of a mode (\<open>src/src/main.c\<close>), the socket
  server (\<open>src/src/server.c\<close>). The shim is in \<open>Shim\<close>.

  The option parser \<open>barg\<close> and the coroutines and sockets of \<open>bio\<close> (\<open>deps\<close>, not part of the tree) are
  parameters: a run of the parser is a tree of the calls it makes, and what the network and the
  clients do are the steps of a relation. Assumed of \<open>bio\<close>: a coroutine runs until it waits, a spawned
  one does not run before its spawner waits, a new signal has not been raised, a new coroutine is
  none that runs, and \<open>bio_net_accept\<close> on a socket that has been closed returns.
\<close>

section \<open>Options and modes (\<open>main.c\<close>)\<close>

datatype launch_mode = BUXN_LS_STDIO | BUXN_LS_SERVER | BUXN_LS_SHIM | BUXN_LS_HYBRID

text \<open>The error message, if any, and what \<open>*mode\<close> is afterwards.\<close>

definition parse_mode :: "string \<Rightarrow> launch_mode \<Rightarrow> string option \<times> launch_mode" where
  "parse_mode str mode =
     (if str = ''stdio'' then (None, BUXN_LS_STDIO)
      else if str = ''server'' then (None, BUXN_LS_SERVER)
      else if str = ''shim'' then (None, BUXN_LS_SHIM)
      else if str = ''hybrid'' then (None, BUXN_LS_HYBRID)
      else (Some ''Invalid mode'', mode))"

datatype barg_status = BARG_OK | BARG_PARSE_ERROR | Barg_other_status

text \<open>A run of \<open>barg_parse\<close>: it calls the parser of \<open>mode\<close> and goes on with the message it returns,
  stores the argument of \<open>socket\<close>, or ends.\<close>

datatype barg_run =
    Barg_done barg_status
  | Barg_mode string "string option \<Rightarrow> barg_run"
  | Barg_socket string barg_run

primrec run_barg :: "barg_run \<Rightarrow> launch_mode \<times> string \<Rightarrow> barg_status \<times> launch_mode \<times> string" where
  "run_barg (Barg_done status) s = (status, s)"
| "run_barg (Barg_mode str k) s =
     (case parse_mode str (fst s) of (err, mode) \<Rightarrow> run_barg (k err) (mode, snd s))"
| "run_barg (Barg_socket path r) s = run_barg r (fst s, path)"

datatype launch =
    Launch_stdio
  | Launch_server string
  | Launch_shim string bool  \<comment> \<open>socket path, fallback\<close>
  | Launch_exit int

definition main_launch :: "barg_run \<Rightarrow> launch" where
  "main_launch barg =
     (case run_barg barg (BUXN_LS_STDIO, ''@buxn/ls'') of (status, mode, socket_path) \<Rightarrow>
        if status \<noteq> BARG_OK then Launch_exit (if status = BARG_PARSE_ERROR then 1 else 0)
        else (case mode of
                BUXN_LS_STDIO \<Rightarrow> Launch_stdio
              | BUXN_LS_SERVER \<Rightarrow> Launch_server socket_path
              | BUXN_LS_SHIM \<Rightarrow> Launch_shim socket_path False
              | BUXN_LS_HYBRID \<Rightarrow> Launch_shim socket_path True))"

section \<open>The socket server (\<open>server.c\<close>)\<close>

text \<open>What the accept loop hands to the coroutine of a client; the pool and the server's context are the
  same for all. Sockets, signals and coroutines are handles.\<close>

record args_t =
  ag_client :: nat
  ag_ready_sig :: nat

text \<open>In \<open>Handing_over c\<close> the accept loop waits for the ready signal; \<open>c\<close> is its \<open>client_coro\<close>.\<close>

datatype server_phase =
    Accepting
  | Handing_over nat
  | Draining
  | Joining_exit_handler
  | Server_returned int

text \<open>\<open>ss_args\<close> is the variable \<open>args\<close> in the frame of the accept loop, one for all turns; \<open>ss_running\<close> are the
  coroutines that were spawned and whose \<open>ls_wrapper\<close> has not returned, and \<open>ss_copied\<close> is, for those that have
  started, their own copy of the arguments. The exit handler has run when \<open>ss_should_terminate\<close> is set.\<close>

record socket_server =
  ss_phase :: server_phase
  ss_listening :: bool
  ss_should_terminate :: bool
  ss_clients :: "(nat, unit) bhash"
  ss_args :: "args_t option"
  ss_raised :: "nat set"
  ss_running :: "nat set"
  ss_copied :: "nat \<rightharpoonup> args_t"

definition server_entry :: "bool \<Rightarrow> socket_server" where
  "server_entry listening =
     \<lparr>ss_phase = (if listening then Accepting else Server_returned 1), ss_listening = listening,
      ss_should_terminate = False, ss_clients = [], ss_args = None, ss_raised = {}, ss_running = {},
      ss_copied = Map.empty\<rparr>"

text \<open>The end of the accept loop, and the socket closed behind it.\<close>

definition leave_loop :: "socket_server \<Rightarrow> socket_server" where
  "leave_loop ss = ss\<lparr>ss_phase := Draining, ss_listening := False\<rparr>"

text \<open>A turn of the accept loop from the result of \<open>bio_net_accept\<close> on, an error or the socket of the client,
  for which a signal is made and a coroutine spawned; it ends where the loop waits for the signal.\<close>

definition accept_turn :: "bhash_layout \<Rightarrow> (nat \<times> nat \<times> nat) option \<Rightarrow> socket_server \<Rightarrow> socket_server" where
  "accept_turn lay accepted ss =
     (case accepted of
        None \<Rightarrow> leave_loop ss
      | Some (client, sig, coro) \<Rightarrow>
          ss\<lparr>ss_args := Some \<lparr>ag_client = client, ag_ready_sig = sig\<rparr>,
             ss_running := insert coro (ss_running ss), ss_copied := (ss_copied ss)(coro := None),
             ss_clients := bhash_put lay (ss_clients ss) coro (),
             ss_phase := Handing_over coro\<rparr>)"

text \<open>The signal has come, and the condition of the loop is tested.\<close>

definition handed_over :: "socket_server \<Rightarrow> socket_server" where
  "handed_over ss = (if ss_should_terminate ss then leave_loop ss else ss\<lparr>ss_phase := Accepting\<rparr>)"

text \<open>The start of \<open>ls_wrapper\<close>: it copies what \<open>args\<close> holds at this moment, and raises the signal.\<close>

definition ls_wrapper_start :: "nat \<Rightarrow> socket_server \<Rightarrow> socket_server" where
  "ls_wrapper_start self ss =
     (case ss_args ss of
        None \<Rightarrow> ss
      | Some args \<Rightarrow>
          ss\<lparr>ss_copied := (ss_copied ss)(self \<mapsto> args),
             ss_raised := insert (ag_ready_sig args) (ss_raised ss)\<rparr>)"

text \<open>The end of \<open>ls_wrapper\<close>.\<close>

definition ls_wrapper_end :: "bhash_layout \<Rightarrow> nat \<Rightarrow> socket_server \<Rightarrow> socket_server" where
  "ls_wrapper_end lay self ss =
     ss\<lparr>ss_clients := bhash_remove lay (ss_clients ss) self, ss_running := ss_running ss - {self}\<rparr>"

text \<open>Closing the socket wakes the accept loop.\<close>

definition exit_handler :: "socket_server \<Rightarrow> socket_server" where
  "exit_handler ss = ss\<lparr>ss_should_terminate := True, ss_listening := False\<rparr>"

text \<open>The join loop waits for the first client while there is one; then the exit handler is joined.\<close>

definition drain_turn :: "socket_server \<Rightarrow> socket_server option" where
  "drain_turn ss =
     (case bhash_keys (ss_clients ss) of
        [] \<Rightarrow> Some (ss\<lparr>ss_phase := Joining_exit_handler\<rparr>)
      | c # _ \<Rightarrow> if c \<in> ss_running ss then None else Some ss)"

text \<open>The coroutine of \<open>server_entry\<close> goes on by itself, unless it waits: for the network, for a client's
  coroutine, or for the exit handler.\<close>

definition server_turn :: "bhash_layout \<Rightarrow> socket_server \<Rightarrow> socket_server option" where
  "server_turn lay ss =
     (case ss_phase ss of
        Accepting \<Rightarrow> if ss_listening ss then None else Some (accept_turn lay None ss)
      | Handing_over _ \<Rightarrow>
          (case ss_args ss of
             Some args \<Rightarrow> if ag_ready_sig args \<in> ss_raised ss then Some (handed_over ss) else None
           | None \<Rightarrow> None)
      | Draining \<Rightarrow> drain_turn ss
      | Joining_exit_handler \<Rightarrow>
          if ss_should_terminate ss then Some (ss\<lparr>ss_phase := Server_returned 0\<rparr>) else None
      | Server_returned _ \<Rightarrow> None)"

text \<open>While the socket listens, \<open>bio_net_accept\<close> may give a client or an error; once it is closed, it may still give
  a client that came before.\<close>

inductive server_step :: "bhash_layout \<Rightarrow> socket_server \<Rightarrow> socket_server \<Rightarrow> bool" for lay where
  server_accept: "ss_phase ss = Accepting \<Longrightarrow> sig \<notin> ss_raised ss \<Longrightarrow> c \<notin> ss_running ss \<Longrightarrow>
     server_step lay ss (accept_turn lay (Some (client, sig, c)) ss)"
| server_accept_error: "ss_phase ss = Accepting \<Longrightarrow> server_step lay ss (accept_turn lay None ss)"
| server_goes_on: "server_turn lay ss = Some ss' \<Longrightarrow> server_step lay ss ss'"
| server_client_start: "c \<in> ss_running ss \<Longrightarrow> c \<notin> dom (ss_copied ss) \<Longrightarrow>
     server_step lay ss (ls_wrapper_start c ss)"
| server_client_end: "c \<in> ss_running ss \<Longrightarrow> c \<in> dom (ss_copied ss) \<Longrightarrow>
     server_step lay ss (ls_wrapper_end lay c ss)"
| server_exit_signal: "\<not> ss_should_terminate ss \<Longrightarrow> (\<forall>code. ss_phase ss \<noteq> Server_returned code) \<Longrightarrow>
     server_step lay ss (exit_handler ss)"

abbreviation server_reach :: "bhash_layout \<Rightarrow> socket_server \<Rightarrow> socket_server \<Rightarrow> bool" where
  "server_reach lay \<equiv> (server_step lay)\<^sup>*\<^sup>*"

inductive_cases server_stepE: "server_step lay ss ss'"

end
