(* ===== verification/Entry_Props.thy ===== *)
theory Entry_Props
  imports Entry
begin

text \<open>
  The socket server: the set of clients is the set of running sessions, every client's coroutine gets the
  arguments that were meant for it, and after the exit signal the server returns when the
  sessions have ended.
\<close>

section \<open>The set of clients\<close>

text \<open>The clients are the running sessions, and all but the one that is being handed over have started; the
  one that has not will read its own arguments and raise the signal that the accept loop waits
  for. Once the clients have been joined none runs, and 0 is returned only after the exit signal.\<close>

definition clients_inv :: "socket_server \<Rightarrow> bool" where
  "clients_inv ss \<longleftrightarrow>
     bhash_inv (ss_clients ss) \<and> set (bhash_keys (ss_clients ss)) = ss_running ss \<and>
     (ss_should_terminate ss \<longrightarrow> \<not> ss_listening ss) \<and>
     (\<forall>c \<in> ss_running ss. c \<notin> dom (ss_copied ss) \<longrightarrow> ss_phase ss = Handing_over c) \<and>
     (case ss_phase ss of
        Handing_over c \<Rightarrow> (\<exists>args. ss_args ss = Some args \<and>
          (ag_ready_sig args \<in> ss_raised ss \<longleftrightarrow> c \<in> dom (ss_copied ss)) \<and>
          (c \<notin> dom (ss_copied ss) \<longrightarrow> c \<in> ss_running ss))
      | Joining_exit_handler \<Rightarrow> ss_running ss = {}
      | Server_returned code \<Rightarrow> ss_running ss = {} \<and> (code = 0 \<longleftrightarrow> ss_should_terminate ss)
      | _ \<Rightarrow> True)"

lemma server_entry_inv: "clients_inv (server_entry listening)"
  by (simp add: clients_inv_def server_entry_def bhash_keys_def)

lemma leave_loop_inv:
  assumes "clients_inv ss" and "\<forall>c \<in> ss_running ss. c \<in> dom (ss_copied ss)"
  shows "clients_inv (leave_loop ss)"
  using assms by (auto simp: clients_inv_def leave_loop_def)

lemma accept_turn_inv:
  assumes "clients_inv ss" and "ss_phase ss = Accepting"
    and "\<forall>client sig c. accepted = Some (client, sig, c) \<longrightarrow> sig \<notin> ss_raised ss"
  shows "clients_inv (accept_turn lay accepted ss)"
proof (cases accepted)
  case None
  with leave_loop_inv [OF assms(1)] assms show ?thesis by (auto simp: accept_turn_def clients_inv_def)
next
  case (Some a)
  with assms show ?thesis
    by (cases a) (auto simp: clients_inv_def accept_turn_def inv_put set_keys_put)
qed

lemma ls_wrapper_start_inv:
  assumes "clients_inv ss" and "c \<in> ss_running ss" and "c \<notin> dom (ss_copied ss)"
  shows "clients_inv (ls_wrapper_start c ss)"
proof -
  have phase: "ss_phase ss = Handing_over c" using assms by (simp add: clients_inv_def)
  with assms(1) obtain args where "ss_args ss = Some args" by (auto simp: clients_inv_def)
  then have start: "ls_wrapper_start c ss = ss\<lparr>ss_copied := (ss_copied ss)(c \<mapsto> args),
      ss_raised := insert (ag_ready_sig args) (ss_raised ss)\<rparr>" by (simp add: ls_wrapper_start_def)
  have "d = c" if "d \<in> ss_running ss" "d \<notin> dom (ss_copied ss)" for d
    using that assms(1) phase unfolding clients_inv_def by (metis server_phase.inject(1))
  then have all: "\<forall>d \<in> ss_running ss. d \<in> dom ((ss_copied ss)(c \<mapsto> args))" by auto
  from assms(1) show ?thesis
    unfolding clients_inv_def start using all phase \<open>ss_args ss = Some args\<close> by (simp del: dom_fun_upd) simp
qed

lemma ls_wrapper_end_inv:
  "clients_inv ss \<Longrightarrow> c \<in> dom (ss_copied ss) \<Longrightarrow> clients_inv (ls_wrapper_end lay c ss)"
  by (auto simp: clients_inv_def ls_wrapper_end_def inv_remove set_keys_remove split: server_phase.splits)

lemma drain_turn_eq:
  assumes "clients_inv ss"
  shows "drain_turn ss = (if ss_running ss = {} then Some (ss\<lparr>ss_phase := Joining_exit_handler\<rparr>) else None)"
proof (cases "bhash_keys (ss_clients ss)")
  case (Cons c cs)
  with assms have "c \<in> ss_running ss" by (auto simp: clients_inv_def)
  with Cons show ?thesis by (auto simp: drain_turn_def)
qed (use assms in \<open>simp add: clients_inv_def drain_turn_def\<close>)

lemma server_turn_inv:
  assumes "server_turn lay ss = Some ss'" and "clients_inv ss"
  shows "clients_inv ss'"
proof (cases "ss_phase ss")
  case Accepting
  with assms accept_turn_inv show ?thesis by (auto simp: server_turn_def split: if_splits)
next
  case (Handing_over c)
  with assms obtain args where a: "ss_args ss = Some args" "ag_ready_sig args \<in> ss_raised ss" "ss' = handed_over ss"
    by (auto simp: server_turn_def split: option.splits if_splits)
  with assms(2) Handing_over have "\<forall>c \<in> ss_running ss. c \<in> dom (ss_copied ss)" by (auto simp: clients_inv_def)
  with leave_loop_inv [OF assms(2)] assms(2) a(3) show ?thesis by (auto simp: handed_over_def clients_inv_def)
next
  case Draining
  with assms drain_turn_eq [OF assms(2)] show ?thesis by (auto simp: server_turn_def clients_inv_def split: if_splits)
next
  case Joining_exit_handler
  with assms show ?thesis by (auto simp: server_turn_def clients_inv_def split: if_splits)
qed (use assms in \<open>simp add: server_turn_def\<close>)


lemma server_step_inv:
  assumes "server_step lay ss ss'" and "clients_inv ss"
  shows "clients_inv ss'"
  using assms(1)
proof cases
  case server_exit_signal
  with assms(2) show ?thesis by (auto simp: clients_inv_def exit_handler_def split: server_phase.splits)
qed (use accept_turn_inv server_turn_inv ls_wrapper_start_inv ls_wrapper_end_inv assms(2) in blast)+

interpretation ss: step_system "server_step lay" clients_inv for lay
  by unfold_locales (fact server_step_inv)

text \<open>C33: The set of clients of the socket server is the set of the sessions that run, whatever
  order clients come and go in. So it returns 0 only when no session runs any more and the
  exit signal has come, and its join loop never waits for a coroutine that has ended: with a
  session it waits, without one it leaves the loop.\<close>

theorem server_joins_clients:
  assumes "server_reach lay (server_entry listening) ss"
  shows "set (bhash_keys (ss_clients ss)) = ss_running ss \<and>
    (ss_phase ss = Server_returned 0 \<longrightarrow> ss_running ss = {} \<and> ss_should_terminate ss) \<and>
    drain_turn ss = (if ss_running ss = {} then Some (ss\<lparr>ss_phase := Joining_exit_handler\<rparr>) else None)"
  using ss.reach_inv [OF assms server_entry_inv] drain_turn_eq by (auto simp: clients_inv_def)

section \<open>Shutting down\<close>

lemmas server_reach_one = reach_one [of "server_step lay" for lay]
lemmas server_reach_step = reach_step [of "server_step lay" for lay]

text \<open>After the exit signal every step brings the end nearer: a session starts and ends once, and the accept loop
  hands over one more client at the most.\<close>

definition phases_left :: "server_phase \<Rightarrow> nat" where
  "phases_left ph =
     (case ph of Accepting \<Rightarrow> 6 | Handing_over _ \<Rightarrow> 3 | Draining \<Rightarrow> 2 | Joining_exit_handler \<Rightarrow> 1 | Server_returned _ \<Rightarrow> 0)"

definition server_left :: "socket_server \<Rightarrow> nat" where
  "server_left ss =
     card (ss_running ss) + card (ss_running ss - dom (ss_copied ss)) + phases_left (ss_phase ss)"

definition shutting_down :: "socket_server \<Rightarrow> bool" where
  "shutting_down ss \<longleftrightarrow> clients_inv ss \<and> ss_should_terminate ss"

lemma running_finite: "clients_inv ss \<Longrightarrow> finite (ss_running ss)"
  by (metis clients_inv_def List.finite_set)

lemma accept_turn_left:
  assumes "clients_inv ss" and "ss_phase ss = Accepting" and "c \<notin> ss_running ss"
  shows "server_left (accept_turn lay (Some (client, sig, c)) ss) < server_left ss"
proof -
  have "ss_running ss - dom (ss_copied ss) = {}" using assms(1,2) by (auto simp: clients_inv_def)
  moreover from this have "insert c (ss_running ss) - dom ((ss_copied ss)(c := None)) = {c}" by auto
  ultimately show ?thesis
    using assms running_finite [OF assms(1)] by (simp add: server_left_def accept_turn_def phases_left_def)
qed

lemma ls_wrapper_start_left:
  assumes "clients_inv ss" and "c \<in> ss_running ss" and "c \<notin> dom (ss_copied ss)"
  shows "server_left (ls_wrapper_start c ss) < server_left ss"
proof -
  have "ss_phase ss = Handing_over c" using assms by (auto simp: clients_inv_def)
  with assms(1) obtain args where args: "ss_args ss = Some args" by (auto simp: clients_inv_def)
  have "ss_running ss - dom ((ss_copied ss)(c \<mapsto> args)) = (ss_running ss - dom (ss_copied ss)) - {c}" by auto
  moreover have "card ((ss_running ss - dom (ss_copied ss)) - {c}) < card (ss_running ss - dom (ss_copied ss))"
    by (rule card_Diff1_less) (use assms running_finite in auto)
  ultimately show ?thesis by (simp add: server_left_def ls_wrapper_start_def args del: dom_fun_upd)
qed

lemma ls_wrapper_end_left:
  assumes "clients_inv ss" and "c \<in> ss_running ss" and "c \<in> dom (ss_copied ss)"
  shows "server_left (ls_wrapper_end lay c ss) < server_left ss"
proof -
  have "ss_running ss - {c} - dom (ss_copied ss) = ss_running ss - dom (ss_copied ss)" using assms(3) by auto
  moreover have "card (ss_running ss - {c}) < card (ss_running ss)"
    by (rule card_Diff1_less) (use assms running_finite in auto)
  ultimately show ?thesis by (simp add: server_left_def ls_wrapper_end_def)
qed

lemma server_turn_left:
  assumes "server_turn lay ss = Some ss'" and "shutting_down ss"
  shows "server_left ss' < server_left ss"
  using assms drain_turn_eq [of ss]
  by (auto simp: server_turn_def shutting_down_def server_left_def phases_left_def accept_turn_def leave_loop_def
      handed_over_def split: server_phase.splits option.splits if_splits)

lemma shutting_down_step:
  assumes "server_step lay ss ss'" and "shutting_down ss"
  shows "shutting_down ss'" and "server_left ss' < server_left ss"
proof -
  have inv: "clients_inv ss" and going: "ss_should_terminate ss" using assms(2) by (simp_all add: shutting_down_def)
  have "ss_should_terminate ss'"
    using assms(1) going
    by cases (auto simp: accept_turn_def leave_loop_def handed_over_def ls_wrapper_start_def ls_wrapper_end_def
        server_turn_def drain_turn_def exit_handler_def split: server_phase.splits option.splits list.splits if_splits)
  with server_step_inv [OF assms(1) inv] show "shutting_down ss'" by (simp add: shutting_down_def)
  show "server_left ss' < server_left ss"
    using assms(1)
  proof cases
    case server_accept_error
    then show ?thesis by (simp add: accept_turn_def leave_loop_def server_left_def phases_left_def)
  qed (use accept_turn_left server_turn_left ls_wrapper_start_left ls_wrapper_end_left inv going assms(2) in blast)+
qed

interpretation sd: bounded_system "server_step lay" shutting_down server_left for lay
  by unfold_locales (fact shutting_down_step)+

text \<open>The client whose coroutine the server waits for.\<close>

definition awaited :: "socket_server \<Rightarrow> nat option" where
  "awaited ss =
     (case ss_phase ss of
        Handing_over c \<Rightarrow> Some c
      | Draining \<Rightarrow> (case bhash_keys (ss_clients ss) of [] \<Rightarrow> None | c # _ \<Rightarrow> Some c)
      | _ \<Rightarrow> None)"

lemma server_turn_or_awaited:
  assumes sd: "shutting_down ss"
  shows "ss_phase ss = Server_returned 0 \<or> server_turn lay ss \<noteq> None \<or>
     (\<exists>c \<in> ss_running ss. awaited ss = Some c \<and>
        (if c \<in> dom (ss_copied ss) then ss_phase ss = Draining
         else server_turn lay (ls_wrapper_start c ss) \<noteq> None))"
proof (cases "ss_phase ss")
  case (Handing_over c)
  with sd obtain args where args: "ss_args ss = Some args"
      "ag_ready_sig args \<in> ss_raised ss \<longleftrightarrow> c \<in> dom (ss_copied ss)" "c \<notin> dom (ss_copied ss) \<longrightarrow> c \<in> ss_running ss"
    by (auto simp: shutting_down_def clients_inv_def)
  show ?thesis
  proof (cases "c \<in> dom (ss_copied ss)")
    case True
    with args Handing_over show ?thesis by (simp add: server_turn_def)
  next
    case False
    with args Handing_over have "c \<in> ss_running ss" "awaited ss = Some c"
      "server_turn lay (ls_wrapper_start c ss) \<noteq> None"
      by (simp_all add: awaited_def server_turn_def ls_wrapper_start_def)
    with False show ?thesis by auto
  qed
next
  case Draining
  show ?thesis
  proof (cases "bhash_keys (ss_clients ss)")
    case Nil
    with Draining show ?thesis by (simp add: server_turn_def drain_turn_def)
  next
    case (Cons c cs)
    with sd Draining have "c \<in> ss_running ss" "c \<in> dom (ss_copied ss)" "awaited ss = Some c"
      by (auto simp: shutting_down_def clients_inv_def awaited_def)
    with Draining show ?thesis by auto
  qed
qed (use sd in \<open>auto simp: shutting_down_def clients_inv_def server_turn_def\<close>)

text \<open>C34: Once the exit signal has been handled the server cannot run on, and cannot hang but for its clients.
  Whatever it was doing, it and its clients make at most two steps for each session that runs and six
  more. Until it has returned 0 it can go on by itself, so it never waits for the network again, or
  it waits for one client whose coroutine has not ended: in the join loop, or because that coroutine has not
  started, and then its start raises the very signal that the server waits for.\<close>

theorem server_shuts_down:
  assumes "server_reach lay (server_entry listening) ss" and "ss_should_terminate ss"
  shows "(\<forall>n ss'. (server_step lay ^^ n) ss ss' \<longrightarrow> n \<le> 2 * card (ss_running ss) + 6) \<and>
    (ss_phase ss = Server_returned 0 \<or> server_turn lay ss \<noteq> None \<or>
     (\<exists>c \<in> ss_running ss. awaited ss = Some c \<and>
        (if c \<in> dom (ss_copied ss) then ss_phase ss = Draining
         else server_turn lay (ls_wrapper_start c ss) \<noteq> None)))"
proof -
  have sd: "shutting_down ss"
    using ss.reach_inv [OF assms(1) server_entry_inv] assms(2) by (simp add: shutting_down_def)
  have "card (ss_running ss - dom (ss_copied ss)) \<le> card (ss_running ss)"
    by (rule card_mono) (use sd running_finite in \<open>auto simp: shutting_down_def\<close>)
  then have "server_left ss \<le> 2 * card (ss_running ss) + 6"
    by (simp add: server_left_def phases_left_def split: server_phase.split)
  then have bound: "\<forall>n ss'. (server_step lay ^^ n) ss ss' \<longrightarrow> n \<le> 2 * card (ss_running ss) + 6"
    using sd.steps_bound [OF _ sd] by fastforce
  show ?thesis
    using bound server_turn_or_awaited [OF sd, of lay] by blast
qed

text \<open>Two clients come, one leaves, and the server is told to exit.\<close>

definition demo_clients :: socket_server where
  "demo_clients = exit_handler (ls_wrapper_end append_layout 1 (handed_over (ls_wrapper_start 2
     (accept_turn append_layout (Some (11, 21, 2)) (handed_over (ls_wrapper_start 1
       (accept_turn append_layout (Some (10, 20, 1)) (server_entry True))))))))"

lemmas demo_clients_simps = server_entry_def accept_turn_def ls_wrapper_start_def handed_over_def ls_wrapper_end_def
  exit_handler_def server_turn_def

lemma demo_clients_reach: "server_reach append_layout (server_entry True) demo_clients"
proof -
  let ?s1 = "accept_turn append_layout (Some (10, 20, 1)) (server_entry True)"
  let ?s2 = "ls_wrapper_start 1 ?s1"
  let ?s3 = "handed_over ?s2"
  let ?s4 = "accept_turn append_layout (Some (11, 21, 2)) ?s3"
  let ?s5 = "ls_wrapper_start 2 ?s4"
  let ?s6 = "handed_over ?s5"
  let ?s7 = "ls_wrapper_end append_layout 1 ?s6"
  have "server_step append_layout (server_entry True) ?s1"
    by (rule server_accept) (simp_all add: demo_clients_simps)
  then have 1: "server_reach append_layout (server_entry True) ?s1" by (rule server_reach_one)
  have "server_step append_layout ?s1 ?s2" by (rule server_client_start) (simp_all add: demo_clients_simps)
  note 2 = server_reach_step [OF 1 this]
  have "server_step append_layout ?s2 ?s3" by (rule server_goes_on) (simp add: demo_clients_simps)
  note 3 = server_reach_step [OF 2 this]
  have "server_step append_layout ?s3 ?s4" by (rule server_accept) (simp_all add: demo_clients_simps)
  note 4 = server_reach_step [OF 3 this]
  have "server_step append_layout ?s4 ?s5" by (rule server_client_start) (simp_all add: demo_clients_simps)
  note 5 = server_reach_step [OF 4 this]
  have "server_step append_layout ?s5 ?s6" by (rule server_goes_on) (simp add: demo_clients_simps)
  note 6 = server_reach_step [OF 5 this]
  have "server_step append_layout ?s6 ?s7" by (rule server_client_end) (simp_all add: demo_clients_simps)
  note 7 = server_reach_step [OF 6 this]
  have "server_step append_layout ?s7 demo_clients"
    unfolding demo_clients_def by (rule server_exit_signal) (simp_all add: demo_clients_simps)
  from server_reach_step [OF 7 this] show ?thesis .
qed

lemma demo_clients_sel:
  "ss_phase demo_clients = Accepting" "ss_running demo_clients = {2}" "ss_should_terminate demo_clients"
  by (auto simp: demo_clients_def demo_clients_simps)

theorem server_joins_clients_witness:
  "server_reach append_layout (server_entry True) demo_clients \<and>
   ss_running demo_clients = {2} \<and> set (bhash_keys (ss_clients demo_clients)) = {2} \<and> drain_turn demo_clients = None"
  using server_joins_clients [OF demo_clients_reach] by (simp add: demo_clients_reach demo_clients_sel)

theorem server_shuts_down_witness:
  "server_reach append_layout (server_entry True) demo_clients \<and> server_turn append_layout demo_clients \<noteq> None \<and>
   (\<nexists>n ss'. (server_step append_layout ^^ n) demo_clients ss' \<and> 8 < n)"
  using server_shuts_down [OF demo_clients_reach demo_clients_sel(3)]
  by (fastforce simp: demo_clients_reach demo_clients_sel awaited_def)

end
