(* ===== verification/System.thy ===== *)
theory System
  imports Ls_Async Entry_Props
begin

text \<open>
  The socket server together with the sessions it runs (\<open>server_entry\<close> and \<open>ls_wrapper\<close> of
  \<open>src/src/server.c\<close> around \<open>buxn_ls\<close> of \<open>src/src/ls.c\<close>). Sockets are handed to coroutines through the one
  variable \<open>args\<close> of the accept loop; a coroutine talks to the socket that it has copied from there. Steps of
  clients and of the server interleave freely, and a coroutine ends when its session has.

  \<open>wire\<close> is the world outside: what the client at the other end of a socket sends, and how its side of
  the connection behaves. A socket that \<open>bio_net_accept\<close> gives is none that it gave before.
\<close>

section \<open>The system\<close>

text \<open>\<open>sy_sessions\<close> holds the session of every coroutine that was ever started, the last one where a
  coroutine's handle is used again; \<open>sy_sockets\<close>, which the program does not have, is the socket that was
  accepted when the coroutine was spawned.\<close>

record buxn_system =
  sy_server :: socket_server
  sy_sockets :: "nat \<rightharpoonup> nat"
  sy_sessions :: "nat \<rightharpoonup> session"


definition spawn_client :: "bhash_layout \<Rightarrow> nat \<Rightarrow> nat \<Rightarrow> nat \<Rightarrow> buxn_system \<Rightarrow> buxn_system" where
  "spawn_client lay client sig c sy =
     sy\<lparr>sy_server := accept_turn lay (Some (client, sig, c)) (sy_server sy),
        sy_sockets := (sy_sockets sy)(c \<mapsto> client), sy_sessions := (sy_sessions sy)(c := None)\<rparr>"

text \<open>\<open>ls_wrapper\<close> starts \<open>buxn_ls\<close> on buffers for the socket in its copy of the arguments.\<close>

definition wire_session :: "(nat \<Rightarrow> string \<times> out_channel) \<Rightarrow> nat \<Rightarrow> session" where
  "wire_session wire client = idle (server_start (fst (wire client)) (snd (wire client)))"

definition start_client :: "(nat \<Rightarrow> string \<times> out_channel) \<Rightarrow> nat \<Rightarrow> buxn_system \<Rightarrow> buxn_system" where
  "start_client wire c sy =
     (let ss = ls_wrapper_start c (sy_server sy)
      in sy\<lparr>sy_server := ss,
            sy_sessions := (sy_sessions sy)(c := map_option (wire_session wire \<circ> ag_client) (ss_copied ss c))\<rparr>)"

inductive system_step ::
    "ls_api \<Rightarrow> bhash_layout \<Rightarrow> (nat \<Rightarrow> string \<times> out_channel) \<Rightarrow> buxn_system \<Rightarrow> buxn_system \<Rightarrow> bool"
  for api lay wire where
  sys_accept: "ss_phase (sy_server sy) = Accepting \<Longrightarrow> sig \<notin> ss_raised (sy_server sy) \<Longrightarrow>
     c \<notin> ss_running (sy_server sy) \<Longrightarrow> client \<notin> ran (sy_sockets sy) \<Longrightarrow>
     system_step api lay wire sy (spawn_client lay client sig c sy)"
| sys_accept_error: "ss_phase (sy_server sy) = Accepting \<Longrightarrow>
     system_step api lay wire sy (sy\<lparr>sy_server := accept_turn lay None (sy_server sy)\<rparr>)"
| sys_goes_on: "server_turn lay (sy_server sy) = Some ss' \<Longrightarrow> system_step api lay wire sy (sy\<lparr>sy_server := ss'\<rparr>)"
| sys_client_start: "c \<in> ss_running (sy_server sy) \<Longrightarrow> c \<notin> dom (ss_copied (sy_server sy)) \<Longrightarrow>
     system_step api lay wire sy (start_client wire c sy)"
| sys_session: "c \<in> ss_running (sy_server sy) \<Longrightarrow> sy_sessions sy c = Some se \<Longrightarrow> serial_step api se se' \<Longrightarrow>
     system_step api lay wire sy (sy\<lparr>sy_sessions := (sy_sessions sy)(c \<mapsto> se')\<rparr>)"
| sys_client_end: "c \<in> ss_running (sy_server sy) \<Longrightarrow> c \<in> dom (ss_copied (sy_server sy)) \<Longrightarrow>
     sy_sessions sy c = Some se \<Longrightarrow> sv_phase (se_server se) = Ended code \<Longrightarrow>
     system_step api lay wire sy (sy\<lparr>sy_server := ls_wrapper_end lay c (sy_server sy)\<rparr>)"
| sys_exit_signal: "\<not> ss_should_terminate (sy_server sy) \<Longrightarrow>
     (\<forall>code. ss_phase (sy_server sy) \<noteq> Server_returned code) \<Longrightarrow>
     system_step api lay wire sy (sy\<lparr>sy_server := exit_handler (sy_server sy)\<rparr>)"



section \<open>The system refines its parts\<close>

text \<open>Without its sessions the system is the server of \<open>Entry\<close>, or does nothing.\<close>

lemma system_step_server:
  assumes "system_step api lay wire sy sy'"
  shows "server_step lay (sy_server sy) (sy_server sy') \<or> sy_server sy' = sy_server sy"
  using assms
  by cases (auto simp: spawn_client_def start_client_def Let_def intro: server_step.intros)

text \<open>A coroutine has copied the arguments that were made for its socket, its session is the one of that socket, and
  sessions that are not running any more have ended.\<close>

definition sessions_ok :: "ls_api \<Rightarrow> (nat \<Rightarrow> string \<times> out_channel) \<Rightarrow> buxn_system \<Rightarrow> bool" where
  "sessions_ok api wire sy \<longleftrightarrow>
     clients_inv (sy_server sy) \<and> inj_on (sy_sockets sy) (dom (sy_sockets sy)) \<and>
     (\<forall>c \<in> dom (sy_sockets sy). c \<notin> ss_running (sy_server sy) \<longrightarrow> c \<in> dom (ss_copied (sy_server sy))) \<and>
     (\<forall>c. ss_phase (sy_server sy) = Handing_over c \<longrightarrow>
        map_option ag_client (ss_args (sy_server sy)) = sy_sockets sy c) \<and>
     (\<forall>c args. ss_copied (sy_server sy) c = Some args \<longrightarrow> sy_sockets sy c = Some (ag_client args) \<and>
        (\<exists>se. sy_sessions sy c = Some se \<and> (serial_step api)\<^sup>*\<^sup>* (wire_session wire (ag_client args)) se \<and>
           (c \<notin> ss_running (sy_server sy) \<longrightarrow> (\<exists>code. sv_phase (se_server se) = Ended code)))) \<and>
     (\<forall>c se. sy_sessions sy c = Some se \<longrightarrow> c \<in> dom (ss_copied (sy_server sy)))"

lemma sessions_okD:
  assumes "sessions_ok api wire sy" and "ss_copied (sy_server sy) c = Some args"
  obtains se where "sy_sockets sy c = Some (ag_client args)" "sy_sessions sy c = Some se"
    "(serial_step api)\<^sup>*\<^sup>* (wire_session wire (ag_client args)) se"
    "c \<notin> ss_running (sy_server sy) \<Longrightarrow> \<exists>code. sv_phase (se_server se) = Ended code"
  using assms unfolding sessions_ok_def by blast

lemma sessions_ok_server:
  assumes "sessions_ok api wire sy" and "clients_inv ss"
    and "ss_running ss = ss_running (sy_server sy)" and "ss_copied ss = ss_copied (sy_server sy)"
    and "\<forall>c. ss_phase ss \<noteq> Handing_over c \<or> ss_phase (sy_server sy) = Handing_over c \<and> ss_args ss = ss_args (sy_server sy)"
  shows "sessions_ok api wire (sy\<lparr>sy_server := ss\<rparr>)"
  using assms unfolding sessions_ok_def by (simp del: disj_not1) metis

lemma server_turn_frame:
  assumes "server_turn lay ss = Some ss'"
  shows "ss_running ss' = ss_running ss" and "ss_copied ss' = ss_copied ss" and "ss_phase ss' \<noteq> Handing_over c"
  using assms
  by (auto simp: server_turn_def accept_turn_def leave_loop_def handed_over_def drain_turn_def
      split: server_phase.splits option.splits list.splits if_splits)

lemma spawn_client_ok:
  assumes "sessions_ok api wire sy" and "ss_phase (sy_server sy) = Accepting" and "c \<notin> ss_running (sy_server sy)"
    and "client \<notin> ran (sy_sockets sy)" and "clients_inv (sy_server (spawn_client lay client sig c sy))"
  shows "sessions_ok api wire (spawn_client lay client sig c sy)"
proof -
  have "inj_on ((sy_sockets sy)(c \<mapsto> client)) (dom ((sy_sockets sy)(c \<mapsto> client)))"
    using assms(1,4) by (auto simp: sessions_ok_def inj_on_def ran_def)
  with assms show ?thesis
    by (auto simp: sessions_ok_def spawn_client_def accept_turn_def simp del: dom_fun_upd)
qed


lemma start_client_ok:
  assumes "sessions_ok api wire sy" and "c \<in> ss_running (sy_server sy)" and "c \<notin> dom (ss_copied (sy_server sy))"
  shows "sessions_ok api wire (start_client wire c sy)"
proof -
  have inv: "clients_inv (sy_server sy)" using assms(1) by (simp add: sessions_ok_def)
  have phase: "ss_phase (sy_server sy) = Handing_over c" using inv assms(2,3) by (auto simp: clients_inv_def)
  with inv obtain args where args: "ss_args (sy_server sy) = Some args" by (auto simp: clients_inv_def)
  with phase assms(1) have socket: "sy_sockets sy c = Some (ag_client args)" by (auto simp: sessions_ok_def)
  note start = ls_wrapper_start_inv [OF inv assms(2,3)]
  from assms(1) have rest: "inj_on (sy_sockets sy) (dom (sy_sockets sy))"
    "\<forall>c \<in> dom (sy_sockets sy). c \<notin> ss_running (sy_server sy) \<longrightarrow> c \<in> dom (ss_copied (sy_server sy))"
    "\<forall>c args. ss_copied (sy_server sy) c = Some args \<longrightarrow> sy_sockets sy c = Some (ag_client args) \<and>
        (\<exists>se. sy_sessions sy c = Some se \<and> (serial_step api)\<^sup>*\<^sup>* (wire_session wire (ag_client args)) se \<and>
           (c \<notin> ss_running (sy_server sy) \<longrightarrow> (\<exists>code. sv_phase (se_server se) = Ended code)))"
    "\<forall>c se. sy_sessions sy c = Some se \<longrightarrow> c \<in> dom (ss_copied (sy_server sy))"
    by (auto simp: sessions_ok_def)
  show ?thesis
    using start rest socket phase assms(2)
    by (auto simp: sessions_ok_def start_client_def ls_wrapper_start_def args)
qed

lemma session_ok:
  assumes "sessions_ok api wire sy" and "c \<in> ss_running (sy_server sy)" and "sy_sessions sy c = Some se"
    and "serial_step api se se'"
  shows "sessions_ok api wire (sy\<lparr>sy_sessions := (sy_sessions sy)(c \<mapsto> se')\<rparr>)"
proof -
  have "(serial_step api)\<^sup>*\<^sup>* (wire_session wire (ag_client args)) se'" if "ss_copied (sy_server sy) c = Some args" for args
    using sessions_okD [OF assms(1) that] assms(3,4) reach_step [of "serial_step api"] by (metis option.inject)
  with assms show ?thesis by (auto simp: sessions_ok_def)
qed

lemma client_end_ok:
  assumes "sessions_ok api wire sy" and "c \<in> ss_running (sy_server sy)" and "c \<in> dom (ss_copied (sy_server sy))"
    and "sy_sessions sy c = Some se" and "sv_phase (se_server se) = Ended code"
  shows "sessions_ok api wire (sy\<lparr>sy_server := ls_wrapper_end lay c (sy_server sy)\<rparr>)"
proof -
  have "clients_inv (ls_wrapper_end lay c (sy_server sy))"
    using ls_wrapper_end_inv assms(1,3) by (simp add: sessions_ok_def)
  moreover have "\<exists>se. sy_sessions sy d = Some se \<and> (serial_step api)\<^sup>*\<^sup>* (wire_session wire (ag_client args)) se \<and>
      ((d \<in> ss_running (sy_server sy) \<longrightarrow> d = c) \<longrightarrow> (\<exists>code. sv_phase (se_server se) = Ended code))"
    if "ss_copied (sy_server sy) d = Some args" for d args
    using sessions_okD [OF assms(1) that] assms(4,5) by (metis option.inject)
  ultimately show ?thesis using assms by (auto simp: sessions_ok_def ls_wrapper_end_def)
qed

lemma system_step_ok:
  assumes step: "system_step api lay wire sy sy'" and ok: "sessions_ok api wire sy"
  shows "sessions_ok api wire sy'"
proof -
  have "clients_inv (sy_server sy)" using ok by (simp add: sessions_ok_def)
  with system_step_server [OF step] have inv: "clients_inv (sy_server sy')" using server_step_inv by auto
  from step show ?thesis
  proof cases
    case (sys_accept sig c client)
    with spawn_client_ok [OF ok] inv show ?thesis by simp
  next
    case sys_accept_error
    with sessions_ok_server [OF ok] inv show ?thesis by (simp add: accept_turn_def leave_loop_def)
  next
    case (sys_goes_on ss')
    with sessions_ok_server [OF ok] server_turn_frame inv show ?thesis by simp
  next
    case sys_exit_signal
    with sessions_ok_server [OF ok] inv show ?thesis by (simp add: exit_handler_def)
  qed (use start_client_ok session_ok client_end_ok ok in blast)+
qed

interpretation sy: step_system "system_step api lay wire" "sessions_ok api wire" for api lay wire
  by unfold_locales (fact system_step_ok)


section \<open>The property\<close>


section \<open>A run of the system\<close>





end
