(* ===== verification/Shim.thy ===== *)
theory Shim
  imports Entry
begin

text \<open>
  The shim (\<open>src/src/shim.c\<close>): it connects to a socket server and forwards standard input to the socket
  and the socket to standard output, each in a loop of its own. \<open>shim_entry\<close> waits for the signal that
  either loop raises when it ends, closes the socket and returns. Which loop runs next is up to \<open>bio\<close>,
  so the shim is a step relation over the turns of the loops; a spawned loop does not run before
  \<open>shim_entry\<close> waits, so both are monitored before either can end.
\<close>

section \<open>The two loops\<close>

text \<open>
  A source of bytes: those still to come, and how many each read finds (at least one and at most the
  size of the buffer; where the script is at its end, all that fits). A read at the end gives nothing.
\<close>

record byte_source =
  bs_bytes :: string
  bs_sizes :: "nat list"

definition BUF_SIZE :: nat where "BUF_SIZE = 1024"

definition read_some :: "byte_source \<Rightarrow> string \<times> byte_source" where
  "read_some src =
     (let n = (case bs_sizes src of [] \<Rightarrow> BUF_SIZE | k # _ \<Rightarrow> min BUF_SIZE (Suc k))
      in (take n (bs_bytes src),
          \<lparr>bs_bytes = drop n (bs_bytes src), bs_sizes = tl (bs_sizes src)\<rparr>))"

lemma read_some_shorter:
  "read_some src = (buf, src') \<Longrightarrow> buf \<noteq> [] \<Longrightarrow> length (bs_bytes src') < length (bs_bytes src)"
  by (auto simp: read_some_def BUF_SIZE_def Let_def split: list.splits)

text \<open>\<open>shim_stdin\<close> and \<open>shim_stdout\<close> are the same loop over different ends: read some bytes, stop at
  none, write them, stop at a failure.\<close>

function shim_pump :: "byte_source \<Rightarrow> out_channel \<Rightarrow> out_channel" where
  "shim_pump src ch =
     (case read_some src of (buf, src') \<Rightarrow>
        if length buf = 0 then ch
        else (case write_exactly ch buf of
                (True, ch') \<Rightarrow> shim_pump src' ch'
              | (False, ch') \<Rightarrow> ch'))"
  by pat_completeness auto

termination
  by (relation "measure (\<lambda>(src, ch). length (bs_bytes src))") (auto dest: read_some_shorter [OF sym])

declare shim_pump.simps [simp del]

section \<open>The shim\<close>

record pump =
  pu_src :: byte_source
  pu_out :: out_channel
  pu_ended :: bool

text \<open>One turn of a loop.\<close>

definition pump_turn :: "pump \<Rightarrow> pump" where
  "pump_turn pu =
     (case read_some (pu_src pu) of (buf, src') \<Rightarrow>
        if length buf = 0 then pu\<lparr>pu_src := src', pu_ended := True\<rparr>
        else (case write_exactly (pu_out pu) buf of
                (written, ch') \<Rightarrow> pu\<lparr>pu_src := src', pu_out := ch', pu_ended := \<not> written\<rparr>))"

datatype shim_phase = Shim_waiting | Shim_returned int

record shim =
  sh_phase :: shim_phase
  sh_stdin :: pump
  sh_stdout :: pump
  sh_signalled :: bool

text \<open>The start, up to the wait. If the socket cannot be connected the exit code is that of
  \<open>buxn_ls_stdio\<close> (\<open>stdio\<close>), or 1 without \<open>fallback\<close>.\<close>

definition shim_entry :: "bool \<Rightarrow> bool \<Rightarrow> int \<Rightarrow> pump \<Rightarrow> pump \<Rightarrow> shim" where
  "shim_entry connected fallback stdio inp outp =
     \<lparr>sh_phase = (if \<not> connected then Shim_returned (if fallback then stdio else 1) else Shim_waiting),
      sh_stdin = inp, sh_stdout = outp, sh_signalled = False\<rparr>"

inductive shim_step :: "shim \<Rightarrow> shim \<Rightarrow> bool" where
  step_stdin: "sh_phase s = Shim_waiting \<Longrightarrow> \<not> pu_ended (sh_stdin s) \<Longrightarrow> pu = pump_turn (sh_stdin s) \<Longrightarrow>
     shim_step s (s\<lparr>sh_stdin := pu, sh_signalled := sh_signalled s \<or> pu_ended pu\<rparr>)"
| step_stdout: "sh_phase s = Shim_waiting \<Longrightarrow> \<not> pu_ended (sh_stdout s) \<Longrightarrow> pu = pump_turn (sh_stdout s) \<Longrightarrow>
     shim_step s (s\<lparr>sh_stdout := pu, sh_signalled := sh_signalled s \<or> pu_ended pu\<rparr>)"
| step_wake: "sh_phase s = Shim_waiting \<Longrightarrow> sh_signalled s \<Longrightarrow>
     shim_step s (s\<lparr>sh_phase := Shim_returned 0\<rparr>)"

inductive_cases shim_stepE: "shim_step s s'"

section \<open>What a loop forwards\<close>

lemma read_some_take:
  assumes "read_some src = (buf, src')"
  shows "buf @ bs_bytes src' = bs_bytes src" "buf = [] \<longleftrightarrow> bs_bytes src = []"
  using assms by (auto simp: read_some_def BUF_SIZE_def Let_def split: list.splits)

lemma write_exactly_cases:
  obtains (written) ch' where "write_exactly ch buf = (True, ch')" "o_sent ch' = o_sent ch @ buf"
      "set (o_script ch') \<subseteq> set (o_script ch)"
  | (failed) n ch' where "write_exactly ch buf = (False, ch')" "o_sent ch' = o_sent ch @ take n buf"
      "Some n \<in> set (o_script ch)"
proof (cases "o_script ch")
  case (Cons s sc)
  then show thesis
    by (cases s) (auto simp: write_exactly_def intro: that)
qed (auto simp: write_exactly_def intro: that)

text \<open>A loop alone forwards the bytes it reads, in order and without a gap, however they are cut into
  reads: what it has sent is a prefix of what came, and all of it if no write fails.\<close>

theorem shim_forwards:
  "\<exists>n. o_sent (shim_pump src ch) = o_sent ch @ take n (bs_bytes src) \<and>
    (set (o_script ch) \<subseteq> {None} \<longrightarrow> length (bs_bytes src) \<le> n)"
proof (induction src ch rule: shim_pump.induct)
  case (1 src ch)
  obtain buf src' where r: "read_some src = (buf, src')" by fastforce
  note t = read_some_take [OF r]
  show ?case
  proof (cases "buf = []")
    case True
    with r t show ?thesis by (simp add: shim_pump.simps [of src ch])
  next
    case False
    show ?thesis
    proof (cases rule: write_exactly_cases [of ch buf])
      case (written ch')
      from "1.IH" [OF r [symmetric] _ written(1) [symmetric]] False obtain n where
        n: "o_sent (shim_pump src' ch') = o_sent ch' @ take n (bs_bytes src')"
        "set (o_script ch') \<subseteq> {None} \<longrightarrow> length (bs_bytes src') \<le> n" by auto
      show ?thesis
      proof (intro exI [of _ "length buf + n"] conjI impI)
        show "o_sent (shim_pump src ch) = o_sent ch @ take (length buf + n) (bs_bytes src)"
          using False r written(1,2) n(1) by (simp add: shim_pump.simps [of src ch] t(1) [symmetric])
        show "length (bs_bytes src) \<le> length buf + n" if "set (o_script ch) \<subseteq> {None}"
          using that written(3) n(2) by (auto simp: t(1) [symmetric])
      qed
    next
      case (failed n ch')
      have "o_sent (shim_pump src ch) = o_sent ch @ take (min n (length buf)) (bs_bytes src)"
        using False r failed(1,2) by (simp add: shim_pump.simps [of src ch] t(1) [symmetric] min_def)
      with failed(3) show ?thesis by blast
    qed
  qed
qed

theorem shim_forwards_witness:
  "o_sent (shim_pump \<lparr>bs_bytes = ''abcdef'', bs_sizes = [1, 0]\<rparr> \<lparr>o_sent = ''>'', o_script = [None]\<rparr>) = ''>abcdef''"
  using shim_forwards [of "\<lparr>bs_bytes = ''abcdef'', bs_sizes = [1, 0]\<rparr>" "\<lparr>o_sent = ''>'', o_script = [None]\<rparr>"]
  by auto

lemma shim_pump_all:
  "set (o_script ch) \<subseteq> {None} \<Longrightarrow> o_sent (shim_pump src ch) = o_sent ch @ bs_bytes src"
  using shim_forwards [of src ch] by auto

section \<open>What the shim forwards\<close>

text \<open>What is left to do decides the outcome: the turns of a loop that has not ended end in the result of
  the loop.\<close>

definition pump_result :: "pump \<Rightarrow> out_channel" where
  "pump_result pu = (if pu_ended pu then pu_out pu else shim_pump (pu_src pu) (pu_out pu))"

lemma pump_turn_result: "\<not> pu_ended pu \<Longrightarrow> pump_result (pump_turn pu) = pump_result pu"
  by (auto simp: pump_result_def pump_turn_def shim_pump.simps [of "pu_src pu" "pu_out pu"] split: prod.split)

definition forwarded :: "pump \<Rightarrow> pump \<Rightarrow> bool" where
  "forwarded pu0 pu \<longleftrightarrow>
     (\<exists>n. o_sent (pu_out pu) = o_sent (pu_out pu0) @ take n (bs_bytes (pu_src pu0)) \<and>
        (pu_ended pu \<or> bs_bytes (pu_src pu) = drop n (bs_bytes (pu_src pu0))))"

lemma pump_turn_forwarded:
  assumes "forwarded pu0 pu" and "\<not> pu_ended pu"
  shows "forwarded pu0 (pump_turn pu)"
proof -
  from assms obtain n where n: "o_sent (pu_out pu) = o_sent (pu_out pu0) @ take n (bs_bytes (pu_src pu0))"
    "bs_bytes (pu_src pu) = drop n (bs_bytes (pu_src pu0))" by (auto simp: forwarded_def)
  obtain buf src' where r: "read_some (pu_src pu) = (buf, src')" by fastforce
  note t = read_some_take [OF r]
  have part: "take n (bs_bytes (pu_src pu0)) @ take k buf = take (n + min k (length buf)) (bs_bytes (pu_src pu0))" for k
    by (simp add: take_add t(1) [symmetric] n(2) [symmetric] min_def)
  show ?thesis
  proof (cases "buf = []")
    case True
    with n r show ?thesis by (auto simp: forwarded_def pump_turn_def)
  next
    case False
    have d: "drop (n + length buf) (bs_bytes (pu_src pu0)) = bs_bytes src'"
      by (simp add: add.commute [of n] drop_drop [symmetric] n(2) [symmetric] t(1) [symmetric])
    show ?thesis
    proof (cases rule: write_exactly_cases [of "pu_out pu" buf])
      case (written ch')
      with False r n(1) d part [of "length buf"] show ?thesis
        by (auto simp: forwarded_def pump_turn_def intro!: exI [of _ "n + length buf"])
    next
      case (failed k ch')
      with False r n(1) part [of k] show ?thesis
        by (auto simp: forwarded_def pump_turn_def intro!: exI [of _ "n + min k (length buf)"])
    qed
  qed
qed

text \<open>The invariant, relative to the loops at the start.\<close>

definition relays :: "pump \<Rightarrow> pump \<Rightarrow> shim \<Rightarrow> bool" where
  "relays inp outp s \<longleftrightarrow>
     forwarded inp (sh_stdin s) \<and> forwarded outp (sh_stdout s) \<and>
     pump_result (sh_stdin s) = pump_result inp \<and> pump_result (sh_stdout s) = pump_result outp \<and>
     sh_signalled s = (pu_ended (sh_stdin s) \<or> pu_ended (sh_stdout s)) \<and>
     (\<forall>code. sh_phase s = Shim_returned code \<longrightarrow> code = 0 \<and> sh_signalled s)"

lemma shim_step_relays: "shim_step s s' \<Longrightarrow> relays inp outp s \<Longrightarrow> relays inp outp s'"
  by (elim shim_stepE) (auto simp: relays_def pump_turn_forwarded pump_turn_result)

lemma shim_entry_relays:
  "\<not> pu_ended inp \<Longrightarrow> \<not> pu_ended outp \<Longrightarrow> relays inp outp (shim_entry True fallback stdio inp outp)"
  by (auto simp: relays_def shim_entry_def forwarded_def intro: exI [of _ 0])

definition pump_left :: "pump \<Rightarrow> nat" where
  "pump_left pu = (if pu_ended pu then 0 else Suc (length (bs_bytes (pu_src pu))))"

definition shim_left :: "shim \<Rightarrow> nat" where
  "shim_left s = pump_left (sh_stdin s) + pump_left (sh_stdout s) + (if sh_phase s = Shim_waiting then 1 else 0)"

lemma pump_turn_left: "\<not> pu_ended pu \<Longrightarrow> pump_left (pump_turn pu) < pump_left pu"
  by (auto simp: pump_left_def pump_turn_def split: prod.split dest: read_some_shorter)

lemma shim_step_left: "shim_step s s' \<Longrightarrow> shim_left s' < shim_left s"
  by (elim shim_stepE) (auto simp: shim_left_def dest: pump_turn_left)

interpretation sh: bounded_system shim_step "relays inp outp" shim_left for inp outp
  by unfold_locales (auto intro: shim_step_relays shim_step_left)

text \<open>While it waits the shim can go on: a loop runs, or the signal has come.\<close>

lemma shim_stuck_iff:
  assumes "relays inp outp s"
  shows "(\<nexists>s'. shim_step s s') \<longleftrightarrow> sh_phase s \<noteq> Shim_waiting"
proof
  assume stuck: "\<nexists>s'. shim_step s s'"
  show "sh_phase s \<noteq> Shim_waiting"
  proof
    assume w: "sh_phase s = Shim_waiting"
    with stuck step_stdin [OF w _ refl] step_wake [OF w] assms show False by (auto simp: relays_def)
  qed
qed (auto elim: shim_stepE)

text \<open>C40: At every moment the shim has forwarded, in each direction, the first part of what came in, in order
  and without a gap, and a loop that has ended has forwarded what it would forward alone; that is everything
  where no write fails. The shim returns 0 after one of the two loops has ended and not before. It makes
  at most one step per byte and three more, and is stuck only once it has returned.\<close>

theorem shim_relays:
  assumes "\<not> pu_ended inp" and "\<not> pu_ended outp"
    and "(shim_step ^^ n) (shim_entry True fallback stdio inp outp) s"
  shows "(\<exists>k. o_sent (pu_out (sh_stdin s)) = o_sent (pu_out inp) @ take k (bs_bytes (pu_src inp))) \<and>
    (\<exists>k. o_sent (pu_out (sh_stdout s)) = o_sent (pu_out outp) @ take k (bs_bytes (pu_src outp))) \<and>
    (pu_ended (sh_stdin s) \<longrightarrow> pu_out (sh_stdin s) = shim_pump (pu_src inp) (pu_out inp)) \<and>
    (pu_ended (sh_stdout s) \<longrightarrow> pu_out (sh_stdout s) = shim_pump (pu_src outp) (pu_out outp)) \<and>
    (pu_ended (sh_stdin s) \<and> set (o_script (pu_out inp)) \<subseteq> {None} \<longrightarrow>
       o_sent (pu_out (sh_stdin s)) = o_sent (pu_out inp) @ bs_bytes (pu_src inp)) \<and>
    (pu_ended (sh_stdout s) \<and> set (o_script (pu_out outp)) \<subseteq> {None} \<longrightarrow>
       o_sent (pu_out (sh_stdout s)) = o_sent (pu_out outp) @ bs_bytes (pu_src outp)) \<and>
    (\<forall>code. sh_phase s = Shim_returned code \<longrightarrow> code = 0 \<and> (pu_ended (sh_stdin s) \<or> pu_ended (sh_stdout s))) \<and>
    n \<le> length (bs_bytes (pu_src inp)) + length (bs_bytes (pu_src outp)) + 3 \<and>
    ((\<nexists>s'. shim_step s s') \<longleftrightarrow> sh_phase s \<noteq> Shim_waiting)"
proof -
  note start = shim_entry_relays [OF assms(1,2), of fallback stdio]
  note inv = sh.steps_inv [OF assms(3) start]
  have "n + shim_left s \<le> shim_left (shim_entry True fallback stdio inp outp)" by (rule sh.steps_bound [OF assms(3) start])
  moreover have "shim_left (shim_entry True fallback stdio inp outp) =
      length (bs_bytes (pu_src inp)) + length (bs_bytes (pu_src outp)) + 3"
    by (simp add: shim_left_def pump_left_def shim_entry_def assms(1,2))
  ultimately show ?thesis
    using inv shim_stuck_iff [OF inv] assms(1,2) by (auto simp: relays_def forwarded_def pump_result_def shim_pump_all)
qed

text \<open>The end of standard input ends the shim, and what the server has not sent by then is lost: here the
  loop that would forward it has not run yet.\<close>

definition demo_pump :: "string \<Rightarrow> pump" where
  "demo_pump s = \<lparr>pu_src = \<lparr>bs_bytes = s, bs_sizes = []\<rparr>, pu_out = \<lparr>o_sent = [], o_script = []\<rparr>, pu_ended = False\<rparr>"

lemma demo_shim_runs:
  "\<exists>s. (shim_step ^^ 3) (shim_entry True False 0 (demo_pump ''ab'') (demo_pump ''cd'')) s \<and>
     sh_phase s = Shim_returned 0 \<and> sh_stdout s = demo_pump ''cd''"
proof -
  let ?s0 = "shim_entry True False 0 (demo_pump ''ab'') (demo_pump ''cd'')"
  let ?p1 = "pump_turn (demo_pump ''ab'')" let ?p2 = "pump_turn ?p1"
  let ?s1 = "?s0\<lparr>sh_stdin := ?p1\<rparr>" let ?s2 = "?s0\<lparr>sh_stdin := ?p2, sh_signalled := True\<rparr>"
  note defs = shim_entry_def demo_pump_def pump_turn_def read_some_def BUF_SIZE_def write_exactly_def
  have "shim_step ?s0 ?s1" using step_stdin [of ?s0 ?p1] by (simp add: defs)
  moreover have "shim_step ?s1 ?s2" using step_stdin [of ?s1 ?p2] by (simp add: defs)
  moreover have "shim_step ?s2 (?s2\<lparr>sh_phase := Shim_returned 0\<rparr>)" by (rule step_wake) (simp_all add: defs)
  ultimately have "(shim_step ^^ 3) ?s0 (?s2\<lparr>sh_phase := Shim_returned 0\<rparr>)"
    by (auto simp: eval_nat_numeral intro!: relcomppI)
  then show ?thesis by (rule_tac exI, intro conjI, assumption) (simp_all add: defs)
qed

theorem shim_relays_witness:
  "\<exists>s. (shim_step ^^ 3) (shim_entry True False 0 (demo_pump ''ab'') (demo_pump ''cd'')) s \<and>
     sh_phase s = Shim_returned 0 \<and> (pu_ended (sh_stdin s) \<or> pu_ended (sh_stdout s)) \<and> (\<nexists>s'. shim_step s s')"
proof -
  from demo_shim_runs obtain s where s: "(shim_step ^^ 3) (shim_entry True False 0 (demo_pump ''ab'') (demo_pump ''cd'')) s"
    "sh_phase s = Shim_returned 0" by blast
  have "\<not> pu_ended (demo_pump ''ab'')" "\<not> pu_ended (demo_pump ''cd'')" by (simp_all add: demo_pump_def)
  from shim_relays [OF this s(1)] s show ?thesis by auto
qed

end
