(* ===== verification/Heap.thy ===== *)
theory Heap
  imports Prelude
begin

text \<open>
  The C heap behind \<open>buxn_ls_realloc\<close> (\<open>common.c\<close>) and the helpers over it (\<open>common.h\<close>): blocks of bytes
  at addresses, where a byte that was never written has no value. Freeing or touching what is not
  allocated is a fault. Where \<open>realloc\<close> places a block is not known: the allocator is a parameter, and
  all that is assumed of it (the type \<open>allocator\<close>) is that the address is not in use. Allocation
  succeeds.
\<close>

section \<open>Blocks\<close>

type_synonym addr = nat

type_synonym block = "char option list"

type_synonym heap = "addr \<rightharpoonup> block"

typedef allocator = "{f :: heap \<Rightarrow> addr. \<forall>h. finite (dom h) \<longrightarrow> h (f h) = None}"
  morphisms place Abs_allocator
proof -
  have "\<exists>p. finite (dom h) \<longrightarrow> h p = None" for h :: heap
    using ex_new_if_finite [OF infinite_UNIV_nat, of "dom h"] by (auto simp: domIff)
  then have "\<exists>f :: heap \<Rightarrow> addr. \<forall>h. finite (dom h) \<longrightarrow> h (f h) = None" by metis
  then show ?thesis by simp
qed

lemma place_free: "finite (dom h) \<Longrightarrow> h (place alc h) = None"
  using place [of alc] by simp

text \<open>One allocator: the address after the last one in use.\<close>

definition bump :: allocator where
  "bump = Abs_allocator (\<lambda>h. Suc (Max (insert 0 (dom h))))"

lemma place_bump: "place bump = (\<lambda>h. Suc (Max (insert 0 (dom h))))"
proof -
  have "h (Suc (Max (insert 0 (dom h)))) = None" if f: "finite (dom h)" for h :: heap
  proof (rule ccontr)
    assume "h (Suc (Max (insert 0 (dom h)))) \<noteq> None"
    then have "Suc (Max (insert 0 (dom h))) \<in> insert 0 (dom h)" by blast
    then have "Suc (Max (insert 0 (dom h))) \<le> Max (insert 0 (dom h))"
      using f by (intro Max_ge) auto
    then show False by simp
  qed
  then show ?thesis by (simp add: bump_def Abs_allocator_inverse)
qed

section \<open>The functions of the code\<close>

definition c_free :: "addr option \<Rightarrow> heap \<Rightarrow> heap outcome" where
  "c_free ptr h =
     (case ptr of
        None \<Rightarrow> Inr h
      | Some p \<Rightarrow> if h p = None then Inl Use_after_free else Inr (h(p := None)))"

text \<open>\<open>realloc\<close> for a size that is not 0. The contents move as far as they fit.\<close>

definition c_realloc :: "allocator \<Rightarrow> addr option \<Rightarrow> nat \<Rightarrow> heap \<Rightarrow> (addr option \<times> heap) outcome" where
  "c_realloc alc ptr n h =
     (case ptr of
        None \<Rightarrow> (let p = place alc h in Inr (Some p, h(p \<mapsto> replicate n None)))
      | Some q \<Rightarrow>
          (case h q of
             None \<Rightarrow> Inl Use_after_free
           | Some old \<Rightarrow>
               (let h1 = h(q := None); p = place alc h1
                in Inr (Some p, h1(p \<mapsto> take n old @ replicate (n - length old) None)))))"

definition buxn_ls_realloc :: "allocator \<Rightarrow> addr option \<Rightarrow> nat \<Rightarrow> heap \<Rightarrow> (addr option \<times> heap) outcome" where
  "buxn_ls_realloc alc ptr n h =
     (if n = 0 then obind (c_free ptr h) (\<lambda>h'. Inr (None, h')) else c_realloc alc ptr n h)"

definition buxn_ls_malloc :: "allocator \<Rightarrow> nat \<Rightarrow> heap \<Rightarrow> (addr option \<times> heap) outcome" where
  "buxn_ls_malloc alc n h = buxn_ls_realloc alc None n h"

definition buxn_ls_free :: "allocator \<Rightarrow> addr option \<Rightarrow> heap \<Rightarrow> heap outcome" where
  "buxn_ls_free alc ptr h = obind (buxn_ls_realloc alc ptr 0 h) (\<lambda>(r, h'). Inr h')"

text \<open>\<open>memcpy\<close> of a string to an offset in a block.\<close>

definition store_bytes :: "addr option \<Rightarrow> nat \<Rightarrow> string \<Rightarrow> heap \<Rightarrow> heap outcome" where
  "store_bytes ptr off s h =
     (case ptr of
        None \<Rightarrow> Inl Null_deref
      | Some p \<Rightarrow>
          (case h p of
             None \<Rightarrow> Inl Use_after_free
           | Some b \<Rightarrow>
               if off + length s \<le> length b
               then Inr (h(p \<mapsto> take off b @ map Some s @ drop (off + length s) b))
               else Inl Out_of_bounds))"

definition buxn_ls_strcpy :: "allocator \<Rightarrow> string \<Rightarrow> heap \<Rightarrow> (addr option \<times> heap) outcome" where
  "buxn_ls_strcpy alc str h =
     (let len = length (cstr str)
      in obind (buxn_ls_malloc alc (len + 1) h) (\<lambda>(copy, h1).
         obind (store_bytes copy 0 (cstr str @ [NUL]) h1) (\<lambda>h2. Inr (copy, h2))))"

text \<open>Reading a NUL-terminated string, and \<open>n\<close> bytes. A byte without a value is outside what was
  written.\<close>

definition load_cstr :: "addr option \<Rightarrow> heap \<Rightarrow> string outcome" where
  "load_cstr ptr h =
     (case ptr of
        None \<Rightarrow> Inl Null_deref
      | Some p \<Rightarrow>
          (case h p of
             None \<Rightarrow> Inl Use_after_free
           | Some b \<Rightarrow>
               (let s = takeWhile (\<lambda>c. c \<noteq> None \<and> c \<noteq> Some NUL) b
                in if length s < length b \<and> b ! length s = Some NUL then Inr (map the s)
                   else Inl Out_of_bounds)))"

definition load_bytes :: "addr option \<Rightarrow> nat \<Rightarrow> heap \<Rightarrow> string outcome" where
  "load_bytes ptr n h =
     (if n = 0 then Inr []
      else case ptr of
             None \<Rightarrow> Inl Null_deref
           | Some p \<Rightarrow>
               (case h p of
                  None \<Rightarrow> Inl Use_after_free
                | Some b \<Rightarrow>
                    if n \<le> length b \<and> None \<notin> set (take n b) then Inr (map the (take n b))
                    else Inl Out_of_bounds))"

text \<open>The comparison of a key of a table with a string that is looked up.\<close>

definition buxn_ls_str_eq :: "addr option \<Rightarrow> string \<Rightarrow> heap \<Rightarrow> bool outcome" where
  "buxn_ls_str_eq lhs rhs h = obind (load_cstr lhs h) (\<lambda>s. Inr (s = cstr rhs))"

section \<open>What they do\<close>

definition str_block :: "string \<Rightarrow> block" where
  "str_block s = map Some (s @ [NUL])"

lemma malloc_eq:
  "0 < n \<Longrightarrow> buxn_ls_malloc alc n h = Inr (Some (place alc h), h(place alc h \<mapsto> replicate n None))"
  by (simp add: buxn_ls_malloc_def buxn_ls_realloc_def c_realloc_def Let_def)

lemma free_simps [simp]:
  "buxn_ls_free alc None h = Inr h"
  "buxn_ls_free alc (Some p) h = (if h p = None then Inl Use_after_free else Inr (h(p := None)))"
  by (simp_all add: buxn_ls_free_def buxn_ls_realloc_def c_free_def)

lemma strcpy_eq:
  "NUL \<notin> set s \<Longrightarrow> buxn_ls_strcpy alc s h = Inr (Some (place alc h), h(place alc h \<mapsto> str_block s))"
  by (simp add: buxn_ls_strcpy_def cstr_id malloc_eq store_bytes_def str_block_def Let_def)

lemma store_all:
  "h p = Some b \<Longrightarrow> length b = length s \<Longrightarrow> store_bytes (Some p) 0 s h = Inr (h(p \<mapsto> map Some s))"
  by (simp add: store_bytes_def)

lemma load_str_block:
  assumes "NUL \<notin> set s" and "h p = Some (str_block s)"
  shows "load_cstr (Some p) h = Inr s"
proof -
  have "takeWhile (\<lambda>c. c \<noteq> None \<and> c \<noteq> Some NUL) (map Some s @ [Some NUL]) = map Some s"
    using assms(1) by (subst takeWhile_append2) auto
  then show ?thesis using assms(2) by (simp add: load_cstr_def str_block_def nth_append comp_def)
qed

lemma load_bytes_block: "h p = Some (map Some s) \<Longrightarrow> load_bytes (Some p) (length s) h = Inr s"
  by (cases s) (auto simp: load_bytes_def comp_def)

lemma load_local:
  "h' p = h p \<Longrightarrow> load_cstr (Some p) h' = load_cstr (Some p) h"
  "h' p = h p \<Longrightarrow> load_bytes (Some p) n h' = load_bytes (Some p) n h"
  by (simp_all add: load_cstr_def load_bytes_def)

section \<open>Who owns what\<close>

text \<open>The heap is \<open>h0\<close> and the blocks at the addresses \<open>ps\<close>, each of which is owned once.\<close>

definition heap_split :: "heap \<Rightarrow> addr list \<Rightarrow> heap \<Rightarrow> bool" where
  "heap_split h0 ps h \<longleftrightarrow> finite (dom h) \<and> distinct ps \<and> set ps \<subseteq> dom h \<and> h0 = (\<lambda>q. if q \<in> set ps then None else h q)"

lemma split_nothing: "finite (dom h) \<Longrightarrow> heap_split h [] h"
  by (simp add: heap_split_def)

lemma split_nothing_left: "heap_split h0 [] h \<Longrightarrow> h = h0"
  by (simp add: heap_split_def)

lemma split_mset: "mset ps = mset qs \<Longrightarrow> heap_split h0 ps h = heap_split h0 qs h"
  by (simp add: heap_split_def mset_eq_imp_distinct_iff [of ps qs] mset_eq_setD [of ps qs])

lemma split_owned: "heap_split h0 ps h \<Longrightarrow> p \<in> set ps \<Longrightarrow> h p \<noteq> None"
  by (auto simp: heap_split_def)

lemma split_fresh: "heap_split h0 ps h \<Longrightarrow> h p = None \<Longrightarrow> heap_split h0 (p # ps) (h(p \<mapsto> b))"
  by (auto simp: heap_split_def fun_eq_iff)

lemma split_drop: "heap_split h0 (p # ps) h \<Longrightarrow> heap_split h0 ps (h(p := None))"
  by (auto simp: heap_split_def fun_eq_iff)

lemma split_write: "heap_split h0 ps h \<Longrightarrow> p \<in> set ps \<Longrightarrow> heap_split h0 ps (h(p \<mapsto> b))"
  by (auto simp: heap_split_def fun_eq_iff)

lemma split_place: "heap_split h0 ps h \<Longrightarrow> h (place alc h) = None"
  by (simp add: heap_split_def place_free)

text \<open>The contract of the allocator for code that frees what it owns, whatever the heap is.\<close>

locale owned_blocks =
  fixes split :: "'h \<Rightarrow> 'a list \<Rightarrow> 'h \<Rightarrow> bool"
    and malloc :: "nat \<Rightarrow> 'h \<Rightarrow> ('a option \<times> 'h) outcome"
    and free :: "'a option \<Rightarrow> 'h \<Rightarrow> 'h outcome"
  assumes owned_malloc: "split h0 ps h \<Longrightarrow> 0 < n \<Longrightarrow> \<exists>p h'. malloc n h = Inr (Some p, h') \<and> split h0 (p # ps) h'"
    and owned_free: "split h0 (p # ps) h \<Longrightarrow> \<exists>h'. free (Some p) h = Inr h' \<and> split h0 ps h'"
    and free_null: "free None h = Inr h"
    and owned_mset: "mset ps = mset qs \<Longrightarrow> split h0 ps h \<Longrightarrow> split h0 qs h"
    and owned_none: "split h0 [] h \<Longrightarrow> h = h0"
begin

text \<open>Freeing all that is owned leaves the heap as it was before.\<close>

lemma free_all: "split h0 ps h \<Longrightarrow> ofold (\<lambda>p. free (Some p)) ps h = Inr h0"
proof (induction ps arbitrary: h)
  case (Cons p ps)
  from owned_free [OF Cons.prems] obtain h' where "free (Some p) h = Inr h'" "split h0 ps h'" by blast
  with Cons.IH show ?case by simp
qed (use owned_none in auto)

end

interpretation hp: owned_blocks heap_split "buxn_ls_malloc alc" "buxn_ls_free alc" for alc
proof unfold_locales
  fix h0 h :: heap and ps :: "addr list" and n :: nat
  assume "heap_split h0 ps h" "0 < n"
  then show "\<exists>p h'. buxn_ls_malloc alc n h = Inr (Some p, h') \<and> heap_split h0 (p # ps) h'"
    using malloc_eq split_fresh split_place by meson
next
  fix h0 h :: heap and p and ps :: "addr list"
  assume s: "heap_split h0 (p # ps) h"
  then show "\<exists>h'. buxn_ls_free alc (Some p) h = Inr h' \<and> heap_split h0 ps h'"
    using split_owned [OF s, of p] split_drop [OF s] by auto
next
  fix h0 h :: heap and ps qs :: "addr list"
  show "mset ps = mset qs \<Longrightarrow> heap_split h0 ps h \<Longrightarrow> heap_split h0 qs h"
    by (rule split_mset [THEN iffD1])
  show "heap_split h0 [] h \<Longrightarrow> h = h0" by (rule split_nothing_left)
qed simp

end
