(* ===== verification/Workspace_Memory.thy ===== *)
theory Workspace_Memory
  imports Workspace Heap
begin

text \<open>
  The workspace once more, with its memory: the root directory, the keys of the table of documents and
  their contents are blocks of the heap, which the code allocates and frees by hand. \<open>Workspace\<close> has the
  same operations on values; here they are shown to do the same, never to free or read what is not
  allocated, and to give everything back at the end.

  The table compares keys by the strings they point to (\<open>buxn_ls_str_eq\<close>), so a lookup reads the keys.
\<close>

section \<open>State and operations\<close>

text \<open>\<open>buxn_ls_str_t\<close>.\<close>

record mem_str =
  ms_chars :: "addr option"
  ms_len :: nat

type_synonym mem_docs = "(addr option \<times> mem_str) list"

record mem_workspace =
  mw_root_dir :: "addr option"
  mw_root_dir_len :: nat
  mw_docs :: mem_docs

definition mem_workspace_init :: "allocator \<Rightarrow> string \<Rightarrow> heap \<Rightarrow> (mem_workspace \<times> heap) outcome" where
  "mem_workspace_init alc root h =
     (let len = length (cstr root)
      in if len > 0 \<and> root ! (len - 1) \<noteq> CHR ''/''
         then obind (buxn_ls_malloc alc (len + 2) h) (\<lambda>(p, h1).
              obind (store_bytes p 0 (cstr root) h1) (\<lambda>h2.
              obind (store_bytes p len [CHR ''/''] h2) (\<lambda>h3.
              obind (store_bytes p (len + 1) [NUL] h3) (\<lambda>h4.
              Inr (\<lparr>mw_root_dir = p, mw_root_dir_len = len + 1, mw_docs = []\<rparr>, h4)))))
         else obind (buxn_ls_strcpy alc root h) (\<lambda>(p, h1).
              Inr (\<lparr>mw_root_dir = p, mw_root_dir_len = len, mw_docs = []\<rparr>, h1)))"

definition mem_resolve_path :: "yuarel_parse \<Rightarrow> mem_workspace \<Rightarrow> heap \<Rightarrow> string option \<Rightarrow> string option outcome" where
  "mem_resolve_path yuarel mw h uri =
     obind (load_cstr (mw_root_dir mw) h) (\<lambda>root.
     buxn_ls_workspace_resolve_path yuarel \<lparr>root_dir = root, root_dir_len = mw_root_dir_len mw, docs = []\<rparr> uri)"

text \<open>The index of a key; any key may be compared.\<close>

fun find_key :: "(addr option \<times> 'v) list \<Rightarrow> string \<Rightarrow> heap \<Rightarrow> nat option outcome" where
  "find_key [] path h = Inr None"
| "find_key ((k, v) # ds) path h =
     obind (buxn_ls_str_eq k path h) (\<lambda>eq.
     obind (find_key ds path h) (\<lambda>r.
     Inr (if eq then Some 0 else map_option Suc r)))"

definition mem_text :: "allocator \<Rightarrow> string \<Rightarrow> heap \<Rightarrow> (mem_str \<times> heap) outcome" where
  "mem_text alc content h =
     (if length content > 0
      then obind (buxn_ls_malloc alc (length content) h) (\<lambda>(p, h1).
           obind (store_bytes p 0 content h1) (\<lambda>h2.
           Inr (\<lparr>ms_chars = p, ms_len = length content\<rparr>, h2)))
      else Inr (\<lparr>ms_chars = None, ms_len = 0\<rparr>, h))"

text \<open>\<open>didOpen\<close> and \<open>didChange\<close>, which differ in where the content comes from.\<close>

definition mem_put :: "allocator \<Rightarrow> bhash_layout \<Rightarrow> string \<Rightarrow> string \<Rightarrow> mem_docs \<times> heap \<Rightarrow> (mem_docs \<times> heap) outcome" where
  "mem_put alc lay path content s =
     (case s of (ds, h) \<Rightarrow>
        obind (find_key ds path h) (\<lambda>index.
        case index of
          None \<Rightarrow>
            obind (buxn_ls_strcpy alc path h) (\<lambda>(key, h1).
            obind (mem_text alc content h1) (\<lambda>(doc, h2).
            Inr (relay lay Inserted (ds @ [(key, doc)]), h2)))
        | Some i \<Rightarrow>
            obind (buxn_ls_free alc (ms_chars (snd (ds ! i))) h) (\<lambda>h1.
            obind (mem_text alc content h1) (\<lambda>(doc, h2).
            Inr (ds[i := (fst (ds ! i), doc)], h2)))))"

definition mem_close :: "allocator \<Rightarrow> bhash_layout \<Rightarrow> string \<Rightarrow> mem_docs \<times> heap \<Rightarrow> (mem_docs \<times> heap) outcome" where
  "mem_close alc lay path s =
     (case s of (ds, h) \<Rightarrow>
        obind (find_key ds path h) (\<lambda>index.
        case index of
          None \<Rightarrow> Inr (ds, h)
        | Some i \<Rightarrow>
            obind (buxn_ls_free alc (fst (ds ! i)) h) (\<lambda>h1.
            obind (buxn_ls_free alc (ms_chars (snd (ds ! i))) h1) (\<lambda>h2.
            Inr (relay lay (Removed i) (take i ds @ drop (Suc i) ds), h2)))))"

definition mem_workspace_update ::
    "allocator \<Rightarrow> json_api \<Rightarrow> yuarel_parse \<Rightarrow> bhash_layout \<Rightarrow> bio_lsp_in_msg \<Rightarrow>
     mem_workspace \<times> heap \<Rightarrow> (mem_workspace \<times> heap) outcome" where
  "mem_workspace_update alc yy yuarel lay msg s =
     (case s of (mw, h) \<Rightarrow>
      if in_type msg = BIO_LSP_MSG_NOTIFICATION then
        (let text_document = yy_obj_get yy (in_value msg) ''textDocument'';
             uri = yy_get_cstr yy (yy_obj_get yy text_document ''uri'');
             with_docs = (\<lambda>(ds, h'). Inr (mw\<lparr>mw_docs := ds\<rparr>, h'))
         in obind (mem_resolve_path yuarel mw h uri) (\<lambda>path_ptr.
            case path_ptr of
              None \<Rightarrow> Inr (mw, h)
            | Some path \<Rightarrow>
                if in_method msg = Some ''textDocument/didOpen'' then
                  (let content = doc_text yy (yy_obj_get yy text_document ''text'')
                   in obind (mem_put alc lay path content (mw_docs mw, h)) with_docs)
                else if in_method msg = Some ''textDocument/didChange'' then
                  (let changes = yy_obj_get yy (in_value msg) ''contentChanges'';
                       last_change = yy_arr_last yy changes;
                       content = doc_text yy (yy_obj_get yy last_change ''text'')
                   in obind (mem_put alc lay path content (mw_docs mw, h)) with_docs)
                else if in_method msg = Some ''textDocument/didClose'' then
                  obind (mem_close alc lay path (mw_docs mw, h)) with_docs
                else Inr (mw, h)))
      else Inr (mw, h))"

definition mem_workspace_cleanup :: "allocator \<Rightarrow> mem_workspace \<Rightarrow> heap \<Rightarrow> heap outcome" where
  "mem_workspace_cleanup alc mw h =
     obind (ofold (\<lambda>(key, doc) h1. obind (buxn_ls_free alc key h1) (buxn_ls_free alc (ms_chars doc))) (mw_docs mw) h)
       (buxn_ls_free alc (mw_root_dir mw))"

section \<open>Documents in memory\<close>

definition ptrs :: "addr option \<Rightarrow> addr list" where
  "ptrs q = (case q of None \<Rightarrow> [] | Some p \<Rightarrow> [p])"

lemma ptrs_simps [simp]: "ptrs None = []" "ptrs (Some p) = [p]"
  by (simp_all add: ptrs_def)

definition doc_blocks :: "addr option \<times> mem_str \<Rightarrow> addr list" where
  "doc_blocks d = ptrs (fst d) @ ptrs (ms_chars (snd d))"

definition docs_blocks :: "mem_docs \<Rightarrow> addr list" where
  "docs_blocks ds = concat (map doc_blocks ds)"

lemma docs_blocks_simps [simp]:
  "docs_blocks [] = []" "docs_blocks (d # ds) = doc_blocks d @ docs_blocks ds"
  "docs_blocks (ds @ es) = docs_blocks ds @ docs_blocks es"
  by (simp_all add: docs_blocks_def)

lemma docs_blocks_relay: "mset (docs_blocks (relay lay e ds)) = mset (docs_blocks ds)"
proof -
  have "mset (concat (map f xs)) = (\<Sum>x\<in>#mset xs. mset (f x))" for f :: "addr option \<times> mem_str \<Rightarrow> addr list" and xs
    by (induction xs) simp_all
  then show ?thesis by (simp add: docs_blocks_def mset_relay)
qed

definition text_at :: "heap \<Rightarrow> mem_str \<Rightarrow> string \<Rightarrow> bool" where
  "text_at h m c \<longleftrightarrow> ms_len m = length c \<and>
     (if c = [] then ms_chars m = None else \<exists>p. ms_chars m = Some p \<and> h p = Some (map Some c))"

definition key_at :: "heap \<Rightarrow> addr option \<Rightarrow> string \<Rightarrow> bool" where
  "key_at h k s \<longleftrightarrow> NUL \<notin> set s \<and> (\<exists>p. k = Some p \<and> h p = Some (str_block s))"

definition keys_at :: "heap \<Rightarrow> (addr option \<times> 'v) list \<Rightarrow> (string \<times> 'w) list \<Rightarrow> bool" where
  "keys_at h ds es \<longleftrightarrow> list_all2 (\<lambda>d e. key_at h (fst d) (fst e)) ds es"

definition doc_at :: "heap \<Rightarrow> addr option \<times> mem_str \<Rightarrow> string \<times> string \<Rightarrow> bool" where
  "doc_at h d e \<longleftrightarrow> key_at h (fst d) (fst e) \<and> text_at h (snd d) (snd e)"

definition docs_at :: "heap \<Rightarrow> mem_docs \<Rightarrow> (string, string) bhash \<Rightarrow> bool" where
  "docs_at h ds es \<longleftrightarrow> list_all2 (doc_at h) ds es"

lemma text_at_local: "text_at h m c \<Longrightarrow> \<forall>p\<in>set (ptrs (ms_chars m)). h' p = h p \<Longrightarrow> text_at h' m c"
  by (auto simp: text_at_def split: if_splits)

lemma doc_at_local: "doc_at h d e \<Longrightarrow> \<forall>p\<in>set (doc_blocks d). h' p = h p \<Longrightarrow> doc_at h' d e"
  unfolding doc_at_def key_at_def doc_blocks_def by (auto intro: text_at_local)

lemma docs_at_local: "docs_at h ds es \<Longrightarrow> \<forall>p\<in>set (docs_blocks ds). h' p = h p \<Longrightarrow> docs_at h' ds es"
  unfolding docs_at_def by (induction rule: list_all2_induct) (auto intro: doc_at_local)

lemma list_all2_relay:
  assumes "list_all2 P xs ys"
  shows "list_all2 P (relay lay e xs) (relay lay e ys)"
proof -
  have n: "length xs = length ys" using assms by (rule list_all2_lengthD)
  have "set (layout_order lay e (length ys)) = {0..<length ys}" using mset_eq_setD [OF layout_ok] by simp
  then have i: "i < length (layout_order lay e (length ys)) \<Longrightarrow> layout_order lay e (length ys) ! i < length ys" for i
    using nth_mem by fastforce
  with assms n show ?thesis by (simp add: relay_def list_all2_conv_all_nth)
qed

lemma docs_at_relay: "docs_at h ds es \<Longrightarrow> docs_at h (relay lay e ds) (relay lay e es)"
  unfolding docs_at_def by (rule list_all2_relay)

lemma docs_at_Cons:
  "docs_at h ds ((k, c) # es) \<longleftrightarrow> (\<exists>d ds'. ds = d # ds' \<and> doc_at h d (k, c) \<and> docs_at h ds' es)"
  by (auto simp: docs_at_def list_all2_Cons2)

lemma docs_at_append:
  "docs_at h ds (es1 @ es2) \<longleftrightarrow> (\<exists>ds1 ds2. ds = ds1 @ ds2 \<and> docs_at h ds1 es1 \<and> docs_at h ds2 es2)"
  by (auto simp: docs_at_def list_all2_append2 dest: list_all2_lengthD)

lemma docs_at_length: "docs_at h ds es \<Longrightarrow> length ds = length es"
  by (simp add: docs_at_def list_all2_lengthD)

text \<open>A lookup reads only keys that are there, and finds what the table of texts finds.\<close>

lemma find_key_eq:
  "keys_at h ds es \<Longrightarrow> NUL \<notin> set path \<Longrightarrow> find_key ds path h =
     Inr (if bhash_has es path then Some (length (takeWhile (\<lambda>e. fst e \<noteq> path) es)) else None)"
proof (induction ds arbitrary: es)
  case (Cons d ds)
  then obtain k c es' p where e: "es = (k, c) # es'" "keys_at h ds es'" "NUL \<notin> set k" "fst d = Some p" "h p = Some (str_block k)"
    by (cases es) (auto simp: keys_at_def key_at_def)
  from e(1) load_str_block [of k h p] e(3,5) Cons.IH [OF e(2) Cons.prems(2)] Cons.prems(2) e(4) show ?case
    by (cases d) (auto simp: bhash_has_iff bhash_keys_def buxn_ls_str_eq_def cstr_id)
qed (simp add: keys_at_def bhash_has_iff bhash_keys_def)

lemma docs_keys: "docs_at h ds es \<Longrightarrow> keys_at h ds es"
  unfolding docs_at_def keys_at_def by (erule list_all2_mono) (simp add: doc_at_def)

lemma bhash_split:
  assumes "bhash_inv es" and "bhash_has es k"
  obtains es1 c es2 where "es = es1 @ (k, c) # es2" "takeWhile (\<lambda>e. fst e \<noteq> k) es = es1"
    "\<And>c'. bhash_set es k c' = es1 @ (k, c') # es2" "filter (\<lambda>e. fst e \<noteq> k) es = es1 @ es2"
proof -
  from assms(2) obtain c where "(k, c) \<in> set es" by (auto simp: bhash_has_iff bhash_keys_def)
  then obtain es1 es2 where es: "es = es1 @ (k, c) # es2" by (auto simp: in_set_conv_decomp)
  with assms(1) have "\<forall>e\<in>set es1. fst e \<noteq> k" "\<forall>e\<in>set es2. fst e \<noteq> k"
    by (auto simp: bhash_inv_def bhash_keys_def)
  then have "takeWhile (\<lambda>e. fst e \<noteq> k) es = es1" "filter (\<lambda>e. fst e \<noteq> k) es = es1 @ es2"
    "bhash_set es k c' = es1 @ (k, c') # es2" for c'
    unfolding es by (auto simp: takeWhile_append filter_id_conv bhash_set_def case_prod_unfold
        intro!: map_idI) 
  with es that show thesis by blast
qed

section \<open>The operations on the heap do what those on values do\<close>

lemma mem_text_ok:
  assumes "heap_split h0 ps h"
  shows "\<exists>m h'. mem_text alc c h = Inr (m, h') \<and> text_at h' m c \<and>
    heap_split h0 (ptrs (ms_chars m) @ ps) h' \<and> (\<forall>p\<in>set ps. h' p = h p)"
proof (cases "c = []")
  case True
  with assms show ?thesis by (simp add: mem_text_def text_at_def)
next
  case False
  let ?p = "place alc h"
  have free: "h ?p = None" by (rule split_place [OF assms])
  then have "?p \<notin> set ps" using split_owned [OF assms] by blast
  with False free split_fresh [OF assms free, of "map Some c"] show ?thesis
    by (intro exI [of _ "\<lparr>ms_chars = Some ?p, ms_len = length c\<rparr>"] exI [of _ "h(?p \<mapsto> map Some c)"])
      (auto simp: mem_text_def malloc_eq store_bytes_def text_at_def)
qed

lemma free_blocks:
  assumes "heap_split h0 (ptrs q @ ps) h"
  shows "\<exists>h'. buxn_ls_free alc q h = Inr h' \<and> heap_split h0 ps h' \<and> (\<forall>p\<in>set ps. h' p = h p)"
proof (cases q)
  case (Some p)
  with assms have s: "heap_split h0 (p # ps) h" by simp
  then have "h p \<noteq> None" "p \<notin> set ps" by (auto simp: heap_split_def)
  with Some split_drop [OF s] show ?thesis by auto
qed (use assms in simp)

lemma doc_found:
  assumes at: "docs_at h ds es" and "bhash_inv es" and has: "bhash_has es path" and nul: "NUL \<notin> set path"
  obtains ds1 k m ds2 es1 c es2 where "ds = ds1 @ (k, m) # ds2" "find_key ds path h = Inr (Some (length ds1))"
    "docs_at h ds1 es1" "doc_at h (k, m) (path, c)" "docs_at h ds2 es2"
    "\<And>c'. bhash_put lay es path c' = es1 @ (path, c') # es2"
    "bhash_remove lay es path = relay lay (Removed (length ds1)) (es1 @ es2)"
proof -
  from bhash_split [OF assms(2) has] obtain es1 c es2 where
    es: "es = es1 @ (path, c) # es2" "takeWhile (\<lambda>e. fst e \<noteq> path) es = es1"
      "\<And>c'. bhash_set es path c' = es1 @ (path, c') # es2" "filter (\<lambda>e. fst e \<noteq> path) es = es1 @ es2" by blast
  from at [unfolded es(1)] obtain ds1 d ds2 where ds: "ds = ds1 @ d # ds2" "docs_at h ds1 es1" "doc_at h d (path, c)" "docs_at h ds2 es2"
    by (auto simp: docs_at_append docs_at_Cons)
  obtain k m where d: "d = (k, m)" by (cases d)
  have len: "length es1 = length ds1" using docs_at_length [OF ds(2)] by simp
  show thesis
    by (rule that [of ds1 k m ds2 es1 c es2])
      (use ds d has es len find_key_eq [OF docs_keys [OF at] nul] in \<open>simp_all add: bhash_put_def bhash_remove_def\<close>)
qed

lemma mem_put_ok:
  assumes at: "docs_at h ds es" and "bhash_inv es" and split: "heap_split h0 (docs_blocks ds @ qs) h" and "NUL \<notin> set path"
  shows "\<exists>ds' h'. mem_put alc lay path c (ds, h) = Inr (ds', h') \<and> docs_at h' ds' (bhash_put lay es path c) \<and>
    heap_split h0 (docs_blocks ds' @ qs) h' \<and> (\<forall>p\<in>set qs. h' p = h p)"
proof (cases "bhash_has es path")
  case False
  let ?p = "place alc h"
  let ?h1 = "h(?p \<mapsto> str_block path)"
  have free: "h ?p = None" by (rule split_place [OF split])
  then have p: "?p \<notin> set (docs_blocks ds @ qs)" using split_owned [OF split] by blast
  from mem_text_ok [OF split_fresh [OF split free]] obtain m h2 where
    m: "mem_text alc c ?h1 = Inr (m, h2)" "text_at h2 m c"
      "heap_split h0 (ptrs (ms_chars m) @ ?p # docs_blocks ds @ qs) h2"
      "\<forall>q\<in>set (?p # docs_blocks ds @ qs). h2 q = ?h1 q" by blast
  let ?ds = "relay lay Inserted (ds @ [(Some ?p, m)])"
  have put: "mem_put alc lay path c (ds, h) = Inr (?ds, h2)"
    using False m(1) assms(4) by (simp add: mem_put_def find_key_eq [OF docs_keys [OF at] assms(4)] strcpy_eq)
  have "docs_at h2 ds es" by (rule docs_at_local [OF at]) (use m(4) p in auto)
  moreover have "doc_at h2 (Some ?p, m) (path, c)" using m(2,4) assms(4) by (simp add: doc_at_def key_at_def)
  ultimately have "docs_at h2 (ds @ [(Some ?p, m)]) (es @ [(path, c)])" by (simp add: docs_at_def list_all2_appendI)
  from docs_at_relay [OF this] have "docs_at h2 ?ds (bhash_put lay es path c)" using False by (simp add: bhash_put_def)
  moreover have "mset (docs_blocks ?ds @ qs) = mset (ptrs (ms_chars m) @ ?p # docs_blocks ds @ qs)"
    by (simp add: docs_blocks_relay doc_blocks_def)
  then have "heap_split h0 (docs_blocks ?ds @ qs) h2" using m(3) split_mset by blast
  moreover have "\<forall>q\<in>set qs. h2 q = h q" using m(4) p by auto
  ultimately show ?thesis using put by blast
next
  case True
  from doc_found [OF at assms(2) True assms(4), of lay] obtain ds1 k m0 ds2 es1 c0 es2 where
    ds: "ds = ds1 @ (k, m0) # ds2" "find_key ds path h = Inr (Some (length ds1))"
      "docs_at h ds1 es1" "doc_at h (k, m0) (path, c0)" "docs_at h ds2 es2"
    and es: "bhash_put lay es path c = es1 @ (path, c) # es2" by metis
  let ?rest = "ptrs k @ docs_blocks ds1 @ docs_blocks ds2 @ qs"
  have "heap_split h0 (ptrs (ms_chars m0) @ ?rest) h"
    using split by (rule split_mset [THEN iffD1, rotated]) (simp add: ds(1) doc_blocks_def)
  from free_blocks [OF this, of alc] obtain h1 where
    h1: "buxn_ls_free alc (ms_chars m0) h = Inr h1" "heap_split h0 ?rest h1" "\<forall>q\<in>set ?rest. h1 q = h q" by blast
  from mem_text_ok [OF h1(2)] obtain m h2 where m: "mem_text alc c h1 = Inr (m, h2)" "text_at h2 m c"
    "heap_split h0 (ptrs (ms_chars m) @ ?rest) h2" "\<forall>q\<in>set ?rest. h2 q = h1 q" by blast
  have same: "\<forall>q\<in>set ?rest. h2 q = h q" using m(4) h1(3) by simp
  let ?ds = "ds1 @ (k, m) # ds2"
  have put: "mem_put alc lay path c (ds, h) = Inr (?ds, h2)"
    using ds(2) h1(1) m(1) by (simp add: mem_put_def ds(1))
  have "doc_at h2 (k, m) (path, c)" using ds(4) m(2) same by (auto simp: doc_at_def key_at_def)
  moreover have "docs_at h2 ds1 es1" by (rule docs_at_local [OF ds(3)]) (use same in auto)
  moreover have "docs_at h2 ds2 es2" by (rule docs_at_local [OF ds(5)]) (use same in auto)
  ultimately have "docs_at h2 ?ds (bhash_put lay es path c)"
    unfolding es docs_at_append docs_at_Cons by blast
  moreover have "mset (docs_blocks ?ds @ qs) = mset (ptrs (ms_chars m) @ ?rest)" by (simp add: doc_blocks_def)
  then have "heap_split h0 (docs_blocks ?ds @ qs) h2" using m(3) split_mset by blast
  ultimately show ?thesis using put same by auto
qed

lemma mem_close_ok:
  assumes at: "docs_at h ds es" and "bhash_inv es" and split: "heap_split h0 (docs_blocks ds @ qs) h" and "NUL \<notin> set path"
  shows "\<exists>ds' h'. mem_close alc lay path (ds, h) = Inr (ds', h') \<and> docs_at h' ds' (bhash_remove lay es path) \<and>
    heap_split h0 (docs_blocks ds' @ qs) h' \<and> (\<forall>p\<in>set qs. h' p = h p)"
proof (cases "bhash_has es path")
  case False
  with find_key_eq [OF docs_keys [OF at] assms(4)] have "mem_close alc lay path (ds, h) = Inr (ds, h)" by (simp add: mem_close_def)
  with False at split show ?thesis by (simp add: bhash_remove_def)
next
  case True
  from doc_found [OF at assms(2) True assms(4), of lay] obtain ds1 k m ds2 es1 c es2 where
    ds: "ds = ds1 @ (k, m) # ds2" "find_key ds path h = Inr (Some (length ds1))"
      "docs_at h ds1 es1" "docs_at h ds2 es2"
    and es: "bhash_remove lay es path = relay lay (Removed (length ds1)) (es1 @ es2)" by metis
  let ?rest = "docs_blocks ds1 @ docs_blocks ds2 @ qs"
  have "heap_split h0 (ptrs k @ ptrs (ms_chars m) @ ?rest) h"
    using split by (rule split_mset [THEN iffD1, rotated]) (simp add: ds(1) doc_blocks_def)
  from free_blocks [OF this, of alc] obtain h1 where
    h1: "buxn_ls_free alc k h = Inr h1" "heap_split h0 (ptrs (ms_chars m) @ ?rest) h1" "\<forall>q\<in>set ?rest. h1 q = h q" by auto
  from free_blocks [OF h1(2), of alc] obtain h2 where
    h2: "buxn_ls_free alc (ms_chars m) h1 = Inr h2" "heap_split h0 ?rest h2" "\<forall>q\<in>set ?rest. h2 q = h1 q" by blast
  let ?ds = "relay lay (Removed (length ds1)) (ds1 @ ds2)"
  have close: "mem_close alc lay path (ds, h) = Inr (?ds, h2)"
    using ds(2) h1(1) h2(1) by (simp add: mem_close_def ds(1))
  have "docs_at h2 ds1 es1" by (rule docs_at_local [OF ds(3)]) (use h1(3) h2(3) in auto)
  moreover have "docs_at h2 ds2 es2" by (rule docs_at_local [OF ds(4)]) (use h1(3) h2(3) in auto)
  ultimately have "docs_at h2 (ds1 @ ds2) (es1 @ es2)" unfolding docs_at_append by blast
  from docs_at_relay [OF this] have "docs_at h2 ?ds (bhash_remove lay es path)" by (simp add: es)
  moreover have "mset (docs_blocks ?ds @ qs) = mset ?rest" by (simp add: docs_blocks_relay)
  then have "heap_split h0 (docs_blocks ?ds @ qs) h2" using h2(2) split_mset by blast
  ultimately show ?thesis using close h1(3) h2(3) by auto
qed

section \<open>The workspace\<close>

definition ws_at :: "heap \<Rightarrow> heap \<Rightarrow> mem_workspace \<Rightarrow> buxn_ls_workspace \<Rightarrow> bool" where
  "ws_at h0 h mw ws \<longleftrightarrow>
     NUL \<notin> set (root_dir ws) \<and> mw_root_dir_len mw = root_dir_len ws \<and> bhash_inv (docs ws) \<and>
     docs_at h (mw_docs mw) (docs ws) \<and>
     (\<exists>r. mw_root_dir mw = Some r \<and> h r = Some (str_block (root_dir ws)) \<and>
        heap_split h0 (docs_blocks (mw_docs mw) @ [r]) h)"

text \<open>What the memory says the workspace is.\<close>

fun load_docs :: "mem_docs \<Rightarrow> heap \<Rightarrow> (string, string) bhash outcome" where
  "load_docs [] h = Inr []"
| "load_docs ((k, v) # ds) h =
     obind (load_cstr k h) (\<lambda>key.
     obind (load_bytes (ms_chars v) (ms_len v) h) (\<lambda>content.
     obind (load_docs ds h) (\<lambda>es. Inr ((key, content) # es))))"

definition load_workspace :: "mem_workspace \<Rightarrow> heap \<Rightarrow> buxn_ls_workspace outcome" where
  "load_workspace mw h =
     obind (load_cstr (mw_root_dir mw) h) (\<lambda>root.
     obind (load_docs (mw_docs mw) h) (\<lambda>es.
     Inr \<lparr>root_dir = root, root_dir_len = mw_root_dir_len mw, docs = es\<rparr>))"

lemma load_docs_at: "docs_at h ds es \<Longrightarrow> load_docs ds h = Inr es"
proof (induction ds arbitrary: es)
  case (Cons d ds)
  then obtain k c es' p where e: "es = (k, c) # es'" "docs_at h ds es'" "NUL \<notin> set k" "fst d = Some p"
      "h p = Some (str_block k)" "text_at h (snd d) c"
    by (cases es) (auto simp: docs_at_def doc_at_def key_at_def)
  have "load_bytes (ms_chars (snd d)) (ms_len (snd d)) h = Inr c"
    using e(6) load_bytes_block by (auto simp: text_at_def load_bytes_def split: if_splits)
  with e(1) load_str_block [of k h p] e(3,5) Cons.IH [OF e(2)] e(4) show ?case by (cases d) simp
qed (simp add: docs_at_def)

lemma load_workspace_at: "ws_at h0 h mw ws \<Longrightarrow> load_workspace mw h = Inr ws"
  by (auto simp: ws_at_def load_workspace_def load_docs_at load_str_block)

lemma init_at:
  assumes "finite (dom h)" and "NUL \<notin> set root"
  shows "\<exists>mw h'. mem_workspace_init alc root h = Inr (mw, h') \<and> ws_at h h' mw (buxn_ls_workspace_init root)"
proof -
  let ?p = "place alc h"
  have s: "heap_split h [?p] (h(?p \<mapsto> b))" for b
    by (rule split_fresh [OF split_nothing [OF assms(1)] place_free [OF assms(1)]])
  show ?thesis
  proof (cases "length root > 0 \<and> root ! (length root - 1) \<noteq> CHR ''/''")
    case True
    then have "mem_workspace_init alc root h =
      Inr (\<lparr>mw_root_dir = Some ?p, mw_root_dir_len = length root + 1, mw_docs = []\<rparr>, h(?p \<mapsto> str_block (root @ ''/'')))"
      using assms(2) by (simp add: mem_workspace_init_def cstr_id malloc_eq store_bytes_def str_block_def replicate_add [symmetric])
    with True assms(2) s show ?thesis
      by (auto simp: ws_at_def buxn_ls_workspace_init_def docs_at_def NUL_def)
  next
    case False
    then have "mem_workspace_init alc root h =
      Inr (\<lparr>mw_root_dir = Some ?p, mw_root_dir_len = length root, mw_docs = []\<rparr>, h(?p \<mapsto> str_block root))"
      using assms(2) by (auto simp: mem_workspace_init_def cstr_id strcpy_eq)
    with False assms(2) s show ?thesis
      by (auto simp: ws_at_def buxn_ls_workspace_init_def docs_at_def)
  qed
qed

text \<open>The parser of URIs cuts the path out of the URI, which is a C string.\<close>

definition paths_are_cstrs :: "yuarel_parse \<Rightarrow> bool" where
  "paths_are_cstrs yuarel \<longleftrightarrow> (\<forall>uri url p. yuarel (map_option cstr uri) = Some url \<and> url_path url = Some p \<longrightarrow> NUL \<notin> set p)"

lemma resolve_at:
  assumes "ws_at h0 h mw ws"
  shows "mem_resolve_path yuarel mw h uri = buxn_ls_workspace_resolve_path yuarel ws uri"
proof -
  have "load_cstr (mw_root_dir mw) h = Inr (root_dir ws)" "mw_root_dir_len mw = root_dir_len ws"
    using assms load_str_block by (auto simp: ws_at_def)
  then show ?thesis by (simp add: mem_resolve_path_def buxn_ls_workspace_resolve_path_def split: option.split)
qed

lemma resolve_cstr:
  "paths_are_cstrs yuarel \<Longrightarrow> buxn_ls_workspace_resolve_path yuarel ws (yy_get_cstr yy j) = Inr (Some path) \<Longrightarrow>
     NUL \<notin> set path"
  by (auto simp: yy_get_cstr_def buxn_ls_workspace_resolve_path_def paths_are_cstrs_def split: option.splits if_splits dest: in_set_dropD)

text \<open>A change of the table that is right on the documents is right on the workspace.\<close>

lemma docs_change_at:
  assumes "ws_at h0 h mw ws" and "bhash_inv es"
    and "\<And>qs. heap_split h0 (docs_blocks (mw_docs mw) @ qs) h \<Longrightarrow>
      \<exists>ds' h'. op (mw_docs mw, h) = Inr (ds', h') \<and> docs_at h' ds' es \<and>
        heap_split h0 (docs_blocks ds' @ qs) h' \<and> (\<forall>p\<in>set qs. h' p = h p)"
  shows "\<exists>s'. obind (op (mw_docs mw, h)) (\<lambda>(ds, h'). Inr (mw\<lparr>mw_docs := ds\<rparr>, h')) = Inr s' \<and>
    ws_at h0 (snd s') (fst s') (ws\<lparr>docs := es\<rparr>)"
proof -
  from assms(1) obtain r where r: "mw_root_dir mw = Some r" "h r = Some (str_block (root_dir ws))"
    "heap_split h0 (docs_blocks (mw_docs mw) @ [r]) h" by (auto simp: ws_at_def)
  from assms(3) [OF r(3)] obtain ds' h' where o: "op (mw_docs mw, h) = Inr (ds', h')" "docs_at h' ds' es"
    "heap_split h0 (docs_blocks ds' @ [r]) h'" "h' r = h r" by auto
  with assms(1,2) r show ?thesis by (auto simp: ws_at_def)
qed

lemma update_at:
  assumes "ws_at h0 h mw ws" and "paths_are_cstrs yuarel" and "buxn_ls_workspace_update yy yuarel lay ws msg = Inr ws'"
  shows "\<exists>s'. mem_workspace_update alc yy yuarel lay msg (mw, h) = Inr s' \<and> ws_at h0 (snd s') (fst s') ws'"
proof -
  have d: "docs_at h (mw_docs mw) (docs ws)" "bhash_inv (docs ws)" using assms(1) by (simp_all add: ws_at_def)
  let ?uri = "yy_get_cstr yy (yy_obj_get yy (yy_obj_get yy (in_value msg) ''textDocument'') ''uri'')"
  show ?thesis
  proof (cases "in_type msg = BIO_LSP_MSG_NOTIFICATION")
    case False
    with assms(1,3) show ?thesis by (simp add: buxn_ls_workspace_update_def mem_workspace_update_def)
  next
    case True
    with assms(3) obtain path_ptr where p: "buxn_ls_workspace_resolve_path yuarel ws ?uri = Inr path_ptr"
      by (auto simp: buxn_ls_workspace_update_def Let_def ok_simps)
    note upd = assms(3) True p resolve_at [OF assms(1), of yuarel ?uri]
    show ?thesis
    proof (cases path_ptr)
      case None
      with upd assms(1) show ?thesis by (simp add: buxn_ls_workspace_update_def mem_workspace_update_def Let_def)
    next
      case (Some path)
      have nul: "NUL \<notin> set path" using resolve_cstr [OF assms(2) p [unfolded Some]] .
      have put: "\<exists>s'. obind (mem_put alc lay path c (mw_docs mw, h)) (\<lambda>(ds, h'). Inr (mw\<lparr>mw_docs := ds\<rparr>, h')) = Inr s' \<and>
          ws_at h0 (snd s') (fst s') (ws\<lparr>docs := bhash_put lay (docs ws) path c\<rparr>)" for c
        by (rule docs_change_at [OF assms(1) bh.inv_put [OF d(2)]]) (rule mem_put_ok [OF d _ nul])
      have close: "\<exists>s'. obind (mem_close alc lay path (mw_docs mw, h)) (\<lambda>(ds, h'). Inr (mw\<lparr>mw_docs := ds\<rparr>, h')) = Inr s' \<and>
          ws_at h0 (snd s') (fst s') (ws\<lparr>docs := bhash_remove lay (docs ws) path\<rparr>)"
        by (rule docs_change_at [OF assms(1) bh.inv_remove [OF d(2)]]) (rule mem_close_ok [OF d _ nul])
      from upd Some assms(1) put close show ?thesis
        by (auto simp: buxn_ls_workspace_update_def mem_workspace_update_def Let_def split: if_splits)
    qed
  qed
qed

lemma updates_at:
  "ofold (\<lambda>msg w. buxn_ls_workspace_update yy yuarel lay w msg) msgs ws = Inr ws' \<Longrightarrow> ws_at h0 (snd s) (fst s) ws \<Longrightarrow>
     paths_are_cstrs yuarel \<Longrightarrow>
     \<exists>s'. ofold (mem_workspace_update alc yy yuarel lay) msgs s = Inr s' \<and> ws_at h0 (snd s') (fst s') ws'"
proof (induction msgs arbitrary: ws s)
  case (Cons msg msgs)
  from Cons.prems(1) obtain w where w: "buxn_ls_workspace_update yy yuarel lay ws msg = Inr w"
    "ofold (\<lambda>msg w. buxn_ls_workspace_update yy yuarel lay w msg) msgs w = Inr ws'" by (auto simp: ok_simps)
  from update_at [OF Cons.prems(2,3) w(1), of alc] obtain s' where
    "mem_workspace_update alc yy yuarel lay msg s = Inr s'" "ws_at h0 (snd s') (fst s') w" by auto
  with Cons.IH [OF w(2) this(2) Cons.prems(3)] show ?case by simp
qed auto

lemma cleanup_at:
  assumes "ws_at h0 h mw ws"
  shows "mem_workspace_cleanup alc mw h = Inr h0"
proof -
  have docs: "heap_split h0 (docs_blocks ds @ qs) h \<Longrightarrow>
    \<exists>h'. ofold (\<lambda>(key, doc) h1. obind (buxn_ls_free alc key h1) (buxn_ls_free alc (ms_chars doc))) ds h = Inr h' \<and>
      heap_split h0 qs h'" for ds qs h
  proof (induction ds arbitrary: h)
    case (Cons d ds)
    from Cons.prems have "heap_split h0 (ptrs (fst d) @ ptrs (ms_chars (snd d)) @ docs_blocks ds @ qs) h"
      by (simp add: doc_blocks_def)
    from free_blocks [OF this, of alc] obtain h1 where
      h1: "buxn_ls_free alc (fst d) h = Inr h1" "heap_split h0 (ptrs (ms_chars (snd d)) @ docs_blocks ds @ qs) h1" by blast
    from free_blocks [OF h1(2), of alc] obtain h2 where
      h2: "buxn_ls_free alc (ms_chars (snd d)) h1 = Inr h2" "heap_split h0 (docs_blocks ds @ qs) h2" by blast
    from Cons.IH [OF h2(2)] h1(1) h2(1) show ?case by (cases d) simp
  qed simp
  from assms obtain r where r: "mw_root_dir mw = Some r" "heap_split h0 (docs_blocks (mw_docs mw) @ [r]) h"
    by (auto simp: ws_at_def)
  from docs [OF r(2)] obtain h' where
    h': "ofold (\<lambda>(key, doc) h1. obind (buxn_ls_free alc key h1) (buxn_ls_free alc (ms_chars doc))) (mw_docs mw) h = Inr h'"
      "heap_split h0 [r] h'" by blast
  have "buxn_ls_free alc (Some r) h' = Inr h0"
    using hp.free_all [OF h'(2), of alc] by (simp add: obind_def split: sum.splits del: free_simps)
  with h'(1) r(1) show ?thesis by (simp add: mem_workspace_cleanup_def del: free_simps)
qed

section \<open>The property\<close>

text \<open>C12: The memory of the workspace is in order: through any sequence of notifications that the workspace
  survives, no block is freed twice or used after it was freed, what the blocks hold is at every end
  the workspace of the value model, and the cleanup leaves the heap exactly as it was before the
  start: nothing leaks and nothing else is touched. It holds for every allocator that returns unused
  addresses; the paths of URIs must be C strings.\<close>

theorem workspace_memory_safe:
  assumes "finite (dom h)" and "NUL \<notin> set root" and "paths_are_cstrs yuarel"
    and "ofold (\<lambda>msg w. buxn_ls_workspace_update yy yuarel lay w msg) msgs (buxn_ls_workspace_init root) = Inr ws"
  shows "\<exists>mw0 h0 mw1 h1. mem_workspace_init alc root h = Inr (mw0, h0) \<and>
    ofold (mem_workspace_update alc yy yuarel lay) msgs (mw0, h0) = Inr (mw1, h1) \<and>
    load_workspace mw1 h1 = Inr ws \<and> mem_workspace_cleanup alc mw1 h1 = Inr h"
proof -
  from init_at [OF assms(1,2)] obtain mw0 h0 where
    i: "mem_workspace_init alc root h = Inr (mw0, h0)" "ws_at h h0 mw0 (buxn_ls_workspace_init root)" by blast
  from updates_at [OF assms(4) _ assms(3), of h "(mw0, h0)" alc] i(2) obtain s' where
    "ofold (mem_workspace_update alc yy yuarel lay) msgs (mw0, h0) = Inr s'" "ws_at h (snd s') (fst s') ws" by auto
  with i(1) load_workspace_at [OF this(2)] cleanup_at [OF this(2)] show ?thesis by (cases s') auto
qed

theorem workspace_memory_safe_witness:
  "\<exists>mw0 h0 mw1 h1. mem_workspace_init bump ''/p'' (Map.empty(7 \<mapsto> [None])) = Inr (mw0, h0) \<and>
     h0 8 = Some (str_block ''/p/'') \<and>
     ofold (mem_workspace_update bump (ref_json []) demo_url append_layout) demo_session (mw0, h0) = Inr (mw1, h1) \<and>
     mem_workspace_cleanup bump mw1 h1 = Inr (Map.empty(7 \<mapsto> [None]))"
proof -
  have "\<exists>ws. ofold (\<lambda>msg w. buxn_ls_workspace_update (ref_json []) demo_url append_layout w msg) demo_session
      (buxn_ls_workspace_init ''/p'') = Inr ws"
    by (simp add: demo_session_def demo_doc_msg_def buxn_ls_workspace_update_def Let_def
        buxn_ls_workspace_resolve_path_def demo_url_def yy_get_cstr_def cstr_def NUL_def
        buxn_ls_workspace_init_def strncmp_eq_def)
  moreover have "paths_are_cstrs demo_url"
    by (auto simp: paths_are_cstrs_def demo_url_def cstr_no_NUL dest!: in_set_dropD split: option.splits if_splits)
  moreover have "\<exists>mw0. mem_workspace_init bump ''/p'' (Map.empty(7 \<mapsto> [None])) =
      Inr (mw0, Map.empty(7 \<mapsto> [None], 8 \<mapsto> str_block ''/p/''))"
    by (simp add: mem_workspace_init_def malloc_eq store_bytes_def str_block_def cstr_def NUL_def place_bump Let_def)
  ultimately show ?thesis
    using workspace_memory_safe [where alc = bump, of "Map.empty(7 \<mapsto> [None])" "''/p''" demo_url "ref_json []" append_layout demo_session]
    by (fastforce simp: NUL_def)
qed

end
