(* ===== verification/Diagnosed_Memory.thy ===== *)
theory Diagnosed_Memory
  imports Ls_Diagnostics Workspace_Memory
begin

text \<open>
  The two sets of diagnosed URIs once more, with their memory (\<open>buxn_ls_analyze_workspace\<close> and
  \<open>buxn_ls_cleanup\<close> in \<open>src/src/ls.c\<close>). Their keys are copies of URIs: made when a file has diagnostics for
  the first time, moved from set to set while it has some, freed when it has none any more or at the
  end. The sets are lists of pointers here, beside those of the value model (\<open>Ls_Main\<close>), which they
  refine.

  Of \<open>bhash\<close> it is assumed that the index which \<open>bhash_remove\<close> returns still leads to the removed key. Whether
  \<open>bhash_put_key\<close> replaces the pointer of an equal key that is there already is not known
  (\<open>replaces\<close>); it does not happen where the diagnostics are sorted.
\<close>

section \<open>State and operations\<close>

type_synonym mem_set = "(addr option \<times> unit) list"

record diag_memory =
  dm_previously :: mem_set
  dm_currently :: mem_set
  dm_heap :: heap

definition mem_put_key :: "bhash_layout \<Rightarrow> bool \<Rightarrow> addr option \<Rightarrow> mem_set \<Rightarrow> heap \<Rightarrow> mem_set outcome" where
  "mem_put_key lay replaces key ms h =
     obind (load_cstr key h) (\<lambda>s.
     obind (find_key ms s h) (\<lambda>index.
     case index of
       None \<Rightarrow> Inr (relay lay Inserted (ms @ [(key, ())]))
     | Some i \<Rightarrow> Inr (if replaces then ms[i := (key, ())] else ms)))"

definition mem_move_uri :: "allocator \<Rightarrow> bhash_layout \<Rightarrow> bool \<Rightarrow> string \<Rightarrow> diag_memory \<Rightarrow> diag_memory outcome" where
  "mem_move_uri alc lay replaces uri dm =
     obind (find_key (dm_previously dm) uri (dm_heap dm)) (\<lambda>index.
     case index of
       Some i \<Rightarrow>
         (let removed = fst (dm_previously dm ! i);
              prev = relay lay (Removed i) (take i (dm_previously dm) @ drop (Suc i) (dm_previously dm))
          in obind (mem_put_key lay replaces removed (dm_currently dm) (dm_heap dm)) (\<lambda>cur.
             Inr (dm\<lparr>dm_previously := prev, dm_currently := cur\<rparr>)))
     | None \<Rightarrow>
         obind (buxn_ls_strcpy alc uri (dm_heap dm)) (\<lambda>(uri_copy, h).
         obind (mem_put_key lay replaces uri_copy (dm_currently dm) h) (\<lambda>cur.
         Inr (dm\<lparr>dm_currently := cur, dm_heap := h\<rparr>))))"

fun mem_publish_loop ::
    "ls_api \<Rightarrow> allocator \<Rightarrow> bool \<Rightarrow> diagnostic list \<Rightarrow> publish_state \<times> diag_memory \<Rightarrow>
     (publish_state \<times> diag_memory) outcome" where
  "mem_publish_loop api alc replaces [] s = Inr s"
| "mem_publish_loop api alc replaces (diag # diags) (ps, dm) =
     (if l_uri (dg_location diag) \<noteq> ps_last_uri ps then
        (case l_uri (dg_location diag) of
           None \<Rightarrow> Inl Null_deref
         | Some uri \<Rightarrow>
             obind (mem_move_uri alc (la_layout api) replaces uri dm) (\<lambda>dm1.
             let ps1 = ps\<lparr>ps_ctx := move_uri (la_layout api) uri (ps_ctx ps)\<rparr>
             in obind (flush_publish api ps1) (\<lambda>(success, ps2).
                if \<not> success then Inr (ps2, dm1)
                else mem_publish_loop api alc replaces diags
                  (add_diag diag (ps2\<lparr>ps_msg := Some (Some uri, []), ps_last_uri := Some uri\<rparr>), dm1))))
      else mem_publish_loop api alc replaces diags (add_diag diag ps, dm))"

definition mem_unpublish ::
    "ls_api \<Rightarrow> allocator \<Rightarrow> addr option \<times> unit \<Rightarrow> buxn_ls_ctx \<times> heap \<Rightarrow> (buxn_ls_ctx \<times> heap) outcome" where
  "mem_unpublish api alc entry s =
     (case s of (ctx, h) \<Rightarrow>
        obind (load_cstr (fst entry) h) (\<lambda>uri.
        obind (unpublish api uri ctx) (\<lambda>ctx1.
        obind (buxn_ls_free alc (fst entry) h) (\<lambda>h1. Inr (ctx1, h1)))))"

definition mem_publish_diagnostics ::
    "ls_api \<Rightarrow> allocator \<Rightarrow> bool \<Rightarrow> buxn_ls_ctx \<times> diag_memory \<Rightarrow> (buxn_ls_ctx \<times> diag_memory) outcome" where
  "mem_publish_diagnostics api alc replaces s =
     (case s of (ctx, dm) \<Rightarrow>
        obind (mem_publish_loop api alc replaces (an_diagnostics (lc_analyzer ctx))
          (\<lparr>ps_ctx = ctx, ps_last_uri = None, ps_msg = None\<rparr>, dm)) (\<lambda>(ps, dm1).
        obind (flush_publish api ps) (\<lambda>(success, ps1).
        obind (ofold (mem_unpublish api alc) (dm_previously dm1) (ps_ctx ps1, dm_heap dm1)) (\<lambda>(ctx1, h).
        Inr (ctx1\<lparr>lc_previously_diagnosed := lc_currently_diagnosed ctx1, lc_currently_diagnosed := []\<rparr>,
             \<lparr>dm_previously = dm_currently dm1, dm_currently = [], dm_heap = h\<rparr>)))))"

text \<open>The part of \<open>buxn_ls_cleanup\<close> that frees the keys.\<close>

definition mem_free_uris :: "allocator \<Rightarrow> diag_memory \<Rightarrow> heap outcome" where
  "mem_free_uris alc dm = ofold (\<lambda>entry. buxn_ls_free alc (fst entry)) (dm_previously dm) (dm_heap dm)"

section \<open>Sets in memory\<close>

definition set_blocks :: "mem_set \<Rightarrow> addr list" where
  "set_blocks ms = concat (map (\<lambda>e. ptrs (fst e)) ms)"

lemma set_blocks_simps [simp]:
  "set_blocks [] = []" "set_blocks (e # ms) = ptrs (fst e) @ set_blocks ms"
  "set_blocks (ms @ ns) = set_blocks ms @ set_blocks ns"
  by (simp_all add: set_blocks_def)

lemma set_blocks_relay: "mset (set_blocks (relay lay e ms)) = mset (set_blocks ms)"
proof -
  have "mset (concat (map f xs)) = (\<Sum>x\<in>#mset xs. mset (f x))" for f :: "addr option \<times> unit \<Rightarrow> addr list" and xs
    by (induction xs) simp_all
  then show ?thesis by (simp add: set_blocks_def mset_relay)
qed

lemma keys_at_append:
  "keys_at h ds (es1 @ es2) \<longleftrightarrow> (\<exists>ds1 ds2. ds = ds1 @ ds2 \<and> keys_at h ds1 es1 \<and> keys_at h ds2 es2)"
  by (auto simp: keys_at_def list_all2_append2 dest: list_all2_lengthD)

lemma keys_at_Cons:
  "keys_at h ds (e # es) \<longleftrightarrow> (\<exists>d ds'. ds = d # ds' \<and> key_at h (fst d) (fst e) \<and> keys_at h ds' es)"
  by (auto simp: keys_at_def list_all2_Cons2)

lemma keys_at_Nil [simp]: "keys_at h [] es \<longleftrightarrow> es = []" "keys_at h ds [] \<longleftrightarrow> ds = []"
  by (auto simp: keys_at_def)

lemma keys_at_relay: "keys_at h ds es \<Longrightarrow> keys_at h (relay lay e ds) (relay lay e es)"
  unfolding keys_at_def by (rule list_all2_relay)

lemma key_at_local: "key_at h k s \<Longrightarrow> \<forall>p\<in>set (ptrs k). h' p = h p \<Longrightarrow> key_at h' k s"
  by (auto simp: key_at_def)

lemma keys_at_local: "keys_at h ms es \<Longrightarrow> \<forall>p\<in>set (set_blocks ms). h' p = h p \<Longrightarrow> keys_at h' ms es"
  unfolding keys_at_def by (induction rule: list_all2_induct) (auto intro: key_at_local)

lemma load_key: "key_at h k s \<Longrightarrow> load_cstr k h = Inr s"
  by (auto simp: key_at_def load_str_block)

lemma set_found:
  assumes at: "keys_at h ms es" and "bhash_inv es" and has: "bhash_has es u" and nul: "NUL \<notin> set u"
  obtains ms1 k ms2 es1 es2 where "ms = ms1 @ (k, ()) # ms2" "find_key ms u h = Inr (Some (length ms1))"
    "keys_at h ms1 es1" "key_at h k u" "keys_at h ms2 es2"
    "bhash_remove lay es u = relay lay (Removed (length ms1)) (es1 @ es2)"
proof -
  obtain es1 c es2 where
    es: "es = es1 @ (u, c) # es2" "takeWhile (\<lambda>e. fst e \<noteq> u) es = es1" "filter (\<lambda>e. fst e \<noteq> u) es = es1 @ es2"
    by (rule bhash_split [OF assms(2) has])
  from at [unfolded es(1)] obtain ms1 d ms2 where
    ms: "ms = ms1 @ d # ms2" "keys_at h ms1 es1" "key_at h (fst d) u" "keys_at h ms2 es2"
    by (auto simp: keys_at_append keys_at_Cons)
  have len: "length es1 = length ms1" using ms(2) by (simp add: keys_at_def list_all2_lengthD)
  have "find_key ms u h = Inr (Some (length ms1))" using has by (simp add: find_key_eq [OF at nul] es(2) len)
  moreover have "bhash_remove lay es u = relay lay (Removed (length ms1)) (es1 @ es2)"
    using has by (simp add: bhash_remove_def es(2,3) len)
  ultimately show thesis using ms that [of ms1 "fst d" ms2 es1 es2] by (cases d) simp
qed

section \<open>The operations on the heap do what those on values do\<close>

text \<open>A key that is not in the set is added.\<close>

lemma mem_put_key_ok:
  assumes "keys_at h ms es" and "key_at h k u" and "\<not> bhash_has es u"
  shows "\<exists>ms'. mem_put_key lay replaces k ms h = Inr ms' \<and> keys_at h ms' (bhash_put lay es u ()) \<and>
    mset (set_blocks ms') = mset (ptrs k @ set_blocks ms)"
proof -
  have nul: "NUL \<notin> set u" using assms(2) by (simp add: key_at_def)
  have "mem_put_key lay replaces k ms h = Inr (relay lay Inserted (ms @ [(k, ())]))"
    using assms(3) by (simp add: mem_put_key_def load_key [OF assms(2)] find_key_eq [OF assms(1) nul])
  moreover have "keys_at h (ms @ [(k, ())]) (es @ [(u, ())])"
    using assms(1,2) by (simp add: keys_at_def list_all2_appendI)
  from keys_at_relay [OF this] have "keys_at h (relay lay Inserted (ms @ [(k, ())])) (bhash_put lay es u ())"
    using assms(3) by (simp add: bhash_put_def)
  ultimately show ?thesis by (simp add: set_blocks_relay)
qed

definition dm_at :: "heap \<Rightarrow> diag_memory \<Rightarrow> str_set \<Rightarrow> str_set \<Rightarrow> bool" where
  "dm_at h0 dm prev cur \<longleftrightarrow>
     bhash_inv prev \<and> bhash_inv cur \<and>
     keys_at (dm_heap dm) (dm_previously dm) prev \<and> keys_at (dm_heap dm) (dm_currently dm) cur \<and>
     heap_split h0 (set_blocks (dm_previously dm) @ set_blocks (dm_currently dm)) (dm_heap dm)"

lemma mem_move_uri_ok:
  assumes at: "dm_at h0 dm prev cur" and nul: "NUL \<notin> set u" and new: "\<not> bhash_has cur u"
  shows "\<exists>dm'. mem_move_uri alc lay replaces u dm = Inr dm' \<and>
    dm_at h0 dm' (bhash_remove lay prev u) (bhash_put lay cur u ())"
proof -
  let ?h = "dm_heap dm" and ?ps = "dm_previously dm" and ?cs = "dm_currently dm"
  note d = at [unfolded dm_at_def]
  then have inv: "bhash_inv prev" "bhash_inv cur" and prev: "keys_at ?h ?ps prev" and cur: "keys_at ?h ?cs cur"
    and split: "heap_split h0 (set_blocks ?ps @ set_blocks ?cs) ?h" by simp_all
  note inv' = bh.inv_remove [OF inv(1), of lay u] bh.inv_put [OF inv(2), of lay u "()"]
  show ?thesis
  proof (cases "bhash_has prev u")
    case True
    from set_found [OF prev inv(1) True nul, of lay] obtain ms1 k ms2 es1 es2 where
      ms: "?ps = ms1 @ (k, ()) # ms2" "find_key ?ps u ?h = Inr (Some (length ms1))"
        "keys_at ?h ms1 es1" "key_at ?h k u" "keys_at ?h ms2 es2"
      and es: "bhash_remove lay prev u = relay lay (Removed (length ms1)) (es1 @ es2)" by metis
    let ?ps' = "relay lay (Removed (length ms1)) (ms1 @ ms2)"
    from mem_put_key_ok [OF cur ms(4) new, of lay replaces] obtain cs' where
      cs': "mem_put_key lay replaces k ?cs ?h = Inr cs'" "keys_at ?h cs' (bhash_put lay cur u ())"
        "mset (set_blocks cs') = mset (ptrs k @ set_blocks ?cs)" by blast
    have "keys_at ?h (ms1 @ ms2) (es1 @ es2)" using ms(3,5) unfolding keys_at_append by blast
    from keys_at_relay [OF this] have prev': "keys_at ?h ?ps' (bhash_remove lay prev u)" by (simp add: es)
    have "mset (set_blocks ?ps' @ set_blocks cs') = mset (set_blocks ?ps @ set_blocks ?cs)"
      by (simp add: set_blocks_relay cs'(3)) (simp add: ms(1))
    then have "heap_split h0 (set_blocks ?ps' @ set_blocks cs') ?h" using split split_mset by blast
    with prev' cs'(2) inv' show ?thesis
      using ms(2) cs'(1) by (simp add: mem_move_uri_def ms(1) dm_at_def)
  next
    case False
    let ?p = "place alc ?h" let ?h1 = "?h(?p \<mapsto> str_block u)"
    have free: "?h ?p = None" by (rule split_place [OF split])
    then have p: "?p \<notin> set (set_blocks ?ps @ set_blocks ?cs)" using split_owned [OF split] by blast
    have at1: "keys_at ?h1 ?ps prev" "keys_at ?h1 ?cs cur"
      by (rule keys_at_local [OF prev], use p in auto) (rule keys_at_local [OF cur], use p in auto)
    have "key_at ?h1 (Some ?p) u" using nul by (simp add: key_at_def)
    from mem_put_key_ok [OF at1(2) this new, of lay replaces] obtain cs' where
      cs': "mem_put_key lay replaces (Some ?p) ?cs ?h1 = Inr cs'" "keys_at ?h1 cs' (bhash_put lay cur u ())"
        "mset (set_blocks cs') = mset (?p # set_blocks ?cs)" by auto
    have "mset (?p # set_blocks ?ps @ set_blocks ?cs) = mset (set_blocks ?ps @ set_blocks cs')" by (simp add: cs'(3))
    then have "heap_split h0 (set_blocks ?ps @ set_blocks cs') ?h1" using split_fresh [OF split free] split_mset by blast
    moreover have "find_key ?ps u ?h = Inr None" using False find_key_eq [OF prev nul] by simp
    moreover have "bhash_remove lay prev u = prev" using False by (simp add: bhash_remove_def)
    ultimately show ?thesis
      using cs'(1,2) at1(1) inv inv'(2) by (simp add: mem_move_uri_def strcpy_eq [OF nul] dm_at_def)
  qed
qed

section \<open>The publication\<close>

lemma end_msg_sets:
  assumes "buxn_ls_end_msg api msg ctx = Inr (b, ctx')"
  shows "lc_previously_diagnosed ctx' = lc_previously_diagnosed ctx" "lc_currently_diagnosed ctx' = lc_currently_diagnosed ctx"
  using assms by (auto simp: buxn_ls_end_msg_def ok_simps)

lemma flush_sets:
  assumes "flush_publish api ps = Inr (b, ps')"
  shows "lc_previously_diagnosed (ps_ctx ps') = lc_previously_diagnosed (ps_ctx ps)"
    "lc_currently_diagnosed (ps_ctx ps') = lc_currently_diagnosed (ps_ctx ps)" "ps_last_uri ps' = ps_last_uri ps"
  using assms by (auto simp: flush_publish_def ok_simps end_msg_sets split: option.splits)

lemma add_diag_same [simp]: "ps_ctx (add_diag d ps) = ps_ctx ps" "ps_last_uri (add_diag d ps) = ps_last_uri ps"
  by (auto simp: add_diag_def split: option.split)

text \<open>The current set has no URI beyond the last one.\<close>

definition seen_upto :: "str_set \<Rightarrow> string option \<Rightarrow> bool" where
  "seen_upto cur last_uri \<longleftrightarrow> (\<forall>u. bhash_has cur u \<longrightarrow> Some u \<le> last_uri)"

definition uris_ok :: "diagnostic list \<Rightarrow> bool" where
  "uris_ok diags \<longleftrightarrow> sorted (map diag_uri diags) \<and> (\<forall>d\<in>set diags. \<forall>u. diag_uri d = Some u \<longrightarrow> NUL \<notin> set u)"

lemma mem_publish_loop_ok:
  assumes "publish_loop api diags ps = Inr ps'"
    and "dm_at h0 dm (lc_previously_diagnosed (ps_ctx ps)) (lc_currently_diagnosed (ps_ctx ps))"
    and "uris_ok diags" and "\<forall>d\<in>set diags. ps_last_uri ps \<le> diag_uri d"
    and "seen_upto (lc_currently_diagnosed (ps_ctx ps)) (ps_last_uri ps)"
  shows "\<exists>dm'. mem_publish_loop api alc replaces diags (ps, dm) = Inr (ps', dm') \<and>
    dm_at h0 dm' (lc_previously_diagnosed (ps_ctx ps')) (lc_currently_diagnosed (ps_ctx ps'))"
  using assms
proof (induction diags arbitrary: ps dm)
  case (Cons diag diags)
  have rest: "uris_ok diags" "\<forall>d\<in>set diags. diag_uri diag \<le> diag_uri d"
    using Cons.prems(3) by (auto simp: uris_ok_def)
  show ?case
  proof (cases "diag_uri diag = ps_last_uri ps")
    case True
    with Cons.IH [of "add_diag diag ps" dm] Cons.prems rest show ?thesis by simp
  next
    case False
    with Cons.prems(1) obtain u where u: "diag_uri diag = Some u" by (cases "diag_uri diag") auto
    let ?ctx1 = "move_uri (la_layout api) u (ps_ctx ps)"
    from False u Cons.prems(1) obtain b ps2 where
      flush: "flush_publish api (ps\<lparr>ps_ctx := ?ctx1\<rparr>) = Inr (b, ps2)"
      and run: "if \<not> b then Inr ps2 = Inr ps'
        else publish_loop api diags (add_diag diag (ps2\<lparr>ps_msg := Some (Some u, []), ps_last_uri := Some u\<rparr>)) = Inr ps'"
      by (auto simp: ok_simps Let_def split: if_splits)
    have "ps_last_uri ps < Some u" using Cons.prems(4) False u by (auto simp: less_le)
    then have new: "\<not> bhash_has (lc_currently_diagnosed (ps_ctx ps)) u"
      using Cons.prems(5) by (auto simp: seen_upto_def)
    have nul: "NUL \<notin> set u" using Cons.prems(3) u by (auto simp: uris_ok_def)
    from mem_move_uri_ok [OF Cons.prems(2) nul new, of alc "la_layout api" replaces] obtain dm1 where
      dm1: "mem_move_uri alc (la_layout api) replaces u dm = Inr dm1"
        "dm_at h0 dm1 (lc_previously_diagnosed (ps_ctx ps2)) (lc_currently_diagnosed (ps_ctx ps2))"
      using flush_sets [OF flush] by (auto simp: move_uri_def)
    show ?thesis
    proof (cases b)
      case False
      with run dm1 flush u \<open>diag_uri diag \<noteq> _\<close> show ?thesis by auto
    next
      case True
      let ?ps3 = "add_diag diag (ps2\<lparr>ps_msg := Some (Some u, []), ps_last_uri := Some u\<rparr>)"
      have "seen_upto (lc_currently_diagnosed (ps_ctx ps2)) (Some u)"
        using Cons.prems(5) order_trans [OF _ less_imp_le [OF \<open>ps_last_uri ps < Some u\<close>]] flush_sets(2) [OF flush]
        by (fastforce simp: seen_upto_def move_uri_def bhash_has_put)
      with Cons.IH [of ?ps3 dm1] True run dm1(2) rest u have
        "\<exists>dm'. mem_publish_loop api alc replaces diags (?ps3, dm1) = Inr (ps', dm') \<and>
          dm_at h0 dm' (lc_previously_diagnosed (ps_ctx ps')) (lc_currently_diagnosed (ps_ctx ps'))" by simp
      with True dm1(1) flush u \<open>diag_uri diag \<noteq> _\<close> show ?thesis by simp
    qed
  qed
qed simp

lemma mem_unpublish_ok:
  assumes "ofold (unpublish api) (bhash_keys es) ctx = Inr ctx'"
    and "keys_at h ms es" and "heap_split h0 (set_blocks ms @ qs) h"
  shows "\<exists>h'. ofold (mem_unpublish api alc) ms (ctx, h) = Inr (ctx', h') \<and>
    heap_split h0 qs h' \<and> (\<forall>p\<in>set qs. h' p = h p)"
  using assms
proof (induction ms arbitrary: es ctx h)
  case (Cons m ms)
  then obtain u c es' where es: "es = (u, c) # es'" and at: "key_at h (fst m) u" "keys_at h ms es'"
    by (cases es) (auto simp: keys_at_Cons)
  from Cons.prems(1) obtain ctx1 where un: "unpublish api u ctx = Inr ctx1" "ofold (unpublish api) (bhash_keys es') ctx1 = Inr ctx'"
    by (auto simp: es bhash_keys_def ok_simps)
  from Cons.prems(3) have "heap_split h0 (ptrs (fst m) @ set_blocks ms @ qs) h" by simp
  from free_blocks [OF this, of alc] obtain h1 where
    h1: "buxn_ls_free alc (fst m) h = Inr h1" "heap_split h0 (set_blocks ms @ qs) h1" "\<forall>p\<in>set (set_blocks ms @ qs). h1 p = h p"
    by blast
  have "keys_at h1 ms es'" by (rule keys_at_local [OF at(2)]) (use h1(3) in auto)
  from Cons.IH [OF un(2) this h1(2)] h1 un(1) load_key [OF at(1)] show ?case by (auto simp: mem_unpublish_def)
qed (auto simp: bhash_keys_def)

lemma unpublish_sets:
  assumes "ofold (unpublish api) us ctx = Inr ctx'"
  shows "lc_previously_diagnosed ctx' = lc_previously_diagnosed ctx \<and> lc_currently_diagnosed ctx' = lc_currently_diagnosed ctx"
  by (rule ofold_inv [where P = "\<lambda>c. lc_previously_diagnosed c = lc_previously_diagnosed ctx \<and>
      lc_currently_diagnosed c = lc_currently_diagnosed ctx", OF assms])
    (auto simp: unpublish_def ok_simps end_msg_sets)

lemma mem_publish_ok:
  assumes "publish_diagnostics api ctx = Inr ctx'" and "uris_ok (an_diagnostics (lc_analyzer ctx))"
    and "dm_at h0 dm (lc_previously_diagnosed ctx) []" and "lc_currently_diagnosed ctx = []"
  shows "\<exists>dm'. mem_publish_diagnostics api alc replaces (ctx, dm) = Inr (ctx', dm') \<and>
    dm_at h0 dm' (lc_previously_diagnosed ctx') [] \<and> lc_currently_diagnosed ctx' = []"
proof -
  let ?ps = "\<lparr>ps_ctx = ctx, ps_last_uri = None, ps_msg = None\<rparr>"
  from assms(1) obtain ps b ps1 ctx1 where
    loop: "publish_loop api (an_diagnostics (lc_analyzer ctx)) ?ps = Inr ps"
    and flush: "flush_publish api ps = Inr (b, ps1)"
    and un: "ofold (unpublish api) (bhash_keys (lc_previously_diagnosed (ps_ctx ps1))) (ps_ctx ps1) = Inr ctx1"
    and ctx': "ctx' = ctx1\<lparr>lc_previously_diagnosed := lc_currently_diagnosed ctx1, lc_currently_diagnosed := []\<rparr>"
    by (auto simp: publish_diagnostics_def ok_simps)
  have "seen_upto (lc_currently_diagnosed (ps_ctx ?ps)) (ps_last_uri ?ps)"
    by (simp add: assms(4) seen_upto_def bhash_has_def)
  with mem_publish_loop_ok [OF loop _ assms(2)] assms(3,4) obtain dm1 where
    dm1: "mem_publish_loop api alc replaces (an_diagnostics (lc_analyzer ctx)) (?ps, dm) = Inr (ps, dm1)"
      "dm_at h0 dm1 (lc_previously_diagnosed (ps_ctx ps)) (lc_currently_diagnosed (ps_ctx ps))" by fastforce
  note d = dm1(2) [unfolded dm_at_def]
  from mem_unpublish_ok [OF un, of "dm_heap dm1" "dm_previously dm1" h0 "set_blocks (dm_currently dm1)" alc] d flush_sets [OF flush]
  obtain h' where h': "ofold (mem_unpublish api alc) (dm_previously dm1) (ps_ctx ps1, dm_heap dm1) = Inr (ctx1, h')"
    "heap_split h0 (set_blocks (dm_currently dm1)) h'" "\<forall>p\<in>set (set_blocks (dm_currently dm1)). h' p = dm_heap dm1 p" by auto
  have "keys_at h' (dm_currently dm1) (lc_currently_diagnosed (ps_ctx ps))"
    by (rule keys_at_local [of "dm_heap dm1"]) (use d h'(3) in auto)
  then have "dm_at h0 \<lparr>dm_previously = dm_currently dm1, dm_currently = [], dm_heap = h'\<rparr> (lc_previously_diagnosed ctx') []"
    using d h'(2) flush_sets(2) [OF flush] unpublish_sets [OF un] by (simp add: dm_at_def ctx' bhash_inv_def bhash_keys_def)
  with dm1(1) flush h'(1) show ?thesis by (simp add: mem_publish_diagnostics_def ctx')
qed

section \<open>The property\<close>

text \<open>What the memory says a set is.\<close>

fun load_set :: "mem_set \<Rightarrow> heap \<Rightarrow> string list outcome" where
  "load_set [] h = Inr []"
| "load_set (e # ms) h = obind (load_cstr (fst e) h) (\<lambda>u. obind (load_set ms h) (\<lambda>us. Inr (u # us)))"

lemma load_set_at: "keys_at h ms es \<Longrightarrow> load_set ms h = Inr (bhash_keys es)"
proof (induction ms arbitrary: es)
  case (Cons m ms)
  then obtain e es' where e: "es = e # es'" "key_at h (fst m) (fst e)" "keys_at h ms es'" by (cases es) (auto simp: keys_at_Cons)
  from Cons.IH [OF e(3)] load_key [OF e(2)] e(1) show ?case by (simp add: bhash_keys_def)
qed (simp add: bhash_keys_def)

lemma mem_free_uris_at:
  assumes "dm_at h0 dm prev []"
  shows "mem_free_uris alc dm = Inr h0"
proof -
  have "heap_split h0 (set_blocks ms @ qs) h \<Longrightarrow>
    \<exists>h'. ofold (\<lambda>e. buxn_ls_free alc (fst e)) ms h = Inr h' \<and> heap_split h0 qs h'" for ms qs h
  proof (induction ms arbitrary: h)
    case (Cons m ms)
    from Cons.prems have "heap_split h0 (ptrs (fst m) @ set_blocks ms @ qs) h" by simp
    from free_blocks [OF this, of alc] Cons.IH show ?case by fastforce
  qed simp
  from this [of "dm_previously dm" "[]" "dm_heap dm"] assms show ?thesis
    by (auto simp: dm_at_def mem_free_uris_def dest: split_nothing_left)
qed

definition publish_all :: "ls_api \<Rightarrow> analyzer list \<Rightarrow> buxn_ls_ctx \<Rightarrow> buxn_ls_ctx outcome" where
  "publish_all api = ofold (\<lambda>a ctx. publish_diagnostics api (ctx\<lparr>lc_analyzer := a\<rparr>))"

definition mem_publish_all ::
    "ls_api \<Rightarrow> allocator \<Rightarrow> bool \<Rightarrow> analyzer list \<Rightarrow> buxn_ls_ctx \<times> diag_memory \<Rightarrow> (buxn_ls_ctx \<times> diag_memory) outcome" where
  "mem_publish_all api alc replaces =
     ofold (\<lambda>a (ctx, dm). mem_publish_diagnostics api alc replaces (ctx\<lparr>lc_analyzer := a\<rparr>, dm))"

lemma mem_publish_all_ok:
  "publish_all api as ctx = Inr ctx' \<Longrightarrow> \<forall>a\<in>set as. uris_ok (an_diagnostics a) \<Longrightarrow>
     dm_at h0 dm (lc_previously_diagnosed ctx) [] \<Longrightarrow> lc_currently_diagnosed ctx = [] \<Longrightarrow>
     \<exists>dm'. mem_publish_all api alc replaces as (ctx, dm) = Inr (ctx', dm') \<and> dm_at h0 dm' (lc_previously_diagnosed ctx') []"
proof (induction as arbitrary: ctx dm)
  case (Cons a as)
  from Cons.prems(1) obtain ctx1 where one: "publish_diagnostics api (ctx\<lparr>lc_analyzer := a\<rparr>) = Inr ctx1"
    and rest: "publish_all api as ctx1 = Inr ctx'" by (auto simp: publish_all_def ok_simps)
  from mem_publish_ok [OF one, of h0 dm alc replaces] Cons.prems(2-4) obtain dm1 where
    dm1: "mem_publish_diagnostics api alc replaces (ctx\<lparr>lc_analyzer := a\<rparr>, dm) = Inr (ctx1, dm1)"
      "dm_at h0 dm1 (lc_previously_diagnosed ctx1) []" "lc_currently_diagnosed ctx1 = []" by auto
  from Cons.IH [OF rest _ dm1(2,3)] Cons.prems(2) dm1(1) show ?case by (simp add: mem_publish_all_def)
qed (simp add: publish_all_def mem_publish_all_def)

text \<open>C13: The memory of the diagnosed URIs is in order: through any number of publications, of analyses with
  any diagnostics and also where sending fails, no key is freed twice or read after it was freed, the
  keys in memory are those of the value model, and the cleanup leaves the heap exactly as it was before
  the session. It holds for every allocator that returns unused addresses, where \<open>qsort\<close> has sorted
  the diagnostics.\<close>

theorem diagnosed_memory_safe:
  assumes "publish_all api as ctx = Inr ctx'" and "\<forall>a\<in>set as. uris_ok (an_diagnostics a)"
    and "lc_previously_diagnosed ctx = []" and "lc_currently_diagnosed ctx = []" and "finite (dom h)"
  shows "\<exists>dm. mem_publish_all api alc replaces as (ctx, \<lparr>dm_previously = [], dm_currently = [], dm_heap = h\<rparr>) = Inr (ctx', dm) \<and>
    load_set (dm_previously dm) (dm_heap dm) = Inr (bhash_keys (lc_previously_diagnosed ctx')) \<and>
    dm_currently dm = [] \<and> mem_free_uris alc dm = Inr h"
proof -
  have "dm_at h \<lparr>dm_previously = [], dm_currently = [], dm_heap = h\<rparr> (lc_previously_diagnosed ctx) []"
    using assms(3,5) by (simp add: dm_at_def split_nothing)
  from mem_publish_all_ok [OF assms(1,2) this assms(4)] obtain dm where
    dm: "mem_publish_all api alc replaces as (ctx, \<lparr>dm_previously = [], dm_currently = [], dm_heap = h\<rparr>) = Inr (ctx', dm)"
      "dm_at h dm (lc_previously_diagnosed ctx') []" by blast
  from dm(2) have "keys_at (dm_heap dm) (dm_previously dm) (lc_previously_diagnosed ctx')" "dm_currently dm = []"
    by (simp_all add: dm_at_def)
  with dm(1) mem_free_uris_at [OF dm(2)] load_set_at show ?thesis by blast
qed

text \<open>The same diagnostics are published twice.\<close>

theorem diagnosed_memory_safe_witness:
  "\<exists>a ctx' dm. buxn_ls_analyze demo_error_asm demo_ws buxn_ls_analyzer_init = Inr a \<and>
     mem_publish_all demo_diag_api bump False [a, a]
       (demo_ctx, \<lparr>dm_previously = [], dm_currently = [], dm_heap = Map.empty(7 \<mapsto> [None])\<rparr>) = Inr (ctx', dm) \<and>
     load_set (dm_previously dm) (dm_heap dm) = Inr (bhash_keys (lc_previously_diagnosed ctx')) \<and>
     mem_free_uris bump dm = Inr (Map.empty(7 \<mapsto> [None]))"
proof -
  from demo_diag_analysis obtain a where
    a: "buxn_ls_analyze demo_error_asm demo_ws buxn_ls_analyzer_init = Inr a"
      "map diag_uri (an_diagnostics a) = [Some ''file:///r/a.tal'']" by (elim exE conjE)
  from a(2) obtain d where d: "an_diagnostics a = [d]" "diag_uri d = Some ''file:///r/a.tal''"
    by (cases "an_diagnostics a") auto
  have "writes_small demo_diag_api" by (simp add: writes_small_def demo_diag_api_def)
  then have pub: "\<exists>ctx'. publish_diagnostics demo_diag_api (ctx\<lparr>lc_analyzer := a\<rparr>) = Inr ctx'" for ctx
    by (rule publish_diagnostics_total) (simp add: d)
  then obtain ctx1 where p1: "publish_diagnostics demo_diag_api (demo_ctx\<lparr>lc_analyzer := a\<rparr>) = Inr ctx1" by blast
  from pub obtain ctx' where "publish_diagnostics demo_diag_api (ctx1\<lparr>lc_analyzer := a\<rparr>) = Inr ctx'" by blast
  with p1 have all: "publish_all demo_diag_api [a, a] demo_ctx = Inr ctx'" by (simp add: publish_all_def)
  have ok: "\<forall>b\<in>set [a, a]. uris_ok (an_diagnostics b)" by (simp add: uris_ok_def d NUL_def)
  have empty: "lc_previously_diagnosed demo_ctx = []" "lc_currently_diagnosed demo_ctx = []"
    by (simp_all add: demo_ctx_def server_start_def)
  have fin: "finite (dom (Map.empty(7 \<mapsto> [None]) :: heap))" by simp
  from diagnosed_memory_safe [OF all ok empty fin, of bump False] a(1) show ?thesis by blast
qed

end
