(* ===== verification/Text_Memory.thy ===== *)
theory Text_Memory
  imports Workspace_Memory Common
begin

text \<open>
  Texts in memory (\<open>src/src/common.h\<close>): copies of a string into an arena, text formatted into an arena,
  the comparison and the hash of the keys of tables, and the allocators that \<open>ls.c\<close>, \<open>common.c\<close> and
  \<open>libs.c\<close> give to the libraries. The other theories have the texts as values; here is why they may.

  The arena (\<open>barena\<close>), the hash (\<open>bhash_hash\<close>) and the text that a format makes of its arguments are
  parameters.
\<close>

section \<open>Copies into an arena\<close>

text \<open>\<open>barena_memalign\<close> of a number of bytes: their address and the heap with them.\<close>

type_synonym memalign = "nat \<Rightarrow> heap \<Rightarrow> addr \<times> heap"

definition buxn_ls_arena_strcpy :: "memalign \<Rightarrow> string \<Rightarrow> heap \<Rightarrow> (addr option \<times> heap) outcome" where
  "buxn_ls_arena_strcpy memalign str h =
     (let len = length (cstr str); (copy, h1) = memalign (len + 1) h
      in obind (store_bytes (Some copy) 0 (cstr str @ [NUL]) h1) (\<lambda>h2. Inr (Some copy, h2)))"

text \<open>The slice is read from memory: it is part of a file or of a name.\<close>

definition buxn_ls_arena_cstrcpy :: "memalign \<Rightarrow> mem_str \<Rightarrow> heap \<Rightarrow> (mem_str \<times> heap) outcome" where
  "buxn_ls_arena_cstrcpy memalign str h =
     (if ms_len str > 0
      then (let (copy, h1) = memalign (ms_len str + 1) h
            in obind (load_bytes (ms_chars str) (ms_len str) h1) (\<lambda>bytes.
               obind (store_bytes (Some copy) 0 bytes h1) (\<lambda>h2.
               obind (store_bytes (Some copy) (ms_len str) [NUL] h2) (\<lambda>h3.
               Inr (\<lparr>ms_chars = Some copy, ms_len = ms_len str\<rparr>, h3)))))
      else Inr (\<lparr>ms_chars = None, ms_len = 0\<rparr>, h))"

text \<open>
  \<open>vsnprintf\<close>, where \<open>out\<close> is what the format makes of the arguments: it writes at most \<open>n\<close> bytes, the
  last of them NUL, and returns the length of \<open>out\<close> whether it was cut or not. The first of the two calls
  only measures.
\<close>

definition c_vsnprintf :: "addr option \<Rightarrow> nat \<Rightarrow> string \<Rightarrow> heap \<Rightarrow> (nat \<times> heap) outcome" where
  "c_vsnprintf buf n out h =
     (if n = 0 then Inr (length out, h)
      else obind (store_bytes buf 0 (take (n - 1) out @ [NUL]) h) (\<lambda>h'. Inr (length out, h')))"

definition buxn_ls_arena_vfmt :: "memalign \<Rightarrow> string \<Rightarrow> heap \<Rightarrow> (mem_str \<times> heap) outcome" where
  "buxn_ls_arena_vfmt memalign out h =
     obind (c_vsnprintf None 0 out h) (\<lambda>(strlen, h1).
     (let (str, h2) = memalign (strlen + 1) h1
      in obind (c_vsnprintf (Some str) (strlen + 1) out h2) (\<lambda>(_, h3).
         Inr (\<lparr>ms_chars = Some str, ms_len = strlen\<rparr>, h3))))"

definition buxn_ls_arena_fmt :: "memalign \<Rightarrow> string \<Rightarrow> heap \<Rightarrow> (mem_str \<times> heap) outcome" where
  "buxn_ls_arena_fmt memalign out h = buxn_ls_arena_vfmt memalign out h"

text \<open>
  What the code relies on: an arena hands out bytes that nothing else uses, and leaves the others alone.
  A client of it gets a block that holds its text and no other block changes, so a text in an arena is
  the value that was copied, for as long as the arena is not reset.
\<close>

definition grows_by :: "heap \<Rightarrow> addr \<Rightarrow> string \<Rightarrow> heap \<Rightarrow> bool" where
  "grows_by h p s h' \<longleftrightarrow> h p = None \<and> h' = h(p \<mapsto> str_block s)"

lemma grows_by_finite: "grows_by h p s h' \<Longrightarrow> finite (dom h) \<Longrightarrow> finite (dom h')"
  by (simp add: grows_by_def)

lemma grows_by_keeps: "grows_by h p s h' \<Longrightarrow> h q = Some b \<Longrightarrow> h' q = Some b"
  by (auto simp: grows_by_def)

lemma grows_by_cstr: "grows_by h p s h' \<Longrightarrow> NUL \<notin> set s \<Longrightarrow> load_cstr (Some p) h' = Inr s"
  by (intro load_str_block) (simp_all add: grows_by_def)

lemma grows_by_bytes: "grows_by h p s h' \<Longrightarrow> load_bytes (Some p) (length s) h' = Inr s"
  by (cases s) (auto simp: grows_by_def load_bytes_def str_block_def comp_def)

lemma load_bytes_length: "load_bytes p n h = Inr s \<Longrightarrow> length s = n"
  by (auto simp: load_bytes_def split: if_splits option.splits)

lemma store_twice:
  assumes "h p = Some (replicate (length s + 1) None)"
  shows "obind (store_bytes (Some p) 0 s h) (store_bytes (Some p) (length s) [NUL]) = Inr (h(p \<mapsto> str_block s))"
  using assms by (simp add: store_bytes_def str_block_def)

locale text_arena =
  fixes memalign :: memalign
  assumes memalign_fresh: "finite (dom h) \<Longrightarrow> \<exists>p. h p = None \<and> memalign n h = (p, h(p \<mapsto> replicate n None))"
begin

lemma arena_strcpy:
  assumes "finite (dom h)" and "NUL \<notin> set s"
  shows "\<exists>p h'. buxn_ls_arena_strcpy memalign s h = Inr (Some p, h') \<and> grows_by h p s h'"
proof -
  obtain p where "h p = None" and "memalign (length s + 1) h = (p, h(p \<mapsto> replicate (length s + 1) None))"
    using memalign_fresh [OF assms(1)] by blast
  then show ?thesis using assms(2)
    by (simp add: buxn_ls_arena_strcpy_def cstr_id store_all grows_by_def str_block_def del: replicate_Suc)
qed

lemma arena_cstrcpy:
  assumes "finite (dom h)" and "load_bytes (ms_chars str) (ms_len str) h = Inr s" and "s \<noteq> []"
  shows "\<exists>p h'. buxn_ls_arena_cstrcpy memalign str h = Inr (\<lparr>ms_chars = Some p, ms_len = length s\<rparr>, h')
           \<and> grows_by h p s h'"
proof -
  have n: "ms_len str = length s" "0 < length s" using load_bytes_length [OF assms(2)] assms(3) by (cases s; simp)+
  then obtain q b where src: "ms_chars str = Some q" "h q = Some b"
    using assms(2) by (auto simp: load_bytes_def split: option.splits)
  obtain p where p: "h p = None" "memalign (length s + 1) h = (p, h(p \<mapsto> replicate (length s + 1) None))"
    using memalign_fresh [OF assms(1)] by blast
  have "load_bytes (Some q) (length s) (h(p \<mapsto> replicate (length s + 1) None)) = Inr s"
    using src p(1) assms(2) n by (subst load_local(2) [of _ _ h]) auto
  with p src n store_twice [of "h(p \<mapsto> replicate (length s + 1) None)" p s] show ?thesis
    by (auto simp: buxn_ls_arena_cstrcpy_def grows_by_def obind_Inr_conv simp del: replicate_Suc)
qed

text \<open>The second pass is given room for all that the first has measured: formatted text is never cut.\<close>

lemma arena_fmt:
  assumes "finite (dom h)"
  shows "\<exists>p h'. buxn_ls_arena_fmt memalign out h = Inr (\<lparr>ms_chars = Some p, ms_len = length out\<rparr>, h')
           \<and> grows_by h p out h'"
proof -
  obtain p where "h p = None" and "memalign (length out + 1) h = (p, h(p \<mapsto> replicate (length out + 1) None))"
    using memalign_fresh [OF assms(1)] by blast
  then show ?thesis
    by (simp add: buxn_ls_arena_fmt_def buxn_ls_arena_vfmt_def c_vsnprintf_def store_all grows_by_def
        str_block_def del: replicate_Suc)
qed

end

text \<open>An arena that takes every block from the allocator is one.\<close>

definition block_arena :: "allocator \<Rightarrow> memalign" where
  "block_arena alc n h = (place alc h, h(place alc h \<mapsto> replicate n None))"

interpretation blocks: text_arena "block_arena alc" for alc
  by unfold_locales (simp add: block_arena_def place_free)

section \<open>Keys of tables\<close>

definition mem_str_eq :: "addr option \<Rightarrow> addr option \<Rightarrow> heap \<Rightarrow> bool outcome" where
  "mem_str_eq lhs rhs h = obind (load_cstr rhs h) (\<lambda>t. buxn_ls_str_eq lhs t h)"

definition buxn_ls_str_hash :: "(string \<Rightarrow> nat) \<Rightarrow> addr option \<Rightarrow> heap \<Rightarrow> nat outcome" where
  "buxn_ls_str_hash bhash_hash key h = obind (load_cstr key h) (\<lambda>s. Inr (bhash_hash s))"

text \<open>\<open>memcmp\<close> reads both only when the lengths agree.\<close>

definition mem_cstr_eq :: "mem_str \<Rightarrow> mem_str \<Rightarrow> heap \<Rightarrow> bool outcome" where
  "mem_cstr_eq lhs rhs h =
     (if ms_len lhs = ms_len rhs
      then obind (load_bytes (ms_chars lhs) (ms_len lhs) h) (\<lambda>s.
           obind (load_bytes (ms_chars rhs) (ms_len lhs) h) (\<lambda>t. Inr (s = t)))
      else Inr False)"

definition buxn_ls_cstr_hash :: "(string \<Rightarrow> nat) \<Rightarrow> mem_str \<Rightarrow> heap \<Rightarrow> nat outcome" where
  "buxn_ls_cstr_hash bhash_hash key h =
     obind (load_bytes (ms_chars key) (ms_len key) h) (\<lambda>s. Inr (bhash_hash s))"

text \<open>
  The contract between the two functions in the configuration of a table: keys that are equal have
  equal hashes. Then a table may look for a key among those of its hash only.
\<close>

locale hashed_keys =
  fixes key_eq :: "'k \<Rightarrow> 'k \<Rightarrow> 'h \<Rightarrow> bool outcome"
    and key_hash :: "'k \<Rightarrow> 'h \<Rightarrow> nat outcome"
  assumes eq_hash: "key_eq k l h = Inr True \<Longrightarrow> key_hash k h = key_hash l h"
begin

lemma find_by_hash:
  "find (\<lambda>k. key_eq k key h = Inr True) [k\<leftarrow>ks. key_hash k h = key_hash key h] =
   find (\<lambda>k. key_eq k key h = Inr True) ks"
  by (induction ks) (auto dest: eq_hash)

end

lemma load_cstr_no_NUL: "load_cstr p h = Inr s \<Longrightarrow> NUL \<notin> set s"
  by (auto simp: load_cstr_def Let_def dest!: set_takeWhileD split: option.splits if_splits)

lemma mem_str_eq_conv:
  "mem_str_eq lhs rhs h = Inr eq \<longleftrightarrow> (\<exists>s t. load_cstr lhs h = Inr s \<and> load_cstr rhs h = Inr t \<and> eq = (s = t))"
proof -
  have "cstr t = t" if "load_cstr rhs h = Inr t" for t
    using load_cstr_no_NUL [OF that] by (rule cstr_id)
  then show ?thesis
    by (auto simp: mem_str_eq_def buxn_ls_str_eq_def obind_Inr_conv)
qed

interpretation str_keys: hashed_keys mem_str_eq "buxn_ls_str_hash bhash_hash" for bhash_hash
  by unfold_locales (auto simp: mem_str_eq_conv buxn_ls_str_hash_def)

interpretation cstr_keys: hashed_keys mem_cstr_eq "buxn_ls_cstr_hash bhash_hash" for bhash_hash
  by unfold_locales (auto simp: mem_cstr_eq_def buxn_ls_cstr_hash_def obind_Inr_conv split: if_splits)

text \<open>Over memory the comparisons are those of the texts, which is how the tables see them elsewhere.\<close>

lemma mem_cstr_eq_value:
  assumes "load_bytes (ms_chars lhs) (ms_len lhs) h = Inr s" and "load_bytes (ms_chars rhs) (ms_len rhs) h = Inr t"
  shows "mem_cstr_eq lhs rhs h = Inr (buxn_ls_cstr_eq s t)"
  using assms assms [THEN load_bytes_length] by (auto simp: mem_cstr_eq_def)

section \<open>The allocators of the libraries\<close>

text \<open>That of \<open>yyjson\<close> (\<open>ls.c\<close>), of \<open>bio\<close> (\<open>common.c\<close>) and of the \<open>blibs\<close> (\<open>libs.c\<close>). The old size is
  ignored.\<close>

definition buxn_ls_json_realloc :: "allocator \<Rightarrow> addr option \<Rightarrow> nat \<Rightarrow> nat \<Rightarrow> heap \<Rightarrow> (addr option \<times> heap) outcome" where
  "buxn_ls_json_realloc alc ptr old_size new_size h = buxn_ls_realloc alc ptr new_size h"

definition buxn_ls_json_malloc :: "allocator \<Rightarrow> nat \<Rightarrow> heap \<Rightarrow> (addr option \<times> heap) outcome" where
  "buxn_ls_json_malloc alc n h = buxn_ls_realloc alc None n h"

definition buxn_ls_json_free :: "allocator \<Rightarrow> addr option \<Rightarrow> heap \<Rightarrow> heap outcome" where
  "buxn_ls_json_free alc ptr h = obind (buxn_ls_realloc alc ptr 0 h) (\<lambda>(_, h'). Inr h')"

definition buxn_ls_realloc_wrapper :: "allocator \<Rightarrow> addr option \<Rightarrow> nat \<Rightarrow> heap \<Rightarrow> (addr option \<times> heap) outcome" where
  "buxn_ls_realloc_wrapper alc ptr n h = buxn_ls_realloc alc ptr n h"

definition buxn_dbg_blib_realloc :: "allocator \<Rightarrow> addr option \<Rightarrow> nat \<Rightarrow> heap \<Rightarrow> (addr option \<times> heap) outcome" where
  "buxn_dbg_blib_realloc alc ptr n h = buxn_ls_realloc alc ptr n h"

text \<open>They are the functions of the code itself, so the contract of owned blocks is theirs too.\<close>

interpretation json: owned_blocks heap_split "buxn_ls_json_malloc alc" "buxn_ls_json_free alc" for alc
proof -
  have "buxn_ls_json_malloc alc = buxn_ls_malloc alc" "buxn_ls_json_free alc = buxn_ls_free alc"
    by (simp_all add: fun_eq_iff buxn_ls_json_malloc_def buxn_ls_json_free_def buxn_ls_malloc_def buxn_ls_free_def)
  then show "owned_blocks heap_split (buxn_ls_json_malloc alc) (buxn_ls_json_free alc)"
    by (simp only: hp.owned_blocks_axioms)
qed

text \<open>\<open>realloc\<close> of an owned block moves what was in it, as far as it fits, and the rest of the heap is
  as before.\<close>

lemma json_realloc_moves:
  assumes "heap_split h0 (p # ps) h" and "h p = Some b" and "0 < n"
  shows "\<exists>q h'. buxn_ls_json_realloc alc (Some p) old n h = Inr (Some q, h') \<and> heap_split h0 (q # ps) h'
           \<and> h' q = Some (take n b @ replicate (n - length b) None)"
proof -
  let ?h = "h(p := None)"
  have "heap_split h0 ps ?h" using assms(1) by (rule split_drop)
  then have "heap_split h0 (place alc ?h # ps) (?h(place alc ?h \<mapsto> take n b @ replicate (n - length b) None))"
    by (intro split_fresh split_place)
  with assms(2,3) show ?thesis
    by (auto simp: buxn_ls_json_realloc_def buxn_ls_realloc_def c_realloc_def Let_def)
qed

end
