(* ===== verification/Spec2Isabelle.thy ===== *)
theory Spec2Isabelle
  imports Utf16 Analyze_Annotations Analyze_Lines Ls_Types Ls_Edits System Shim Diagnosed_Memory Text_Memory
begin

text \<open>
  A model of \<open>buxn-ls\<close>, the language server for uxntal in \<open>src/src\<close> (C), and the theorems that make it
  correct.

  \<^bold>\<open>The program.\<close> An editor sends JSON-RPC messages over a stream. The transport (\<open>lsp.c\<close>) cuts the
  stream into messages. The server (\<open>ls.c\<close>) runs three loops over them: until \<open>initialize\<close>, until
  \<open>initialized\<close>, and until \<open>exit\<close>. Notifications about documents go to the workspace (\<open>workspace.c\<close>)
  and start a timer. When it fires, the analyzer (\<open>analyze.c\<close>) runs the assembler on the open
  documents, which calls back with the files it opens, the symbols it defines and refers to, and its
  messages; the server then publishes the diagnostics. Requests are answered from the last analysis:
  definitions, references, hover texts, symbol lists, and completion lists (\<open>completion.c\<close>), which walk
  the graph of includes (\<open>graph.h\<close>).

  \<^bold>\<open>The theories.\<close>
  \<^item> \<open>Prelude\<close>: faults as values (\<open>outcome\<close>, \<open>obind\<close>, \<open>ofold\<close>), C strings, decimal numbers; locales
    \<open>step_system\<close> and \<open>bounded_system\<close> for invariants and bounds of step relations, interpreted on the
    sessions, on the socket server and on the shim.
  \<^item> \<open>Bhash\<close>: the hash tables of \<open>deps/blibs\<close> as lists of entries in an order chosen by an arbitrary
    \<open>layout\<close>; locale \<open>hash_table\<close>, interpreted on these operations.
  \<^item> \<open>Json\<close>: JSON values; the parser, serialiser and accessors of \<open>yyjson\<close> are a parameter \<open>json_api\<close>.
  \<^item> \<open>Common\<close>: positions, ranges, label scopes and \<open>buxn_ls_split_file\<close> (\<open>common.h\<close>, \<open>common.c\<close>).
  \<^item> \<open>Lsp\<close>: headers, bodies, sending, and UTF-16 offsets (\<open>lsp.c\<close>). \<open>Utf16\<close>: what these offsets are on
    UTF-8 text, against the definitions of both encodings.
  \<^item> \<open>Workspace\<close>: the open documents (\<open>workspace.c\<close>) and their abstract view, a map.
  \<^item> \<open>Heap\<close>: allocated blocks, \<open>buxn_ls_realloc\<close> and what is built on it (\<open>common.c\<close>, \<open>common.h\<close>); the
    address of a new block is chosen by an arbitrary \<open>allocator\<close>; locale \<open>owned_blocks\<close>, interpreted on
    \<open>buxn_ls_malloc\<close> and \<open>buxn_ls_free\<close>. \<open>Workspace_Memory\<close>: the workspace with its memory, a refinement
    of \<open>Workspace\<close> without leaks. \<open>Diagnosed_Memory\<close>: the same for the sets of diagnosed URIs (\<open>ls.c\<close>).
    \<open>Text_Memory\<close>: copies and formatted text in an arena, the hash and the comparison of keys, and the
    allocators that the libraries are given; locale \<open>text_arena\<close> is what the code relies on of an arena,
    locale \<open>hashed_keys\<close> the contract of a table's two functions, interpreted on both pairs.
  \<^item> \<open>Graph\<close>: the intrusive edge lists (\<open>graph.h\<close>) and their abstract view, a list of pairs; locale
    \<open>digraph\<close>, interpreted on them.
  \<^item> \<open>Analyze_State\<close>, \<open>Analyze\<close>, \<open>Analyze_Run\<close>: the data of the analyzer, the callbacks, and
    \<open>buxn_ls_analyze\<close> (\<open>analyze.h\<close>, \<open>analyze.c\<close>). \<open>Analyze_Inv\<close>, \<open>Analyze_Queue\<close>, \<open>Analyze_Frame\<close>,
    \<open>Analyze_Syms\<close>: its invariants and what each operation keeps. \<open>Analyze_Props\<close>: its properties.
    \<open>Analyze_Steps\<close>: the analysis as a coroutine, one callback at a time, which reads the queue anew in
    every turn of its loop; its turns add up to \<open>buxn_ls_analyze\<close>. \<open>Analyze_Lines\<close>: the files an analysis
    has opened, whose contents stay, the shared array of their lines and the conversion of positions.
    \<open>Analyze_Annotations\<close>: the symbol that a reported definition and its annotations become.
  \<^item> \<open>Completion\<close>, \<open>Completion_Props\<close>: \<open>completion.c\<close> and its properties.
  \<^item> \<open>Ls\<close>, \<open>Ls_Main\<close>: handlers and dispatch; diagnostics, start, reception and the session as a step
    relation (\<open>ls.c\<close>). \<open>Ls_Props\<close>: replies, and what handling a message and publishing keep. \<open>Ls_Session\<close>:
    the invariant, the end and the length of sessions. \<open>Ls_Requests\<close>: what the requests answer.
    \<open>Ls_Start\<close>: initialisation, the receive buffer, the timer. \<open>Ls_Diagnostics\<close>: what the C standard
    says of \<open>qsort\<close>, and what the editor shows.
    \<open>Ls_Replies\<close>: the dialogue, replies in the order of requests. \<open>Ls_Editor\<close>: the diagnostics that the
    editor shows in a session, and what messages do to the timer. \<open>Ls_Total\<close>: when handlers and turns return.
    \<open>Ls_Types\<close>: the types of results.
    \<open>Ls_Async\<close>: sessions in which messages come in while an analysis waits for a file; the sessions of
    \<open>Ls_Main\<close> are those in which none does. \<open>Ls_Edits\<close>: edits are analysed, in these sessions.
  \<^item> \<open>Entry\<close>, \<open>Entry_Props\<close>: the modes and the socket server as a step relation (\<open>main.c\<close>, \<open>server.c\<close>);
    its set of clients, the hand-over of arguments to their coroutines, and its shutdown. \<open>System\<close>: the
    socket server with the sessions of its clients, each on the socket that its coroutine has copied.
    \<open>Shim\<close>: the two loops of the shim, as a step relation too (\<open>shim.c\<close>), and what they forward.

  \<^bold>\<open>Correspondence.\<close> A function of the code has the definition of its name; blocks of the long functions
  have definitions of their own, composed in the order of the code. Structs are records, pointers to
  arena objects are indices into the arena, \<open>NULL\<close> is \<open>None\<close>. What C leaves undefined on the paths
  modelled (null dereferences, accesses outside arrays, failed assertions, recursion without end) is a
  fault, \<open>Inl\<close>, and theorems that say \<open>= Inr\<close> say that it does not happen.

  \<^bold>\<open>Fuel.\<close> The two recursions of the queue and the two of completion carry fuel, one more than the number
  of nodes. On an acyclic graph no path is longer, and the include graph of every analysis is acyclic, so
  they never run out (\<open>queue_open_documents\<close>, \<open>candidates_exact\<close>). Edge lists are walked with one unit
  per edge of the arena, which \<open>graph_inv\<close> makes enough. The two offset loops are partial functions, and
  they return for a decoder that reads at least one byte (\<open>utf16_offset_bounds\<close>).

  \<^bold>\<open>Assumptions.\<close> Allocation succeeds; lengths that are cast to \<open>int\<close> are below 2 GiB; \<open>size_t\<close> has 64
  bits and \<open>char\<close> is signed. The assembler, the verifier and the annotation scanner (\<open>deps/buxn\<close>) are
  arbitrary programs over the callbacks (\<open>asm_run\<close>), which end. The timer callback is one step in \<open>Ls_Main\<close>; in
  \<open>Ls_Async\<close> it is suspended after any callback of the assembler, and only its writes at the end are one
  step. The theorems about these sessions suppose that the timer does not fire while an analysis is
  suspended, which the code does not prevent (\<open>overlapping_analyses_fault\<close>). URIs that the code compares by address are compared as texts:
  they come from source nodes, one string per file.

  \<^bold>\<open>Not modelled.\<close> The scheduling of coroutines by \<open>bio\<close> other than as steps in any order (a spawned
  coroutine is assumed not to run before its spawner waits, and an accept on a closed socket to return),
  the pool of memory that the sessions share, the usage texts of \<open>main.c\<close>, \<open>libs.c\<close>
  (instantiation of library headers) but its allocator, \<open>bio_enter\<close> and logging (set-up of the run time),
  the life time of arenas (texts copied into one are values, nodes are indices, and the reset of an arena
  empties its context), the freeing of memory other than that of the workspace, of the sets of diagnosed
  URIs and the size of the receive buffer, and the libraries under \<open>deps\<close>, which are parameters.
\<close>

end
